(* ===== verification/Prelude.thy ===== *)
theory Prelude
  imports Main "HOL-Library.Multiset" "HOL-Library.Sublist" "HOL-Library.More_List"
begin

text \<open>
  The vocabulary that every component of the development shares: Python errors as values
  and the sequencing of fallible computations, Python slices and (negative) indexing, the
  few list and tensor operations of the standard library and of torch that the modelled
  code relies on, and the generic lemmas about them.
\<close>

section \<open>Errors as values\<close>

named_theorems res_simps \<open>case analysis on results\<close>
named_theorems slice_simps \<open>slices and lengths\<close>

datatype py_error =
    AssertionError
  | KeyError
  | IndexError
  | ValueError
  | RuntimeError
  | TypeError
  | NotImplementedError
  | AttributeError
  | UnboundLocalError

type_synonym 'a res = "py_error + 'a"

definition res_bind :: "'e + 'a \<Rightarrow> ('a \<Rightarrow> 'e + 'b) \<Rightarrow> 'e + 'b" where
  "res_bind r f = (case r of Inl e \<Rightarrow> Inl e | Inr x \<Rightarrow> f x)"

definition res_option :: "'e + 'a \<Rightarrow> 'a option" where
  \<comment> \<open>the result where only success matters\<close>
  "res_option r = (case r of Inl _ \<Rightarrow> None | Inr x \<Rightarrow> Some x)"

definition py_assert :: "bool \<Rightarrow> unit res" where
  "py_assert b = (if b then Inr () else Inl AssertionError)"

section \<open>Slices and indexing\<close>

definition slice :: "nat \<Rightarrow> nat \<Rightarrow> 'a list \<Rightarrow> 'a list" where
  \<comment> \<open>\<open>xs[i:j]\<close> for bounds that are not negative\<close>
  "slice i j xs = take (j - i) (drop i xs)"

definition py_bound :: "nat \<Rightarrow> int \<Rightarrow> nat" where
  \<comment> \<open>a slice bound: negative bounds count from the end, and bounds are clamped\<close>
  "py_bound n i = (if i < 0 then nat (max 0 (int n + i)) else min n (nat i))"

definition py_take :: "int \<Rightarrow> 'a list \<Rightarrow> 'a list" where
  \<comment> \<open>\<open>xs[:i]\<close>\<close>
  "py_take i xs = take (py_bound (length xs) i) xs"

definition py_drop :: "int \<Rightarrow> 'a list \<Rightarrow> 'a list" where
  \<comment> \<open>\<open>xs[i:]\<close>\<close>
  "py_drop i xs = drop (py_bound (length xs) i) xs"

definition py_index :: "nat \<Rightarrow> int \<Rightarrow> nat option" where
  \<comment> \<open>the position that \<open>xs[i]\<close> reads in a sequence of length \<open>n\<close>\<close>
  "py_index n i =
     (if 0 \<le> i \<and> i < int n then Some (nat i)
      else if - int n \<le> i \<and> i < 0 then Some (nat (int n + i))
      else None)"

definition py_get :: "'a list \<Rightarrow> int \<Rightarrow> 'a res" where
  "py_get xs i = (case py_index (length xs) i of None \<Rightarrow> Inl IndexError | Some k \<Rightarrow> Inr (xs ! k))"

definition py_set :: "'a list \<Rightarrow> int \<Rightarrow> 'a \<Rightarrow> 'a list res" where
  "py_set xs i v =
     (case py_index (length xs) i of None \<Rightarrow> Inl IndexError | Some k \<Rightarrow> Inr (xs[k := v]))"

section \<open>Tensor operations\<close>

fun gather_idx :: "'a list \<Rightarrow> int list \<Rightarrow> 'a list res" where
  \<comment> \<open>\<open>t[idx]\<close> for an index tensor\<close>
  "gather_idx t [] = Inr []"
| "gather_idx t (i # is) =
     res_bind (py_get t i) (\<lambda>v. res_bind (gather_idx t is) (\<lambda>vs. Inr (v # vs)))"

fun scatter_idx :: "'a list \<Rightarrow> int list \<Rightarrow> 'a list \<Rightarrow> 'a list res" where
  \<comment> \<open>\<open>t[idx] = vals\<close>\<close>
  "scatter_idx t [] vs = Inr t"
| "scatter_idx t (i # is) [] = Inl RuntimeError"
| "scatter_idx t (i # is) (v # vs) = res_bind (py_set t i v) (\<lambda>t'. scatter_idx t' is vs)"

definition torch_unique :: "'a::linorder list \<Rightarrow> 'a list" where
  \<comment> \<open>\<open>torch.unique\<close>: the distinct elements in ascending order\<close>
  "torch_unique xs = remdups (sort xs)"

section \<open>Integer helpers\<close>

fun bit_length :: "nat \<Rightarrow> nat" where
  "bit_length n = (if n = 0 then 0 else Suc (bit_length (n div 2)))"

declare bit_length.simps [simp del]

definition next_power_of_2 :: "int \<Rightarrow> nat" where
  "next_power_of_2 n = (if n > 0 then 2 ^ bit_length (nat (n - 1)) else 1)"

section \<open>Generic lemmas\<close>

lemma res_bind_simps [simp]:
  "res_bind (Inl e) f = Inl e"
  "res_bind (Inr x) f = f x"
  by (simp_all add: res_bind_def)

lemma res_option_simps [simp]:
  "res_option (Inl e) = None"
  "res_option (Inr x) = Some x"
  by (simp_all add: res_option_def)

lemma res_bind_eq_Inr [res_simps]:
  "res_bind r f = Inr y \<longleftrightarrow> (\<exists>x. r = Inr x \<and> f x = Inr y)"
  by (cases r) auto

lemma py_assert_simps [simp]:
  "py_assert True = Inr ()"
  "py_assert False = Inl AssertionError"
  by (simp_all add: py_assert_def)

lemma py_assert_eq_Inr [res_simps]: "py_assert b = Inr u \<longleftrightarrow> b"
  by (cases b) auto

lemma length_slice [simp, slice_simps]: "length (slice i j xs) = min j (length xs) - i"
  by (auto simp: slice_def)

lemma slice_full [simp]: "length xs \<le> j \<Longrightarrow> slice 0 j xs = xs"
  by (simp add: slice_def)

lemma take_slice: "take i xs @ slice i j xs = take (max i j) xs"
  by (cases "i \<le> j") (simp_all add: slice_def take_add [symmetric] max_def)

lemma set_torch_unique [simp]: "set (torch_unique xs) = set xs"
  by (simp add: torch_unique_def)

lemma distinct_torch_unique [simp]: "distinct (torch_unique xs)"
  by (simp add: torch_unique_def)

lemma sorted_torch_unique [simp]: "sorted (torch_unique xs)"
  by (simp add: torch_unique_def sorted_remdups)

lemma le_power_bit_length: "n < 2 ^ bit_length n"
proof (induction n rule: bit_length.induct)
  case (1 n)
  show ?case
  proof (cases "n = 0")
    case True
    then show ?thesis by (subst bit_length.simps) simp
  next
    case False
    with "1" have "n div 2 < 2 ^ bit_length (n div 2)" by simp
    then have "n < 2 * 2 ^ bit_length (n div 2)" by simp
    with False show ?thesis by (subst bit_length.simps) simp
  qed
qed

lemma next_power_of_2_ge: "n \<le> int (next_power_of_2 n)"
proof (cases "n > 0")
  case True
  have "nat (n - 1) < 2 ^ bit_length (nat (n - 1))" by (rule le_power_bit_length)
  then have "nat n \<le> 2 ^ bit_length (nat (n - 1))" using True by simp
  then have "n \<le> int (2 ^ bit_length (nat (n - 1)))" by (simp add: nat_le_iff)
  with True show ?thesis by (simp add: next_power_of_2_def)
qed (simp add: next_power_of_2_def)

lemma next_power_of_2_pos [simp]: "0 < next_power_of_2 n"
  by (simp add: next_power_of_2_def)

lemma py_index_bound: "py_index n i = Some k \<Longrightarrow> k < n"
  by (auto simp: py_index_def split: if_splits)

lemma filter_less_upt: "filter (\<lambda>k. int k < n) [0..<m] = [0..<min (nat n) m]"
proof (induction m)
  case (Suc m)
  have "min (nat n) (Suc m) = (if int m < n then Suc m else min (nat n) m)" by auto
  with Suc show ?case by auto
qed simp

lemma sum_list_masked:
  assumes "\<And>i. i \<le> pid \<Longrightarrow> f i = g i" and "\<And>i. pid < i \<Longrightarrow> f i = (0::int)" and "pid < m"
  shows "sum_list (map f [0..<m]) = sum_list (map g [0..<Suc pid])"
proof -
  obtain k where m: "m = Suc pid + k" using assms(3) less_iff_Suc_add by auto
  have "[0..<m] = [0..<Suc pid] @ [Suc pid..<m]"
    unfolding m by (rule upt_add_eq_append) simp
  moreover have "map f [0..<Suc pid] = map g [0..<Suc pid]" using assms(1) by simp
  moreover have "map f [Suc pid..<m] = map (\<lambda>_. 0) [Suc pid..<m]" using assms(2) by simp
  ultimately show ?thesis by (simp only: map_append sum_list_append sum_list_0)
qed

lemma map_upt_split: "map f [0..<a + b] = map f [0..<a] @ map (\<lambda>k. f (a + k)) [0..<b]"
proof -
  have "[0..<a + b] = [0..<a] @ [a..<a + b]" by (rule upt_add_eq_append) simp
  moreover have "[a..<a + b] = map (\<lambda>k. a + k) [0..<b]"
    using map_add_upt [of a b] by (simp add: add.commute)
  ultimately show ?thesis by simp
qed

lemma div_less_of_less_mult:
  assumes "0 < (ps :: int)" and "t < x * ps"
  shows "t div ps < x"
proof (rule ccontr)
  assume "\<not> t div ps < x"
  then have "x * ps \<le> t div ps * ps" using assms(1) by simp
  also have "t div ps * ps \<le> t" using assms(1) by (simp add: minus_mod_eq_div_mult [symmetric])
  finally show False using assms(2) by simp
qed

lemma sum_list_upt_nonneg:
  "(\<And>i. i < n \<Longrightarrow> 0 \<le> f i) \<Longrightarrow> 0 \<le> sum_list (map (f :: nat \<Rightarrow> int) [0..<n])"
  by (rule sum_list_nonneg) auto

lemma sum_list_upt_mono:
  "(\<And>i. i < n \<Longrightarrow> 0 \<le> (f i :: int)) \<Longrightarrow> m \<le> n \<Longrightarrow>
     sum_list (map f [0..<m]) \<le> sum_list (map f [0..<n])"
proof (induction n)
  case (Suc n)
  show ?case
  proof (cases "m = Suc n")
    case False
    with Suc have "sum_list (map f [0..<m]) \<le> sum_list (map f [0..<n])" by simp
    with Suc.prems(1) [of n] show ?thesis by simp
  qed simp
qed simp

lemma py_drop_nat: "0 \<le> i \<Longrightarrow> py_drop i xs = drop (nat i) xs"
  by (cases "nat i \<le> length xs") (simp_all add: py_drop_def py_bound_def)

lemma py_take_nat: "0 \<le> i \<Longrightarrow> py_take i xs = take (nat i) xs"
  by (cases "nat i \<le> length xs") (simp_all add: py_take_def py_bound_def)

lemma py_take_butlast: "py_take (- 1) xs = butlast xs"
  by (cases xs) (simp_all add: py_take_def py_bound_def butlast_conv_take)

lemma map2_self_map: "map2 f xs (map g xs) = map (\<lambda>x. f x (g x)) xs"
  by (induction xs) auto

lemma distinct_concat_rows:
  assumes "\<And>i j k k'. i < n \<Longrightarrow> j < n \<Longrightarrow> k < m i \<Longrightarrow> k' < m j \<Longrightarrow> g i k = g j k' \<Longrightarrow> i = j \<and> k = k'"
  shows "distinct (concat (map (\<lambda>i. map (g i) [0..<m i]) [0..<n]))"
  using assms
proof (induction n)
  case (Suc n)
  have "distinct (concat (map (\<lambda>i. map (g i) [0..<m i]) [0..<n]))"
    by (rule Suc.IH, rule Suc.prems) simp_all
  moreover have "distinct (map (g n) [0..<m n])"
    using Suc.prems [of n n] by (auto simp: distinct_map intro!: inj_onI)
  moreover have "set (map (g n) [0..<m n]) \<inter> set (concat (map (\<lambda>i. map (g i) [0..<m i]) [0..<n])) = {}"
  proof -
    have "g n k \<noteq> g i k'" if "k < m n" "i < n" "k' < m i" for i k k'
      using Suc.prems [of n i k k'] that by auto
    then show ?thesis by (auto simp: disjoint_iff)
  qed
  ultimately show ?case by (simp add: Int_commute)
qed simp

lemma div_add_le_int: "0 < (ps::int) \<Longrightarrow> a div ps + b div ps \<le> (a + b) div ps"
  by (smt (verit) div_add1_eq pos_imp_zdiv_nonneg_iff pos_mod_sign)

end
