(* ===== verification/Py_Text.thy ===== *)
theory Py_Text
  imports Prelude "HOL-Library.Char_ord"
begin

text \<open>
  Python's \<open>str\<close> as the list of its code points, with the methods the sources use
  (\<open>find\<close>, \<open>in\<close>, \<open>startswith\<close>, \<open>replace\<close>, \<open>strip\<close>, \<open>split\<close>, \<open>join\<close>, \<open>int()\<close>), and the facts
  about substrings that the parsers rely on.
\<close>

section \<open>Strings\<close>

type_synonym "text" = "nat list"

definition str :: "string \<Rightarrow> text" where
  "str s = map of_char s"

definition starts_with :: "text \<Rightarrow> text \<Rightarrow> bool" where
  \<comment> \<open>\<open>t.startswith(p)\<close>\<close>
  "starts_with p t = (take (length p) t = p)"

definition ends_with :: "text \<Rightarrow> text \<Rightarrow> bool" where
  "ends_with p t = (length p \<le> length t \<and> drop (length t - length p) t = p)"

fun find_sub :: "text \<Rightarrow> text \<Rightarrow> nat option" where
  \<comment> \<open>\<open>t.find(p)\<close>, with \<open>None\<close> for -1\<close>
  "find_sub p [] = (if p = [] then Some 0 else None)"
| "find_sub p (c # cs) = (if starts_with p (c # cs) then Some 0 else map_option Suc (find_sub p cs))"

definition find_from :: "text \<Rightarrow> text \<Rightarrow> nat \<Rightarrow> nat option" where
  \<comment> \<open>\<open>t.find(p, start)\<close>\<close>
  "find_from p t start =
     (if length t < start then None else map_option ((+) start) (find_sub p (drop start t)))"

definition contains :: "text \<Rightarrow> text \<Rightarrow> bool" where
  \<comment> \<open>\<open>p in t\<close>\<close>
  "contains p t = (find_sub p t \<noteq> None)"

function replace_nonempty :: "text \<Rightarrow> text \<Rightarrow> text \<Rightarrow> text" where
  "replace_nonempty old new t =
     (if old = [] then t
      else case find_sub old t of
             None \<Rightarrow> t
           | Some i \<Rightarrow> take i t @ new @ replace_nonempty old new (drop (i + length old) t))"
  by pat_completeness auto
termination
proof (relation "measure (\<lambda>(old, new, t). length t)", goal_cases)
  case (2 old new t i)
  have "t \<noteq> []" using 2 by (auto split: if_splits)
  then show ?case using 2(1) by (simp add: Suc_le_eq)
qed simp

declare replace_nonempty.simps [simp del]

definition replace_all :: "text \<Rightarrow> text \<Rightarrow> text \<Rightarrow> text" where
  \<comment> \<open>\<open>t.replace(old, new)\<close>\<close>
  "replace_all old new t =
     (if old = [] then concat (map (\<lambda>c. new @ [c]) t) @ new else replace_nonempty old new t)"

definition is_space :: "nat \<Rightarrow> bool" where
  \<comment> \<open>the code points for which \<open>str.isspace\<close> holds\<close>
  "is_space c \<longleftrightarrow> 9 \<le> c \<and> c \<le> 13 \<or> 28 \<le> c \<and> c \<le> 32 \<or> c = 133 \<or> c = 160 \<or> c = 5760
     \<or> 8192 \<le> c \<and> c \<le> 8202 \<or> c = 8232 \<or> c = 8233 \<or> c = 8239 \<or> c = 8287 \<or> c = 12288"

definition lstrip :: "text \<Rightarrow> text" where
  "lstrip t = dropWhile is_space t"

definition rstrip :: "text \<Rightarrow> text" where
  "rstrip t = rev (dropWhile is_space (rev t))"

definition strip :: "text \<Rightarrow> text" where
  "strip t = rstrip (lstrip t)"

definition lower :: "text \<Rightarrow> text" where
  \<comment> \<open>\<open>str.lower\<close> on the code points whose image is ASCII (8490 is the Kelvin sign)\<close>
  "lower t = map (\<lambda>c. if 65 \<le> c \<and> c \<le> 90 then c + 32 else if c = 8490 then 107 else c) t"

definition join :: "text \<Rightarrow> text list \<Rightarrow> text" where
  \<comment> \<open>\<open>sep.join(parts)\<close>\<close>
  "join sep parts = (case parts of [] \<Rightarrow> [] | p # ps \<Rightarrow> p @ concat (map (\<lambda>q. sep @ q) ps))"

section \<open>\<open>int(s)\<close>\<close>

definition is_digit :: "nat \<Rightarrow> bool" where
  "is_digit c \<longleftrightarrow> 48 \<le> c \<and> c \<le> 57"

fun digits_value :: "int \<Rightarrow> bool \<Rightarrow> text \<Rightarrow> int option" where
  \<comment> \<open>decimal digits with single underscores between them; the flag says a digit came last\<close>
  "digits_value acc last_digit [] = (if last_digit then Some acc else None)"
| "digits_value acc last_digit (c # cs) =
     (if is_digit c then digits_value (10 * acc + int (c - 48)) True cs
      else if c = 95 \<and> last_digit then digits_value acc False cs
      else None)"

definition py_int :: "text \<Rightarrow> int option" where
  \<comment> \<open>\<open>int(s)\<close> on ASCII digits; \<open>None\<close> is the \<open>ValueError\<close>\<close>
  "py_int s =
     (case strip s of
        [] \<Rightarrow> None
      | c # cs \<Rightarrow> if c = 45 then map_option uminus (digits_value 0 False cs)
                 else if c = 43 then digits_value 0 False cs
                 else digits_value 0 False (c # cs))"

section \<open>Facts about substrings\<close>

lemma starts_with_prefix: "starts_with p t \<longleftrightarrow> prefix p t"
  by (auto simp: starts_with_def prefix_def intro: append_take_drop_id [symmetric] exI [of _ "drop (length p) t"]) (metis append_take_drop_id)

lemma find_sub_Some:
  "find_sub p t = Some i \<Longrightarrow> t = take i t @ p @ drop (i + length p) t \<and> i + length p \<le> length t"
proof (induction t arbitrary: i)
  case (Cons c cs)
  show ?case
  proof (cases "starts_with p (c # cs)")
    case True
    then have "i = 0" "prefix p (c # cs)" using Cons.prems by (auto simp: starts_with_prefix)
    then show ?thesis by (auto simp: prefix_def dest: arg_cong [of _ _ length])
  next
    case False
    then obtain k where "find_sub p cs = Some k" "i = Suc k" using Cons.prems by auto
    then show ?thesis using Cons.IH [of k] by simp
  qed
qed (auto split: if_splits)

lemma find_sub_here: "find_sub p (p @ b) = Some 0"
proof (cases p)
  case Nil
  then show ?thesis by (cases b) (simp_all add: starts_with_def)
qed (simp add: starts_with_def)

lemma find_sub_first: "find_sub p (a @ p @ b) = Some i \<Longrightarrow> i \<le> length a"
proof (induction a arbitrary: i)
  case Nil
  then show ?case by (simp add: find_sub_here)
qed (auto split: if_splits)

lemma find_sub_exists: "find_sub p (a @ p @ b) \<noteq> None"
proof (induction a)
  case Nil
  then show ?case by (simp add: find_sub_here)
qed auto

lemma contains_iff: "contains p t \<longleftrightarrow> (\<exists>a b. t = a @ p @ b)"
  unfolding contains_def using find_sub_Some find_sub_exists by (metis option.exhaust)

lemma find_sub_unique:
  assumes "\<not> contains p (a @ butlast p)" "p \<noteq> []"
  shows "find_sub p (a @ p @ b) = Some (length a)"
proof -
  obtain i where i: "find_sub p (a @ p @ b) = Some i" using find_sub_exists by blast
  have "\<not> i < length a"
  proof
    assume lt: "i < length a"
    have "take (i + length p) (a @ p @ b) = take i (a @ p @ b) @ p"
      using find_sub_Some [OF i] by (metis append_assoc append_eq_conv_conj length_append length_take min.absorb2 add_leD1)
    moreover have n: "i + length p \<le> length (a @ butlast p)" using lt assms(2) by (cases p) auto
    have "a @ p @ b = (a @ butlast p) @ last p # b" using assms(2) by simp
    then have "take (i + length p) (a @ butlast p) = take (i + length p) (a @ p @ b)"
      using n by (metis append_Nil2 diff_is_0_eq take0 take_append)
    ultimately have "a @ butlast p = take i (a @ p @ b) @ p @ drop (i + length p) (a @ butlast p)"
      by (metis append_assoc append_take_drop_id)
    then show False using assms(1) contains_iff by blast
  qed
  then show ?thesis using i find_sub_first [OF i] by simp
qed

lemma not_contains_append:
  "\<not> contains p (a @ b) \<Longrightarrow> \<not> contains p a \<and> \<not> contains p b"
  by (metis append_assoc contains_iff)

lemma replace_none: "p \<noteq> [] \<Longrightarrow> \<not> contains p t \<Longrightarrow> replace_all p q t = t"
  by (subst replace_all_def, subst replace_nonempty.simps) (simp add: contains_def)

lemma replace_first:
  assumes "p \<noteq> []" "find_sub p t = Some i"
  shows "replace_all p q t = take i t @ q @ replace_all p q (drop (i + length p) t)"
  using assms by (simp add: replace_all_def) (subst replace_nonempty.simps, simp)

end
