(* ===== verification/Sampling_Params.thy ===== *)
theory Sampling_Params
  imports Complex_Main Py_Text
begin

text \<open>
  The sampling parameters of a request (\<^verbatim>\<open>sampling/sampling_params.py\<close>): construction with its
  special cases, validation with every error branch, and the normalisation of the stop strings.
  A Python float is a rational number, an infinity or NaN, and is only ever compared here. The
  tokenizer is a parameter.
\<close>

section \<open>Floats\<close>

datatype py_float = Finite rat | PInf | MInf | NaN

fun fl_less :: "py_float \<Rightarrow> py_float \<Rightarrow> bool" where
  "fl_less (Finite a) (Finite b) = (a < b)"
| "fl_less (Finite a) PInf = True"
| "fl_less MInf (Finite b) = True"
| "fl_less MInf PInf = True"
| "fl_less _ _ = False"

definition fl_le :: "py_float \<Rightarrow> py_float \<Rightarrow> bool" where
  "fl_le a b = (a \<noteq> NaN \<and> b \<noteq> NaN \<and> (a = b \<or> fl_less a b))"

section \<open>SamplingParams\<close>

definition SAMPLING_EPS :: py_float where
  \<comment> \<open>the double nearest to 1e-6\<close>
  "SAMPLING_EPS = Finite (4722366482869645 / 4722366482869645213696)"

definition TOP_K_ALL :: int where
  "TOP_K_ALL = 2 ^ 30"

datatype stop_spec = StopNone | StopStr "text" | StopList "text list"

record sampling_params =
  max_new_tokens :: "int option"
  stop_strs :: stop_spec
  stop_str_max_len :: "nat option" \<comment> \<open>set by \<open>normalize\<close>\<close>
  stop_token_ids :: "int list option" \<comment> \<open>a set, in its iteration order\<close>
  temperature :: py_float
  top_p :: py_float
  top_k :: int
  min_p :: py_float
  frequency_penalty :: py_float
  presence_penalty :: py_float
  repetition_penalty :: py_float
  min_new_tokens :: int
  n_samples :: int
  json_schema :: "text option"
  regex :: "text option"
  ebnf :: "text option"
  structural_tag :: "text option"
  ignore_eos :: bool
  skip_special_tokens :: bool
  spaces_between_special_tokens :: bool
  no_stop_trim :: bool
  stream_interval :: "int option"
  logit_bias :: "(text \<times> py_float) list option"

definition default_params :: sampling_params where
  \<comment> \<open>the default arguments of the constructor\<close>
  "default_params = \<lparr>max_new_tokens = Some 128, stop_strs = StopNone, stop_str_max_len = None, stop_token_ids = None,
     temperature = Finite 1, top_p = Finite 1, top_k = -1, min_p = Finite 0, frequency_penalty = Finite 0,
     presence_penalty = Finite 0, repetition_penalty = Finite 1, min_new_tokens = 0, n_samples = 1,
     json_schema = None, regex = None, ebnf = None, structural_tag = None, ignore_eos = False,
     skip_special_tokens = True, spaces_between_special_tokens = True, no_stop_trim = False,
     stream_interval = None, logit_bias = None\<rparr>"

definition init_params :: "sampling_params \<Rightarrow> sampling_params" where
  \<comment> \<open>the constructor: its arguments are the fields of the record\<close>
  "init_params a =
     (let p = a\<lparr>stop_str_max_len := None,
                stop_token_ids := (case stop_token_ids a of None \<Rightarrow> None
                   | Some ids \<Rightarrow> if ids = [] then None else Some (remdups ids))\<rparr>;
          q = (if fl_le (Finite 0) (temperature p) \<and> fl_less (temperature p) SAMPLING_EPS
               then p\<lparr>temperature := Finite 1, top_k := 1\<rparr> else p)
      in if top_k q = -1 then q\<lparr>top_k := TOP_K_ALL\<rparr> else q)"

fun check_bias_keys :: "int \<Rightarrow> (text \<times> py_float) list \<Rightarrow> unit res" where
  \<comment> \<open>\<open>int(token_id)\<close> raises \<open>ValueError\<close> itself on a key that is not a number\<close>
  "check_bias_keys vocab_size [] = Inr ()"
| "check_bias_keys vocab_size ((token_id, _) # rest) =
     (case py_int token_id of
        None \<Rightarrow> Inl ValueError
      | Some i \<Rightarrow> if \<not> (0 \<le> i \<and> i < vocab_size) then Inl ValueError else check_bias_keys vocab_size rest)"

definition verify :: "int \<Rightarrow> sampling_params \<Rightarrow> unit res" where
  "verify vocab_size p =
     (if fl_less (temperature p) (Finite 0) then Inl ValueError
      else if \<not> (fl_less (Finite 0) (top_p p) \<and> fl_le (top_p p) (Finite 1)) then Inl ValueError
      else if \<not> (fl_le (Finite 0) (min_p p) \<and> fl_le (min_p p) (Finite 1)) then Inl ValueError
      else if top_k p < 1 \<or> top_k p = -1 then Inl ValueError
      else if \<not> (fl_le (Finite (-2)) (frequency_penalty p) \<and> fl_le (frequency_penalty p) (Finite 2)) then Inl ValueError
      else if \<not> (fl_le (Finite (-2)) (presence_penalty p) \<and> fl_le (presence_penalty p) (Finite 2)) then Inl ValueError
      else if \<not> (fl_le (Finite 0) (repetition_penalty p) \<and> fl_le (repetition_penalty p) (Finite 2)) then Inl ValueError
      else if \<not> 0 \<le> min_new_tokens p then Inl ValueError
      else if (case max_new_tokens p of None \<Rightarrow> False | Some m \<Rightarrow> m < 0 \<or> \<not> min_new_tokens p \<le> m) then Inl ValueError
      else res_bind (case logit_bias p of None \<Rightarrow> Inr () | Some b \<Rightarrow> check_bias_keys vocab_size b)
        (\<lambda>_. if length (filter (\<lambda>x. x \<noteq> None) [json_schema p, regex p, ebnf p]) > 1
             then Inl ValueError else Inr ()))"

definition normalize_params :: "(text \<Rightarrow> int list) option \<Rightarrow> sampling_params \<Rightarrow> sampling_params" where
  \<comment> \<open>the argument is the \<open>encode\<close> method of the tokenizer, if there is one\<close>
  "normalize_params tokenizer p =
     (case stop_strs p of
        StopNone \<Rightarrow> p\<lparr>stop_strs := StopList [], stop_str_max_len := Some 0\<rparr>
      | s \<Rightarrow>
          (let strs = (case s of StopStr t \<Rightarrow> [t] | StopList ts \<Rightarrow> ts | StopNone \<Rightarrow> [])
           in p\<lparr>stop_strs := StopList strs,
                stop_str_max_len := Some (fold (\<lambda>t m. max m
                   (case tokenizer of Some encode \<Rightarrow> length (encode t) | None \<Rightarrow> length t)) strs 0)\<rparr>))"

section \<open>Lemmas\<close>

definition stop_list :: "sampling_params \<Rightarrow> text list" where
  "stop_list p = (case stop_strs p of StopNone \<Rightarrow> [] | StopStr t \<Rightarrow> [t] | StopList ts \<Rightarrow> ts)"

lemma fold_max_is_Max: "fold (\<lambda>t m. max m (f t)) xs a = Max (insert (a :: nat) (f ` set xs))"
proof (induction xs arbitrary: a)
  case (Cons y ys)
  have "Max (insert (max a (f y)) (f ` set ys)) = Max (insert a (insert (f y) (f ` set ys)))"
    by (cases "ys = []") (simp_all add: max.assoc max.left_commute)
  then show ?case using Cons.IH [of "max a (f y)"] by simp
qed simp

lemma normalize_fields:
  "stop_strs (normalize_params tok p) = StopList (stop_list p)"
  "stop_str_max_len (normalize_params tok p) = Some (fold (\<lambda>t m. max m
       (case tok of Some encode \<Rightarrow> length (encode t) | None \<Rightarrow> length t)) (stop_list p) 0)"
  by (simp_all add: normalize_params_def stop_list_def split: stop_spec.splits)

lemma if_Inl_eq:
  "(if P then Inl e else r) = Inr x \<longleftrightarrow> \<not> P \<and> r = Inr x"
  "res_bind r' (\<lambda>_ :: unit. r) = Inr x \<longleftrightarrow> r' = Inr () \<and> r = Inr x"
  by (auto simp: res_bind_eq_Inr)

lemma check_bias_keys_ok:
  "check_bias_keys v b = Inr () \<longleftrightarrow> (\<forall>(k, w)\<in>set b. \<exists>i. py_int k = Some i \<and> 0 \<le> i \<and> i < v)"
  by (induction v b rule: check_bias_keys.induct) (auto split: option.splits)

section \<open>Properties\<close>

text \<open>
  C27: construction and verification together accept exactly the parameters in their documented
  ranges: a temperature that is not negative (a value below the sampling epsilon selects greedy
  decoding instead), \<open>top_k\<close> at least one, \<open>top_p\<close> in (0, 1], \<open>min_p\<close> in [0, 1], frequency and presence
  penalty in [-2, 2], repetition penalty in [0, 2], token counts that are ordered and not negative, logit-bias keys
  that name a token of the vocabulary, and at most one of the three grammars. The temperature
  that remains is never a non-negative value below the epsilon. Only the temperature may be NaN.
\<close>

theorem verified_params_bounds:
  fixes a :: sampling_params
  defines "p \<equiv> init_params a"
  shows "(verify vocab_size p = Inr () \<longleftrightarrow>
       \<not> fl_less (temperature p) (Finite 0) \<and> 1 \<le> top_k p \<and> fl_less (Finite 0) (top_p p) \<and> fl_le (top_p p) (Finite 1)
     \<and> fl_le (Finite 0) (min_p p) \<and> fl_le (min_p p) (Finite 1)
     \<and> fl_le (Finite (-2)) (frequency_penalty p) \<and> fl_le (frequency_penalty p) (Finite 2)
     \<and> fl_le (Finite (-2)) (presence_penalty p) \<and> fl_le (presence_penalty p) (Finite 2)
     \<and> fl_le (Finite 0) (repetition_penalty p) \<and> fl_le (repetition_penalty p) (Finite 2)
     \<and> 0 \<le> min_new_tokens p \<and> (\<forall>m. max_new_tokens p = Some m \<longrightarrow> min_new_tokens p \<le> m)
     \<and> (\<forall>b k w. logit_bias p = Some b \<longrightarrow> (k, w) \<in> set b \<longrightarrow> (\<exists>i. py_int k = Some i \<and> 0 \<le> i \<and> i < vocab_size))
     \<and> \<not> (json_schema p \<noteq> None \<and> regex p \<noteq> None) \<and> \<not> (json_schema p \<noteq> None \<and> ebnf p \<noteq> None)
     \<and> \<not> (regex p \<noteq> None \<and> ebnf p \<noteq> None))
   \<and> \<not> (fl_le (Finite 0) (temperature p) \<and> fl_less (temperature p) SAMPLING_EPS)"
proof -
  have "\<not> (fl_le (Finite 0) (temperature p) \<and> fl_less (temperature p) SAMPLING_EPS)"
    by (auto simp: p_def init_params_def Let_def SAMPLING_EPS_def)
  moreover have "(case logit_bias p of None \<Rightarrow> Inr () | Some b \<Rightarrow> check_bias_keys vocab_size b) = Inr ()
      \<longleftrightarrow> (\<forall>b k w. logit_bias p = Some b \<longrightarrow> (k, w) \<in> set b \<longrightarrow> (\<exists>i. py_int k = Some i \<and> 0 \<le> i \<and> i < vocab_size))"
    by (auto simp: check_bias_keys_ok split: option.splits)
  moreover have "length (filter (\<lambda>x. x \<noteq> None) [json_schema p, regex p, ebnf p]) > 1 \<longleftrightarrow>
      \<not> (\<not> (json_schema p \<noteq> None \<and> regex p \<noteq> None) \<and> \<not> (json_schema p \<noteq> None \<and> ebnf p \<noteq> None)
     \<and> \<not> (regex p \<noteq> None \<and> ebnf p \<noteq> None))" by auto
  moreover have "\<not> (case max_new_tokens p of None \<Rightarrow> False | Some m \<Rightarrow> m < 0 \<or> \<not> min_new_tokens p \<le> m)
      \<longleftrightarrow> (\<forall>m. max_new_tokens p = Some m \<longrightarrow> min_new_tokens p \<le> m)" if "0 \<le> min_new_tokens p"
    using that by (auto split: option.splits)
  moreover have "\<not> (top_k p < 1 \<or> top_k p = -1) \<longleftrightarrow> 1 \<le> top_k p" by auto
  ultimately show ?thesis unfolding verify_def if_Inl_eq by argo
qed

theorem verified_params_bounds_witness:
  "verify 100 (init_params (default_params\<lparr>temperature := Finite 0, logit_bias := Some [(str ''42'', Finite 1)]\<rparr>)) = Inr ()
   \<and> fl_le (repetition_penalty (init_params (default_params\<lparr>temperature := Finite 0, logit_bias := Some [(str ''42'', Finite 1)]\<rparr>))) (Finite 2)
   \<and> verify 100 (init_params (default_params\<lparr>presence_penalty := Finite 3\<rparr>)) \<noteq> Inr ()"
proof -
  let ?a = "default_params\<lparr>temperature := Finite 0, logit_bias := Some [(str ''42'', Finite 1)]\<rparr>"
    and ?b = "default_params\<lparr>presence_penalty := Finite 3\<rparr>"
  have "verify 100 (init_params ?a) = Inr ()"
    by (simp add: verify_def init_params_def default_params_def fl_le_def SAMPLING_EPS_def py_int_def str_def
        strip_def lstrip_def rstrip_def is_space_def is_digit_def)
  moreover have "\<not> fl_le (presence_penalty (init_params ?b)) (Finite 2)"
    by (simp add: init_params_def default_params_def fl_le_def SAMPLING_EPS_def)
  ultimately show ?thesis using verified_params_bounds [of 100 ?a] verified_params_bounds [of 100 ?b] by simp
qed

text \<open>
  C28: normalising turns the stop argument into a list with the same stop strings, is idempotent,
  and records the length of the longest stop string in tokens (without a tokenizer, in characters),
  0 if there is none: how many tokens of the output the stop check has to look at.
\<close>

theorem normalize_stop_strings:
  "stop_strs (normalize_params tok p) = StopList (stop_list p) \<and> normalize_params tok (normalize_params tok p) = normalize_params tok p
   \<and> stop_str_max_len (normalize_params tok p) = Some (Max (insert 0
        ((\<lambda>t. case tok of Some encode \<Rightarrow> length (encode t) | None \<Rightarrow> length t) ` set (stop_list p))))"
proof -
  have "normalize_params tok (normalize_params tok p) = normalize_params tok p"
    by (cases "stop_strs p") (simp_all add: normalize_params_def Let_def)
  then show ?thesis unfolding normalize_fields fold_max_is_Max by simp
qed

end
