(* ===== verification/Radix_Cache.thy ===== *)
theory Radix_Cache
  imports Prelude "HOL-Library.AList" "HOL-Library.Monad_Syntax"
begin

text \<open>
  The radix tree of \<^verbatim>\<open>mem_cache/radix_cache.py\<close>: tree nodes as records in a store indexed by the
  node's number (\<open>TreeNode.counter\<close>), so that parent pointers, the node references that
  requests hold and the in-place split of a node are those of the code; every method of
  \<^verbatim>\<open>RadixCache\<close> as a function on the cache's record. A loop that follows pointers is a
  \<open>partial_function (option)\<close>: \<open>None\<close> means that the Python code raises or does not return.
  The clock (\<open>time.monotonic\<close>) and the hash of a tuple of tokens are parameters of the
  cache's record. \<open>heapq\<close> is modelled by its contract, popping a node with the least access
  time. The state in which a node's device value is \<open>None\<close> exists only under the
  hierarchical cache and is not represented.
\<close>

section \<open>TreeNode\<close>

record tree_node =
  children :: "(int list \<times> nat) list"
  parent :: "nat option"
  nkey :: "int list"
  nvalue :: "int list"
  lock_ref :: int
  last_access_time :: int
  hit_count :: int
  loading :: bool
  host_ref_counter :: int
  host_value :: "int list option"
  hash_value :: "string list option"

definition new_tree_node :: "int \<Rightarrow> tree_node" where
  \<comment> \<open>the constructor, given the reading of the clock\<close>
  "new_tree_node t = \<lparr>children = [], parent = None, nkey = [], nvalue = [], lock_ref = 0,
     last_access_time = t, hit_count = 0, loading = False, host_ref_counter = 0,
     host_value = None, hash_value = None\<rparr>"

definition backuped :: "tree_node \<Rightarrow> bool" where
  "backuped n = (host_value n \<noteq> None)"

definition protect_host :: "tree_node \<Rightarrow> tree_node" where
  "protect_host n = n\<lparr>host_ref_counter := host_ref_counter n + 1\<rparr>"

definition release_host :: "tree_node \<Rightarrow> tree_node res" where
  "release_host n =
     (if host_ref_counter n > 0 then Inr (n\<lparr>host_ref_counter := host_ref_counter n - 1\<rparr>)
      else Inl RuntimeError)"

definition get_last_hash_value :: "tree_node \<Rightarrow> string option" where
  "get_last_hash_value n =
     (case hash_value n of None \<Rightarrow> None | Some hs \<Rightarrow> if length hs = 0 then None else Some (last hs))"

section \<open>Matching keys\<close>

fun key_match_page_size1 :: "int list \<Rightarrow> int list \<Rightarrow> nat" where
  "key_match_page_size1 (k0 # key0) (k1 # key1) =
     (if k0 \<noteq> k1 then 0 else Suc (key_match_page_size1 key0 key1))"
| "key_match_page_size1 _ _ = 0"

function key_match_paged_from :: "int list \<Rightarrow> int list \<Rightarrow> nat \<Rightarrow> nat \<Rightarrow> nat" where
  \<comment> \<open>the loop of \<open>_key_match_paged\<close>; the page size is positive\<close>
  "key_match_paged_from key0 key1 page_size i =
     (if i < min (length key0) (length key1) \<and> 0 < page_size
         \<and> slice i (i + page_size) key0 = slice i (i + page_size) key1
      then key_match_paged_from key0 key1 page_size (i + page_size) else i)"
  by pat_completeness auto
termination
  by (relation "measure (\<lambda>(key0, key1, page_size, i). min (length key0) (length key1) - i)") auto

declare key_match_paged_from.simps [simp del]

definition key_match_paged :: "int list \<Rightarrow> int list \<Rightarrow> nat \<Rightarrow> nat" where
  "key_match_paged key0 key1 page_size = key_match_paged_from key0 key1 page_size 0"

definition key_match_fn :: "nat \<Rightarrow> int list \<Rightarrow> int list \<Rightarrow> nat" where
  "key_match_fn page_size key0 key1 =
     (if page_size = 1 then key_match_page_size1 key0 key1
      else key_match_paged key0 key1 page_size)"

definition get_child_key_fn :: "nat \<Rightarrow> int list \<Rightarrow> int list option" where
  \<comment> \<open>\<open>key[0]\<close>, which raises on an empty key, or \<open>tuple(key[:page_size])\<close>\<close>
  "get_child_key_fn page_size key =
     (if page_size = 1 then (case key of [] \<Rightarrow> None | k # _ \<Rightarrow> Some [k])
      else Some (take page_size key))"

section \<open>RadixCache: state and events\<close>

datatype kv_cache_event =
    BlockStored "int list" "int option" "int list" nat "int option"
  | BlockRemoved "int list"
  | AllBlocksCleared

record radix_cache =
  page_size :: nat
  disable :: bool
  enable_kv_cache_events :: bool
  kv_event_queue :: "kv_cache_event list"
  root_node :: nat
  evictable_sz :: int
  protected_sz :: int
  nodes :: "nat \<Rightarrow> tree_node option"
  counter :: nat
  monotonic :: "nat \<Rightarrow> int"
  ticks :: nat
  py_hash :: "int list \<Rightarrow> int"

record match_result =
  device_indices :: "int list"
  last_device_node :: nat
  last_host_node :: nat
  host_hit_length :: nat

definition modify_node :: "nat \<Rightarrow> (tree_node \<Rightarrow> tree_node) \<Rightarrow> radix_cache \<Rightarrow> radix_cache" where
  "modify_node n f c = c\<lparr>nodes := (nodes c)(n := map_option f (nodes c n))\<rparr>"

definition tick :: "radix_cache \<Rightarrow> radix_cache" where
  "tick c = c\<lparr>ticks := ticks c + 1\<rparr>"

definition touch :: "nat \<Rightarrow> radix_cache \<Rightarrow> radix_cache" where
  \<comment> \<open>\<open>node.last_access_time = time.monotonic()\<close>\<close>
  "touch n c = tick (modify_node n (\<lambda>nd. nd\<lparr>last_access_time := monotonic c (ticks c)\<rparr>) c)"

definition create_node :: "(tree_node \<Rightarrow> tree_node) \<Rightarrow> radix_cache \<Rightarrow> nat \<times> radix_cache" where
  \<comment> \<open>\<open>TreeNode()\<close> followed by the assignments \<open>f\<close> to its fields\<close>
  "create_node f c =
     (counter c,
      tick (c\<lparr>nodes := (nodes c)(counter c \<mapsto> f (new_tree_node (monotonic c (ticks c)))),
              counter := counter c + 1\<rparr>))"

definition page_starts :: "nat \<Rightarrow> nat \<Rightarrow> nat list" where
  \<comment> \<open>\<open>range(0, n, page_size)\<close>\<close>
  "page_starts ps n = map (\<lambda>i. i * ps) [0..<(n + ps - 1) div ps]"

fun store_events :: "(int list \<Rightarrow> int) \<Rightarrow> nat \<Rightarrow> int list \<Rightarrow> int option \<Rightarrow> nat list \<Rightarrow> kv_cache_event list" where
  "store_events hsh ps key parent_hash [] = []"
| "store_events hsh ps key parent_hash (start # starts) =
     (let page_tokens = slice start (start + ps) key
      in if page_tokens = [] then store_events hsh ps key parent_hash starts
         else BlockStored [hsh page_tokens] parent_hash page_tokens (length page_tokens) None
              # store_events hsh ps key (Some (hsh page_tokens)) starts)"

definition record_store_event :: "nat \<Rightarrow> radix_cache \<Rightarrow> radix_cache option" where
  "record_store_event n c =
     (if \<not> enable_kv_cache_events c then Some c
      else do {
        nd \<leftarrow> nodes c n;
        parent_block_hash \<leftarrow>
          (if parent nd = None \<or> n \<noteq> root_node c then Some None
           else do {
             p \<leftarrow> parent nd;
             pn \<leftarrow> nodes c p;
             Some (Some (py_hash c
               (py_drop ((int (length (nkey pn)) - 1) div int (page_size c) * int (page_size c)) (nkey pn))))
           });
        Some (c\<lparr>kv_event_queue := kv_event_queue c
           @ store_events (py_hash c) (page_size c) (nkey nd) parent_block_hash
               (page_starts (page_size c) (length (nkey nd)))\<rparr>)
      })"

definition record_remove_event :: "nat \<Rightarrow> radix_cache \<Rightarrow> radix_cache option" where
  "record_remove_event n c =
     (if \<not> enable_kv_cache_events c then Some c
      else do {
        nd \<leftarrow> nodes c n;
        Some (c\<lparr>kv_event_queue := kv_event_queue c
          @ map (\<lambda>s. BlockRemoved [py_hash c (slice s (s + page_size c) (nkey nd))])
              (filter (\<lambda>s. slice s (s + page_size c) (nkey nd) \<noteq> [])
                 (page_starts (page_size c) (length (nkey nd))))\<rparr>)
      })"

definition record_all_cleared_event :: "radix_cache \<Rightarrow> radix_cache" where
  "record_all_cleared_event c =
     (if enable_kv_cache_events c
      then c\<lparr>kv_event_queue := kv_event_queue c @ [AllBlocksCleared]\<rparr> else c)"

definition take_events :: "radix_cache \<Rightarrow> kv_cache_event list \<times> radix_cache" where
  "take_events c =
     (if \<not> enable_kv_cache_events c then ([], c)
      else (kv_event_queue c, c\<lparr>kv_event_queue := []\<rparr>))"

section \<open>RadixCache: construction\<close>

definition reset :: "radix_cache \<Rightarrow> radix_cache" where
  "reset c =
     (case create_node (\<lambda>nd. nd\<lparr>nkey := [], nvalue := [], host_value := Some [], lock_ref := 1\<rparr>) c of
        (root, c1) \<Rightarrow>
          record_all_cleared_event
            (c1\<lparr>root_node := root, evictable_sz := 0, protected_sz := 0\<rparr>))"

definition init_radix_cache ::
  "nat \<Rightarrow> bool \<Rightarrow> bool \<Rightarrow> nat \<Rightarrow> (nat \<Rightarrow> int) \<Rightarrow> (int list \<Rightarrow> int) \<Rightarrow> radix_cache" where
  "init_radix_cache ps dis events cnt clock hsh = reset
     \<lparr>page_size = ps, disable = dis, enable_kv_cache_events = events, kv_event_queue = [],
      root_node = 0, evictable_sz = 0, protected_sz = 0, nodes = Map.empty, counter = cnt,
      monotonic = clock, ticks = 0, py_hash = hsh\<rparr>"

section \<open>RadixCache: splitting, matching, inserting\<close>

definition split_node :: "int list \<Rightarrow> nat \<Rightarrow> nat \<Rightarrow> radix_cache \<Rightarrow> (nat \<times> radix_cache) option" where
  "split_node key child split_len c = do {
     c0 \<leftarrow> record_remove_event child c;
     cd \<leftarrow> nodes c0 child;
     ck \<leftarrow> get_child_key_fn (page_size c0) (drop split_len key);
     p \<leftarrow> parent cd;
     pn \<leftarrow> nodes c0 p;
     pk \<leftarrow> get_child_key_fn (page_size c0) key;
     let (new_node, c1) = create_node (\<lambda>nd. nd\<lparr>children := [(ck, child)], parent := Some p,
           lock_ref := lock_ref cd, nkey := take split_len (nkey cd),
           nvalue := take split_len (nvalue cd)\<rparr>) c0;
     let c2 = modify_node child (\<lambda>nd. nd\<lparr>parent := Some new_node, nkey := drop split_len (nkey nd),
           nvalue := drop split_len (nvalue nd)\<rparr>) c1;
     let c3 = modify_node p (\<lambda>nd. nd\<lparr>children := AList.update pk new_node (children nd)\<rparr>) c2;
     c4 \<leftarrow> record_store_event new_node c3;
     c5 \<leftarrow> record_store_event child c4;
     Some (new_node, c5)
   }"

partial_function (option) match_loop ::
  "nat \<Rightarrow> int list \<Rightarrow> int list \<Rightarrow> int list list \<Rightarrow> radix_cache \<Rightarrow> (int list list \<times> nat \<times> radix_cache) option" where
  \<comment> \<open>the \<open>while\<close> loop of \<open>_match_prefix_helper\<close>\<close>
  "match_loop node key child_key value c =
     (if length key > 0 then do {
        nd \<leftarrow> nodes c node;
        (case map_of (children nd) child_key of
           None \<Rightarrow> Some (value, node, c)
         | Some child \<Rightarrow> do {
             cd \<leftarrow> nodes (touch child c) child;
             (if key_match_fn (page_size c) (nkey cd) key < length (nkey cd) then do {
                (new_node, c2) \<leftarrow> split_node (nkey cd) child
                   (key_match_fn (page_size c) (nkey cd) key) (touch child c);
                nn \<leftarrow> nodes c2 new_node;
                Some (value @ [nvalue nn], new_node, c2)
              }
              else if length (drop (key_match_fn (page_size c) (nkey cd) key) key) > 0 then do {
                ck \<leftarrow> get_child_key_fn (page_size c) (drop (key_match_fn (page_size c) (nkey cd) key) key);
                match_loop child (drop (key_match_fn (page_size c) (nkey cd) key) key) ck
                  (value @ [nvalue cd]) (touch child c)
              }
              else match_loop child (drop (key_match_fn (page_size c) (nkey cd) key) key) child_key
                     (value @ [nvalue cd]) (touch child c))
           })
      }
      else Some (value, node, c))"

definition match_prefix_helper ::
  "nat \<Rightarrow> int list \<Rightarrow> radix_cache \<Rightarrow> (int list list \<times> nat \<times> radix_cache) option" where
  "match_prefix_helper node key c = do {
     child_key \<leftarrow> get_child_key_fn (page_size c) key;
     match_loop node key child_key [] (touch node c)
   }"

definition match_prefix :: "int list \<Rightarrow> radix_cache \<Rightarrow> (match_result \<times> radix_cache) option" where
  "match_prefix key c =
     (if disable c \<or> length key = 0
      then Some (\<lparr>device_indices = [], last_device_node = root_node c,
                  last_host_node = root_node c, host_hit_length = 0\<rparr>, c)
      else do {
        let key' = (if page_size c \<noteq> 1
                    then take (length key div page_size c * page_size c) key else key);
        (value, last_node, c') \<leftarrow> match_prefix_helper (root_node c) key' c;
        Some (\<lparr>device_indices = concat value, last_device_node = last_node,
               last_host_node = last_node, host_hit_length = 0\<rparr>, c')
      })"

partial_function (option) insert_loop ::
  "nat \<Rightarrow> int list \<Rightarrow> int list \<Rightarrow> int list \<Rightarrow> nat \<Rightarrow> radix_cache \<Rightarrow> (nat \<times> radix_cache) option" where
  \<comment> \<open>the \<open>while\<close> loop of \<open>_insert_helper\<close> and what follows it\<close>
  "insert_loop node key value child_key total_prefix_length c =
     (if length key > 0 then do {
        nd \<leftarrow> nodes c node;
        (case map_of (children nd) child_key of
           Some child \<Rightarrow> do {
             cd \<leftarrow> nodes (touch child c) child;
             let prefix_len = key_match_fn (page_size c) (nkey cd) key;
             (node', c') \<leftarrow>
               (if prefix_len < length (nkey cd)
                then split_node (nkey cd) child prefix_len (touch child c)
                else Some (child, touch child c));
             (if length (drop prefix_len key) > 0 then do {
                ck \<leftarrow> get_child_key_fn (page_size c) (drop prefix_len key);
                insert_loop node' (drop prefix_len key) (drop prefix_len value) ck
                  (total_prefix_length + prefix_len) c'
              }
              else insert_loop node' (drop prefix_len key) (drop prefix_len value) child_key
                     (total_prefix_length + prefix_len) c')
           }
         | None \<Rightarrow> do {
             let (new_node, c1) = create_node (\<lambda>nd'. nd'\<lparr>parent := Some node, nkey := key,
                                                       nvalue := value\<rparr>) c;
             let c2 = modify_node node (\<lambda>nd'. nd'\<lparr>children :=
                        AList.update child_key new_node (children nd')\<rparr>) c1;
             let c3 = c2\<lparr>evictable_sz := evictable_sz c2 + int (length value)\<rparr>;
             c4 \<leftarrow> record_store_event new_node c3;
             Some (total_prefix_length, c4)
           })
      }
      else Some (total_prefix_length, c))"

definition insert_helper :: "nat \<Rightarrow> int list \<Rightarrow> int list \<Rightarrow> radix_cache \<Rightarrow> (nat \<times> radix_cache) option" where
  "insert_helper node key value c =
     (let c' = touch node c in
      if length key = 0 then Some (0, c')
      else do {
        child_key \<leftarrow> get_child_key_fn (page_size c) key;
        insert_loop node key value child_key 0 c'
      })"

definition insert_key :: "int list \<Rightarrow> int list option \<Rightarrow> radix_cache \<Rightarrow> (nat \<times> radix_cache) option" where
  \<comment> \<open>\<open>insert\<close>; the keys are the values when no value is given\<close>
  "insert_key key value c =
     (if disable c then Some (0, c)
      else insert_helper (root_node c) key (case value of None \<Rightarrow> key | Some v \<Rightarrow> v) c)"

section \<open>RadixCache: locks\<close>

partial_function (option) inc_lock_loop :: "nat \<Rightarrow> int \<Rightarrow> radix_cache \<Rightarrow> (int \<times> radix_cache) option" where
  "inc_lock_loop node delta c =
     (if node \<noteq> root_node c then do {
        nd \<leftarrow> nodes c node;
        p \<leftarrow> parent nd;
        let c1 = (if lock_ref nd = 0
                  then c\<lparr>evictable_sz := evictable_sz c - int (length (nvalue nd)),
                         protected_sz := protected_sz c + int (length (nvalue nd))\<rparr>
                  else c);
        inc_lock_loop p (if lock_ref nd = 0 then delta - int (length (nvalue nd)) else delta)
          (modify_node node (\<lambda>x. x\<lparr>lock_ref := lock_ref x + 1\<rparr>) c1)
      }
      else Some (delta, c))"

definition inc_lock_ref :: "nat \<Rightarrow> radix_cache \<Rightarrow> (int \<times> radix_cache) option" where
  "inc_lock_ref node c = (if disable c then Some (0, c) else inc_lock_loop node 0 c)"

partial_function (option) dec_lock_loop :: "nat \<Rightarrow> int \<Rightarrow> radix_cache \<Rightarrow> (int \<times> radix_cache) option" where
  "dec_lock_loop node delta c =
     (if node \<noteq> root_node c then do {
        nd \<leftarrow> nodes c node;
        p \<leftarrow> parent nd;
        let c1 = (if lock_ref nd = 1
                  then c\<lparr>evictable_sz := evictable_sz c + int (length (nvalue nd)),
                         protected_sz := protected_sz c - int (length (nvalue nd))\<rparr>
                  else c);
        dec_lock_loop p (if lock_ref nd = 1 then delta + int (length (nvalue nd)) else delta)
          (modify_node node (\<lambda>x. x\<lparr>lock_ref := lock_ref x - 1\<rparr>) c1)
      }
      else Some (delta, c))"

definition dec_lock_ref :: "nat \<Rightarrow> radix_cache \<Rightarrow> (int \<times> radix_cache) option" where
  "dec_lock_ref node c = (if disable c then Some (0, c) else dec_lock_loop node 0 c)"

definition evictable_size :: "radix_cache \<Rightarrow> int" where
  "evictable_size c = evictable_sz c"

definition protected_size :: "radix_cache \<Rightarrow> int" where
  "protected_size c = protected_sz c"

section \<open>RadixCache: traversals and eviction\<close>

partial_function (option) total_size_loop :: "nat list \<Rightarrow> nat \<Rightarrow> radix_cache \<Rightarrow> nat option" where
  "total_size_loop stack tot c =
     (if stack = [] then Some tot
      else do {
        nd \<leftarrow> nodes c (last stack);
        total_size_loop (butlast stack @ map snd (children nd)) (tot + length (nvalue nd)) c
      })"

definition total_size :: "radix_cache \<Rightarrow> nat option" where
  "total_size c = total_size_loop [root_node c] 0 c"

partial_function (option) all_values_loop :: "nat list \<Rightarrow> int list list \<Rightarrow> radix_cache \<Rightarrow> int list list option" where
  \<comment> \<open>the recursion of \<open>_dfs_helper\<close>: the nodes still to visit, in visiting order\<close>
  "all_values_loop pending values c =
     (case pending of [] \<Rightarrow> Some values
      | n # rest \<Rightarrow> do {
          nd \<leftarrow> nodes c n;
          all_values_loop (map snd (children nd) @ rest) (values @ [nvalue nd]) c
        })"

definition all_values_flatten :: "radix_cache \<Rightarrow> int list option" where
  \<comment> \<open>\<open>torch.cat\<close> raises on an empty list of tensors\<close>
  "all_values_flatten c = do {
     root \<leftarrow> nodes c (root_node c);
     values \<leftarrow> all_values_loop (map snd (children root)) [] c;
     if values = [] then None else Some (concat values)
   }"

partial_function (option) collect_leaves_loop :: "nat list \<Rightarrow> nat list \<Rightarrow> radix_cache \<Rightarrow> nat list option" where
  "collect_leaves_loop stack ret_list c =
     (if stack = [] then Some ret_list
      else do {
        nd \<leftarrow> nodes c (last stack);
        (if length (children nd) = 0
         then collect_leaves_loop (butlast stack) (ret_list @ [last stack]) c
         else collect_leaves_loop (butlast stack @ map snd (children nd)) ret_list c)
      })"

definition collect_leaves :: "radix_cache \<Rightarrow> nat list option" where
  "collect_leaves c = collect_leaves_loop [root_node c] [] c"

definition access_time :: "radix_cache \<Rightarrow> nat \<Rightarrow> int" where
  "access_time c n = (case nodes c n of None \<Rightarrow> 0 | Some nd \<Rightarrow> last_access_time nd)"

definition heappop_node :: "radix_cache \<Rightarrow> nat list \<Rightarrow> nat \<times> nat list" where
  \<comment> \<open>\<open>heapq.heappop\<close> under \<open>TreeNode.__lt__\<close>; the heap is a non-empty list\<close>
  "heappop_node c leaves =
     (let x = arg_min_list (access_time c) leaves in (x, remove1 x leaves))"

definition delete_leaf :: "nat \<Rightarrow> radix_cache \<Rightarrow> radix_cache option" where
  \<comment> \<open>when the node is not found, the loop variable is left at the last key\<close>
  "delete_leaf node c = do {
     nd \<leftarrow> nodes c node;
     p \<leftarrow> parent nd;
     pn \<leftarrow> nodes c p;
     k \<leftarrow> (case find (\<lambda>(k, v). v = node) (children pn) of
             Some (k, v) \<Rightarrow> Some k
           | None \<Rightarrow> if children pn = [] then None else Some (fst (last (children pn))));
     let c1 = modify_node p (\<lambda>x. x\<lparr>children := AList.delete k (children x)\<rparr>) c;
     Some (c1\<lparr>evictable_sz := evictable_sz c1 - int (length (nkey nd))\<rparr>)
   }"

partial_function (option) evict_loop ::
  "(int list \<Rightarrow> 'a \<Rightarrow> 'a res) \<Rightarrow> int \<Rightarrow> int \<Rightarrow> nat list \<Rightarrow> radix_cache \<Rightarrow> 'a \<Rightarrow> (radix_cache \<times> 'a) option" where
  "evict_loop free_m num_tokens num_evicted leaves c alloc =
     (if num_evicted < num_tokens \<and> length leaves > 0 then do {
        (if fst (heappop_node c leaves) = root_node c then Some (c, alloc)
         else do {
           x \<leftarrow> nodes c (fst (heappop_node c leaves));
           (if lock_ref x > 0
            then evict_loop free_m num_tokens num_evicted (snd (heappop_node c leaves)) c alloc
            else do {
              alloc' \<leftarrow> res_option (free_m (nvalue x) alloc);
              c1 \<leftarrow> delete_leaf (fst (heappop_node c leaves)) c;
              p \<leftarrow> parent x;
              pn \<leftarrow> nodes c1 p;
              c2 \<leftarrow> record_remove_event (fst (heappop_node c leaves)) c1;
              evict_loop free_m num_tokens (num_evicted + int (length (nvalue x)))
                (if length (children pn) = 0 then snd (heappop_node c leaves) @ [p]
                 else snd (heappop_node c leaves)) c2 alloc'
            })
         })
      }
      else Some (c, alloc))"

definition evict ::
  "(int list \<Rightarrow> 'a \<Rightarrow> 'a res) \<Rightarrow> int \<Rightarrow> radix_cache \<Rightarrow> 'a \<Rightarrow> (radix_cache \<times> 'a) option" where
  \<comment> \<open>\<open>free_m\<close> is the \<open>free\<close> method of the KV allocator, \<open>alloc\<close> its state\<close>
  "evict free_m num_tokens c alloc =
     (if disable c then Some (c, alloc)
      else do {
        leaves \<leftarrow> collect_leaves c;
        evict_loop free_m num_tokens 0 leaves c alloc
      })"

end
