(* ===== verification/Radix_Tree.thy ===== *)
theory Radix_Tree
  imports Radix_Cache
begin

text \<open>
  The shape of the radix tree: what \<open>key_match_fn\<close> computes, the well-formedness of a store of
  nodes as a tree whose edges carry non-empty page-aligned keys, and the two changes of shape
  (splitting an edge, adding a leaf) on it. The live nodes \<open>L\<close> and the tokens \<open>K\<close> and slots \<open>V\<close>
  on the path from the root to each of them are ghosts: \<open>path\<close> gives them from the store.
\<close>

section \<open>Definitions\<close>

inductive path :: "radix_cache \<Rightarrow> nat \<Rightarrow> int list \<Rightarrow> int list \<Rightarrow> bool" for c where
  path_root: "path c (root_node c) [] []"
| path_child: "path c p ks vs \<Longrightarrow> nodes c p = Some pn \<Longrightarrow> (k, n) \<in> set (children pn) \<Longrightarrow>
    nodes c n = Some nd \<Longrightarrow> path c n (ks @ nkey nd) (vs @ nvalue nd)"

definition cached :: "radix_cache \<Rightarrow> int list \<Rightarrow> int list \<Rightarrow> bool" where
  \<comment> \<open>the token prefix \<open>ks\<close> is in the cache, at the slots \<open>vs\<close>\<close>
  "cached c ks vs \<longleftrightarrow> (\<exists>n ks' vs' j. path c n ks' vs' \<and> page_size c dvd j \<and> j \<le> length ks'
     \<and> ks = take j ks' \<and> vs = take j vs')"

abbreviation nd :: "(nat \<Rightarrow> tree_node option) \<Rightarrow> nat \<Rightarrow> tree_node" where
  "nd N n \<equiv> the (N n)"

definition edge_ok :: "nat \<Rightarrow> (nat \<Rightarrow> tree_node option) \<Rightarrow> (nat \<Rightarrow> int list) \<Rightarrow> (nat \<Rightarrow> int list)
    \<Rightarrow> nat \<Rightarrow> nat \<Rightarrow> bool" where
  "edge_ok ps N K V p n \<longleftrightarrow>
     parent (nd N n) = Some p \<and> (take ps (nkey (nd N n)), n) \<in> set (children (nd N p))
     \<and> nkey (nd N n) \<noteq> [] \<and> ps dvd length (nkey (nd N n))
     \<and> length (nvalue (nd N n)) = length (nkey (nd N n))
     \<and> K n = K p @ nkey (nd N n) \<and> V n = V p @ nvalue (nd N n)"

definition tree_wf :: "nat \<Rightarrow> nat \<Rightarrow> (nat \<Rightarrow> tree_node option) \<Rightarrow> nat set \<Rightarrow> (nat \<Rightarrow> int list)
    \<Rightarrow> (nat \<Rightarrow> int list) \<Rightarrow> bool" where
  "tree_wf ps r N L K V \<longleftrightarrow>
     0 < ps \<and> finite L \<and> r \<in> L \<and> (\<forall>n\<in>L. N n \<noteq> None) \<and> K r = [] \<and> V r = []
     \<and> parent (nd N r) = None \<and> nkey (nd N r) = [] \<and> nvalue (nd N r) = []
     \<and> (\<forall>n\<in>L - {r}. \<exists>p\<in>L. edge_ok ps N K V p n)
     \<and> (\<forall>p\<in>L. distinct (map fst (children (nd N p)))
          \<and> (\<forall>(k, n)\<in>set (children (nd N p)). n \<in> L \<and> n \<noteq> r \<and> parent (nd N n) = Some p
                \<and> k = take ps (nkey (nd N n))))"

section \<open>Matching keys\<close>

lemma key_match_page_size1_spec:
  "key_match_page_size1 a b \<le> min (length a) (length b)
   \<and> take (key_match_page_size1 a b) a = take (key_match_page_size1 a b) b
   \<and> (\<forall>j\<le>min (length a) (length b). take j a = take j b \<longrightarrow> j \<le> key_match_page_size1 a b)"
proof (induction a b rule: key_match_page_size1.induct)
  case (1 k0 key0 k1 key1)
  show ?case
  proof (intro conjI allI impI)
    fix j assume j: "j \<le> min (length (k0 # key0)) (length (k1 # key1))"
      "take j (k0 # key0) = take j (k1 # key1)"
    show "j \<le> key_match_page_size1 (k0 # key0) (k1 # key1)"
      using j 1 by (cases j) auto
  qed (use 1 in auto)
qed auto

lemma take_add_eqI:
  "take i a = take i b \<Longrightarrow> slice i (i + k) a = slice i (i + k) b \<Longrightarrow> take (i + k) a = take (i + k) b"
  by (simp add: slice_def take_add drop_take)

lemma key_match_paged_from_spec:
  assumes "0 < ps" "ps dvd length a" "ps dvd length b" "ps dvd i" "i \<le> min (length a) (length b)"
    "take i a = take i b"
  shows "key_match_paged_from a b ps i \<le> min (length a) (length b)
   \<and> ps dvd key_match_paged_from a b ps i
   \<and> take (key_match_paged_from a b ps i) a = take (key_match_paged_from a b ps i) b
   \<and> (\<forall>j\<le>min (length a) (length b). ps dvd j \<longrightarrow> take j a = take j b \<longrightarrow> j \<le> key_match_paged_from a b ps i)"
  using assms
proof (induction a b ps i rule: key_match_paged_from.induct)
  case (1 a b ps i)
  let ?m = "min (length a) (length b)"
  show ?case
  proof (cases "i < ?m \<and> slice i (i + ps) a = slice i (i + ps) b")
    case True
    have "ps dvd ?m" using "1.prems" by (simp add: min_def)
    then have "i + ps \<le> ?m" using True "1.prems"
      by (metis dvd_diff_nat dvd_imp_le le_diff_conv2 add.commute less_imp_le zero_less_diff)
    then show ?thesis using 1 True take_add_eqI [of i a b ps]
      by (subst (1 2 3 4 5) key_match_paged_from.simps) simp
  next
    case False
    have stop: "key_match_paged_from a b ps i = i"
      using False by (subst key_match_paged_from.simps) auto
    have "j \<le> i" if j: "j \<le> ?m" "ps dvd j" "take j a = take j b" for j
    proof (rule ccontr)
      assume "\<not> j \<le> i"
      then have "i + ps \<le> j" using "1.prems" j
        by (metis dvd_diff_nat dvd_imp_le le_diff_conv2 add.commute nat_le_linear zero_less_diff not_le)
      then have "take (i + ps) a = take (i + ps) b" using j
        by (metis min.absorb1 take_take)
      then have "slice i (i + ps) a = slice i (i + ps) b"
        by (simp add: slice_def take_drop add.commute)
      then show False using False \<open>i + ps \<le> j\<close> j "1.prems" by auto
    qed
    then show ?thesis using stop "1.prems" by auto
  qed
qed

lemma key_match_fn_spec:
  assumes "0 < ps" "ps dvd length a" "ps dvd length b"
  shows "key_match_fn ps a b \<le> min (length a) (length b)"
    and "ps dvd key_match_fn ps a b"
    and "take (key_match_fn ps a b) a = take (key_match_fn ps a b) b"
    and "\<And>j. j \<le> min (length a) (length b) \<Longrightarrow> ps dvd j \<Longrightarrow> take j a = take j b
           \<Longrightarrow> j \<le> key_match_fn ps a b"
  using key_match_page_size1_spec [of a b] key_match_paged_from_spec [OF assms, of 0]
  by (auto simp: key_match_fn_def key_match_paged_def)

lemma get_child_key_fn_aligned:
  "0 < ps \<Longrightarrow> key \<noteq> [] \<Longrightarrow> get_child_key_fn ps key = Some (take ps key)"
  by (auto simp: get_child_key_fn_def take_Suc split: list.splits)

lemma key_match_fn_pos:
  assumes "0 < ps" "ps dvd length a" "ps dvd length b" "a \<noteq> []" "b \<noteq> []" "take ps a = take ps b"
  shows "0 < key_match_fn ps a b"
proof -
  have "ps \<le> min (length a) (length b)" using assms by (auto dest: dvd_imp_le)
  then show ?thesis using assms key_match_fn_spec(4) [OF assms(1-3), of ps] by simp
qed

section \<open>Dictionaries\<close>

lemma set_AList_update:
  "distinct (map fst al) \<Longrightarrow> set (AList.update k v al) = insert (k, v) {e \<in> set al. fst e \<noteq> k}"
  by (induction al) (auto simp: image_iff)

lemma set_AList_delete: "set (AList.delete k al) = {e \<in> set al. fst e \<noteq> k}"
  by (auto simp: AList.delete_eq)

section \<open>Well-formed trees\<close>

lemma tree_wfD:
  assumes "tree_wf ps r N L K V"
  shows "0 < ps" "finite L" "r \<in> L" "n \<in> L \<Longrightarrow> N n = Some (nd N n)" "K r = []" "V r = []"
    "nkey (nd N r) = []" "nvalue (nd N r) = []" "parent (nd N r) = None"
    "p \<in> L \<Longrightarrow> distinct (map fst (children (nd N p)))"
    "p \<in> L \<Longrightarrow> (k, n) \<in> set (children (nd N p)) \<Longrightarrow>
       n \<in> L \<and> n \<noteq> r \<and> parent (nd N n) = Some p \<and> k = take ps (nkey (nd N n))"
  using assms unfolding tree_wf_def by (auto; fastforce)+

lemma tree_wfI:
  assumes "0 < ps" "finite L" "r \<in> L" "\<And>n. n \<in> L \<Longrightarrow> N n \<noteq> None" "K r = []" "V r = []"
    "parent (nd N r) = None" "nkey (nd N r) = []" "nvalue (nd N r) = []"
    "\<And>n. n \<in> L \<Longrightarrow> n \<noteq> r \<Longrightarrow> \<exists>p\<in>L. edge_ok ps N K V p n"
    "\<And>p. p \<in> L \<Longrightarrow> distinct (map fst (children (nd N p)))"
    "\<And>p k n. p \<in> L \<Longrightarrow> (k, n) \<in> set (children (nd N p)) \<Longrightarrow>
       n \<in> L \<and> n \<noteq> r \<and> parent (nd N n) = Some p \<and> k = take ps (nkey (nd N n))"
  shows "tree_wf ps r N L K V"
  unfolding tree_wf_def using assms by blast

lemma tree_wf_parent:
  assumes "tree_wf ps r N L K V" "n \<in> L" "n \<noteq> r"
  obtains p where "p \<in> L" "edge_ok ps N K V p n"
  using assms unfolding tree_wf_def by blast

lemma tree_wf_child:
  assumes wf: "tree_wf ps r N L K V" and "p \<in> L" "(k, n) \<in> set (children (nd N p))"
  shows "n \<in> L" "n \<noteq> r" "k = take ps (nkey (nd N n))" "edge_ok ps N K V p n"
proof -
  show n: "n \<in> L" "n \<noteq> r" "k = take ps (nkey (nd N n))" using tree_wfD(11) [OF wf] assms by blast+
  obtain q where "q \<in> L" "edge_ok ps N K V q n" using tree_wf_parent [OF wf n(1,2)] by blast
  moreover have "parent (nd N n) = Some p" using tree_wfD(11) [OF wf] assms by blast
  ultimately show "edge_ok ps N K V p n" by (simp add: edge_ok_def)
qed

lemma edge_ok_length:
  "edge_ok ps N K V p n \<Longrightarrow> length (K p) < length (K n)"
  by (auto simp: edge_ok_def)

lemma tree_wf_induct [consumes 2, case_names root child]:
  assumes wf: "tree_wf ps r N L K V" and n: "n \<in> L"
    and root: "P r"
    and step: "\<And>p n. p \<in> L \<Longrightarrow> n \<in> L \<Longrightarrow> n \<noteq> r \<Longrightarrow> edge_ok ps N K V p n \<Longrightarrow> P p \<Longrightarrow> P n"
  shows "P n"
  using n
proof (induction "length (K n)" arbitrary: n rule: less_induct)
  case less
  show ?case
  proof (cases "n = r")
    case False
    then obtain p where "p \<in> L" "edge_ok ps N K V p n" using tree_wf_parent [OF wf less.prems] by blast
    then show ?thesis using less step False edge_ok_length by blast
  qed (simp add: root)
qed

lemma tree_wf_lengths:
  assumes "tree_wf ps r N L K V" "n \<in> L"
  shows "length (V n) = length (K n) \<and> ps dvd length (K n)"
  using assms(1,2)
proof (induction n rule: tree_wf_induct)
  case root
  show ?case using tree_wfD(5,6) [OF assms(1)] by simp
qed (auto simp: edge_ok_def)

definition child_of :: "(nat \<Rightarrow> tree_node option) \<Rightarrow> nat \<Rightarrow> nat \<Rightarrow> bool" where
  "child_of N p n \<longleftrightarrow> n \<in> snd ` set (children (nd N p))"

lemma child_of_edge:
  "tree_wf ps r N L K V \<Longrightarrow> p \<in> L \<Longrightarrow> child_of N p n \<Longrightarrow> n \<in> L \<and> edge_ok ps N K V p n"
  using tree_wf_child by (fastforce simp: child_of_def)

lemma edge_child_of: "edge_ok ps N K V p n \<Longrightarrow> child_of N p n"
  by (force simp: edge_ok_def child_of_def)

lemma descendant_prefix:
  assumes "(child_of N)\<^sup>*\<^sup>* p x" "tree_wf ps r N L K V" "p \<in> L"
  shows "x \<in> L \<and> prefix (K p) (K x) \<and> prefix (V p) (V x)"
  using assms
proof (induction rule: rtranclp_induct)
  case (step y z)
  then show ?case using child_of_edge [of ps r N L K V y z]
    by (auto simp: edge_ok_def intro: prefix_order.trans [of _ "K y"] prefix_order.trans [of _ "V y"])
qed auto

lemma edge_ok_page:
  assumes "edge_ok ps N K V p y" "prefix (K y) k"
  shows "take ps (drop (length (K p)) k) = take ps (nkey (nd N y))"
  using assms by (auto simp: prefix_def edge_ok_def dest: dvd_imp_le)

lemma edge_ok_unique:
  assumes wf: "tree_wf ps r N L K V" and "p \<in> L" "edge_ok ps N K V p y" "edge_ok ps N K V p n"
    and k: "take ps (nkey (nd N y)) = take ps (nkey (nd N n))"
  shows "y = n"
proof -
  have "(take ps (nkey (nd N y)), y) \<in> set (children (nd N p))" using assms(3) by (simp add: edge_ok_def)
  moreover have "(take ps (nkey (nd N y)), n) \<in> set (children (nd N p))"
    unfolding k using assms(4) by (simp add: edge_ok_def)
  ultimately show ?thesis by (rule eq_key_imp_eq_value [OF tree_wfD(10) [OF wf assms(2)]])
qed

lemma root_descendant:
  assumes "tree_wf ps r N L K V" "x \<in> L"
  shows "(child_of N)\<^sup>*\<^sup>* r x"
  using assms
proof (induction rule: tree_wf_induct)
  case (child p n)
  show ?case using child.IH edge_child_of [OF child.hyps(4)] by (rule rtranclp.rtrancl_into_rtrancl)
qed simp

lemma prefix_descendant:
  assumes wf: "tree_wf ps r N L K V" and "n \<in> L" "x \<in> L" "prefix (K n) (K x)"
  shows "(child_of N)\<^sup>*\<^sup>* n x"
  using assms(1,2,4)
proof (induction n rule: tree_wf_induct)
  case root
  show ?case using root_descendant [OF wf assms(3)] .
next
  case (child p n)
  have K: "K n = K p @ nkey (nd N n)" "nkey (nd N n) \<noteq> []" "ps dvd length (nkey (nd N n))"
    using child.hyps by (auto simp: edge_ok_def)
  have "prefix (K p) (K x)" using child.prems K by (metis append_prefixD)
  then have "(child_of N)\<^sup>*\<^sup>* p x" by (rule child.IH)
  moreover have "p \<noteq> x" using child.prems K by (auto simp: prefix_def)
  ultimately obtain y where y: "child_of N p y" "(child_of N)\<^sup>*\<^sup>* y x"
    by (auto elim: converse_rtranclpE)
  have ye: "y \<in> L" "edge_ok ps N K V p y" using child_of_edge [OF wf child.hyps(1) y(1)] by simp_all
  have "prefix (K y) (K x)" using descendant_prefix [OF y(2) wf ye(1)] by simp
  then have "take ps (nkey (nd N y)) = take ps (nkey (nd N n))"
    using edge_ok_page [OF ye(2)] edge_ok_page [OF child.hyps(4) child.prems] by simp
  then have "y = n" by (rule edge_ok_unique [OF wf child.hyps(1) ye(2) child.hyps(4)])
  then show ?case using y by simp
qed

lemma child_towards:
  assumes wf: "tree_wf ps r N L K V" and L: "n \<in> L" "x \<in> L"
    and "prefix (K n) (K x)" "length (K n) < length (K x)"
  obtains y where "map_of (children (nd N n)) (take ps (drop (length (K n)) (K x))) = Some y"
    "y \<in> L" "edge_ok ps N K V n y" "prefix (K y) (K x)"
proof -
  have "(child_of N)\<^sup>*\<^sup>* n x" by (rule prefix_descendant [OF wf L assms(4)])
  moreover have "n \<noteq> x" using assms(5) by auto
  ultimately obtain y where y: "child_of N n y" "(child_of N)\<^sup>*\<^sup>* y x"
    by (auto elim: converse_rtranclpE)
  have ye: "y \<in> L" "edge_ok ps N K V n y" using child_of_edge [OF wf L(1) y(1)] by simp_all
  have p: "prefix (K y) (K x)" using descendant_prefix [OF y(2) wf ye(1)] by simp
  have "take ps (drop (length (K n)) (K x)) = take ps (nkey (nd N y))"
    using edge_ok_page [OF ye(2) p] .
  then show ?thesis using that [OF _ ye p] ye(2) tree_wfD(10) [OF wf L(1)]
    by (simp add: edge_ok_def)
qed

lemma path_iff:
  assumes wf: "tree_wf (page_size c) (root_node c) (nodes c) L K V"
  shows "path c n ks vs \<longleftrightarrow> n \<in> L \<and> ks = K n \<and> vs = V n"
proof
  show "path c n ks vs \<Longrightarrow> n \<in> L \<and> ks = K n \<and> vs = V n"
  proof (induction rule: path.induct)
    case path_root
    show ?case using tree_wfD [OF wf] by simp
  next
    case (path_child p ks vs pn k n nd)
    then show ?case using tree_wf_child [OF wf, of p k n] by (simp add: edge_ok_def)
  qed
next
  have "path c n (K n) (V n)" if "n \<in> L"
    using wf that
  proof (induction n rule: tree_wf_induct)
    case root
    show ?case using tree_wfD(5,6) [OF wf] path_root by simp
  next
    case (child p n)
    have "path c n (K p @ nkey (nd (nodes c) n)) (V p @ nvalue (nd (nodes c) n))"
      using child tree_wfD(4) [OF wf]
      by (intro path.path_child [of c p _ _ "nd (nodes c) p" "take (page_size c) (nkey (nd (nodes c) n))"])
        (auto simp: edge_ok_def)
    then show ?case using child.hyps by (simp add: edge_ok_def)
  qed
  then show "n \<in> L \<and> ks = K n \<and> vs = V n \<Longrightarrow> path c n ks vs" by simp
qed

lemma cached_iff:
  assumes wf: "tree_wf (page_size c) (root_node c) (nodes c) L K V"
  shows "cached c ks vs \<longleftrightarrow> (\<exists>n\<in>L. \<exists>j\<le>length (K n). page_size c dvd j \<and> ks = take j (K n) \<and> vs = take j (V n))"
  unfolding cached_def by (auto simp: path_iff [OF wf])

lemma tree_wf_cong:
  assumes wf: "tree_wf ps r N L K V"
    and eq: "\<And>n. n \<in> L \<Longrightarrow> N' n \<noteq> None \<and> children (nd N' n) = children (nd N n) \<and> parent (nd N' n) = parent (nd N n)
         \<and> nkey (nd N' n) = nkey (nd N n) \<and> nvalue (nd N' n) = nvalue (nd N n)"
  shows "tree_wf ps r N' L K V"
proof (rule tree_wfI)
  note D = tree_wfD [OF wf]
  show "\<exists>p\<in>L. edge_ok ps N' K V p n" if n: "n \<in> L" "n \<noteq> r" for n
  proof -
    obtain p where "p \<in> L" "edge_ok ps N K V p n" using tree_wf_parent [OF wf n] by blast
    then have "edge_ok ps N' K V p n" using eq n(1) by (simp add: edge_ok_def)
    then show ?thesis using \<open>p \<in> L\<close> by blast
  qed
  show "n \<in> L \<and> n \<noteq> r \<and> parent (nd N' n) = Some p \<and> k = take ps (nkey (nd N' n))"
    if "p \<in> L" "(k, n) \<in> set (children (nd N' p))" for p k n
    using D(11) [of p k n] eq that by simp
qed (use eq tree_wfD(1-10) [OF wf] in simp_all)

section \<open>Splitting an edge and adding a leaf\<close>

definition split_store ::
  "nat \<Rightarrow> int \<Rightarrow> nat \<Rightarrow> nat \<Rightarrow> nat \<Rightarrow> nat \<Rightarrow> (nat \<Rightarrow> tree_node option) \<Rightarrow> (nat \<Rightarrow> tree_node option)" where
  "split_store ps t w p x s N =
     N(w \<mapsto> (new_tree_node t)\<lparr>children := [(take ps (drop s (nkey (nd N x))), x)], parent := Some p,
              lock_ref := lock_ref (nd N x), nkey := take s (nkey (nd N x)), nvalue := take s (nvalue (nd N x))\<rparr>,
       x \<mapsto> (nd N x)\<lparr>parent := Some w, nkey := drop s (nkey (nd N x)), nvalue := drop s (nvalue (nd N x))\<rparr>,
       p \<mapsto> (nd N p)\<lparr>children := AList.update (take ps (nkey (nd N x))) w (children (nd N p))\<rparr>)"

definition leaf_store ::
  "nat \<Rightarrow> int \<Rightarrow> nat \<Rightarrow> nat \<Rightarrow> int list \<Rightarrow> int list \<Rightarrow> (nat \<Rightarrow> tree_node option) \<Rightarrow> (nat \<Rightarrow> tree_node option)" where
  "leaf_store ps t w p key vls N =
     N(w \<mapsto> (new_tree_node t)\<lparr>parent := Some p, nkey := key, nvalue := vls\<rparr>,
       p \<mapsto> (nd N p)\<lparr>children := AList.update (take ps key) w (children (nd N p))\<rparr>)"

lemma leaf_store_nodes:
  assumes "p \<in> L" "w \<notin> L"
  shows "nd (leaf_store ps t w p key vls N) p
      = (nd N p)\<lparr>children := AList.update (take ps key) w (children (nd N p))\<rparr>"
    and "nd (leaf_store ps t w p key vls N) w
      = (new_tree_node t)\<lparr>parent := Some p, nkey := key, nvalue := vls\<rparr>"
    and "n \<noteq> w \<Longrightarrow> n \<noteq> p \<Longrightarrow> leaf_store ps t w p key vls N n = N n"
    and "n \<in> L \<Longrightarrow> nkey (nd (leaf_store ps t w p key vls N) n) = nkey (nd N n)
       \<and> parent (nd (leaf_store ps t w p key vls N) n) = parent (nd N n)
       \<and> nvalue (nd (leaf_store ps t w p key vls N) n) = nvalue (nd N n)
       \<and> lock_ref (nd (leaf_store ps t w p key vls N) n) = lock_ref (nd N n)"
  using assms by (auto simp: leaf_store_def)

lemma leaf_store_wf:
  assumes wf: "tree_wf ps r N L K V" and p: "p \<in> L" and w: "w \<notin> L"
    and new: "take ps key \<notin> fst ` set (children (nd N p))"
    and key: "key \<noteq> []" "ps dvd length key" "length vls = length key"
  shows "tree_wf ps r (leaf_store ps t w p key vls N) (insert w L)
           (K(w := K p @ key)) (V(w := V p @ vls))"
    (is "tree_wf ps r ?N ?L ?K ?V")
proof (rule tree_wfI)
  note D = tree_wfD [OF wf] and S = leaf_store_nodes [OF p w, where ps = ps and t = t and key = key and vls = vls and N = N]
  have rw: "r \<noteq> w" using D(3) w by blast
  have setp: "set (children (nd ?N p)) = insert (take ps key, w) (set (children (nd N p)))"
    using new D(10) [OF p] by (force simp: S(1) set_AList_update)
  have chw: "children (nd ?N w) = []" by (simp add: S(2) new_tree_node_def)
  have cho: "children (nd ?N q) = children (nd N q)" if "q \<noteq> p" "q \<noteq> w" for q
    using that by (simp add: S(3))
  show "\<exists>q\<in>?L. edge_ok ps ?N ?K ?V q n" if n: "n \<in> ?L" "n \<noteq> r" for n
  proof (cases "n = w")
    case True
    have "edge_ok ps ?N ?K ?V p w"
      using key setp p w unfolding edge_ok_def by (auto simp: S(2))
    then show ?thesis using p True by blast
  next
    case False
    then obtain q where q: "q \<in> L" "edge_ok ps N K V q n" using tree_wf_parent [OF wf] n by blast
    have "edge_ok ps ?N ?K ?V q n"
      using n False w setp S(4) [of n] q cho [of q] unfolding edge_ok_def by (cases "q = p") auto
    then show ?thesis using q by blast
  qed
  show "distinct (map fst (children (nd ?N q)))" if q: "q \<in> ?L" for q
    using D(10) [of q] q cho [of q] chw by (cases "q = p"; cases "q = w") (auto simp: S(1) distinct_update)
  show "n \<in> ?L \<and> n \<noteq> r \<and> parent (nd ?N n) = Some q \<and> k = take ps (nkey (nd ?N n))"
    if q: "q \<in> ?L" and kn: "(k, n) \<in> set (children (nd ?N q))" for q k n
  proof (cases "n = w")
    case True
    have "(k, w) \<notin> set (children (nd N q))" if "q \<in> L" using D(11) [OF that] w by blast
    then have "q = p \<and> k = take ps key"
      using kn True q chw cho [of q] setp by (cases "q = p"; cases "q = w") auto
    then show ?thesis using True rw by (simp add: S(2))
  next
    case False
    then have "q \<in> L \<and> (k, n) \<in> set (children (nd N q))"
      using kn q chw cho [of q] setp p by (cases "q = p"; cases "q = w") auto
    then show ?thesis using D(11) S(4) by auto
  qed
  show "?N n \<noteq> None" if "n \<in> ?L" for n using D(4) [of n] that by (auto simp: leaf_store_def)
  show "?K r = []" "?V r = []" using D(5,6) rw by simp_all
  show "parent (nd ?N r) = None" "nkey (nd ?N r) = []" "nvalue (nd ?N r) = []"
    using D(7-9) S(4) [OF D(3)] by simp_all
qed (use tree_wfD(1-3) [OF wf] in auto)

lemma split_store_nodes:
  assumes "p \<noteq> x" "p \<noteq> w" "x \<noteq> w"
  shows "nd (split_store ps t w p x s N) w = (new_tree_node t)\<lparr>children := [(take ps (drop s (nkey (nd N x))), x)],
      parent := Some p, lock_ref := lock_ref (nd N x), nkey := take s (nkey (nd N x)), nvalue := take s (nvalue (nd N x))\<rparr>"
    and "nd (split_store ps t w p x s N) x
      = (nd N x)\<lparr>parent := Some w, nkey := drop s (nkey (nd N x)), nvalue := drop s (nvalue (nd N x))\<rparr>"
    and "nd (split_store ps t w p x s N) p
      = (nd N p)\<lparr>children := AList.update (take ps (nkey (nd N x))) w (children (nd N p))\<rparr>"
    and "n \<noteq> w \<Longrightarrow> n \<noteq> x \<Longrightarrow> n \<noteq> p \<Longrightarrow> split_store ps t w p x s N n = N n"
    and "n \<noteq> w \<Longrightarrow> n \<noteq> x \<Longrightarrow> nkey (nd (split_store ps t w p x s N) n) = nkey (nd N n)
       \<and> parent (nd (split_store ps t w p x s N) n) = parent (nd N n)
       \<and> nvalue (nd (split_store ps t w p x s N) n) = nvalue (nd N n)"
    and "n \<noteq> w \<Longrightarrow> lock_ref (nd (split_store ps t w p x s N) n) = lock_ref (nd N n)"
    and "n \<noteq> w \<Longrightarrow> n \<noteq> p \<Longrightarrow> children (nd (split_store ps t w p x s N) n) = children (nd N n)"
  using assms by (auto simp: split_store_def)

lemma split_children:
  assumes wf: "tree_wf ps r N L K V" and p: "p \<in> L" and e: "edge_ok ps N K V p x"
    and "p \<noteq> x" "p \<noteq> w" "x \<noteq> w"
  shows "set (children (nd (split_store ps t w p x s N) p))
    = insert (take ps (nkey (nd N x)), w) {e \<in> set (children (nd N p)). snd e \<noteq> x}"
proof -
  have *: "fst e \<noteq> take ps (nkey (nd N x)) \<longleftrightarrow> snd e \<noteq> x" if "e \<in> set (children (nd N p))" for e
  proof -
    obtain k n where e': "e = (k, n)" by fastforce
    have "edge_ok ps N K V p n" "k = take ps (nkey (nd N n))" 
      using tree_wf_child(3,4) [OF wf p, of k n] that e' by simp_all
    moreover from this have "take ps (nkey (nd N x)) = k \<Longrightarrow> x = n"
      by (intro edge_ok_unique [OF wf p e]) simp_all
    ultimately show ?thesis unfolding e' fst_conv snd_conv by metis
  qed
  have "set (children (nd (split_store ps t w p x s N) p))
    = insert (take ps (nkey (nd N x)), w) {e \<in> set (children (nd N p)). fst e \<noteq> take ps (nkey (nd N x))}"
    using set_AList_update [OF tree_wfD(10) [OF wf p]] by (simp add: split_store_nodes(3) [OF assms(4-6)])
  also have "{e \<in> set (children (nd N p)). fst e \<noteq> take ps (nkey (nd N x))} = {e \<in> set (children (nd N p)). snd e \<noteq> x}"
    using * by (intro Collect_cong) blast
  finally show ?thesis .
qed

lemma split_edges:
  assumes wf: "tree_wf ps r N L K V" and L: "p \<in> L" "x \<in> L" "w \<notin> L" and e: "edge_ok ps N K V p x"
    and s: "0 < s" "s < length (nkey (nd N x))" "ps dvd s"
    and n: "n \<in> insert w L" "n \<noteq> r"
  shows "\<exists>q\<in>insert w L. edge_ok ps (split_store ps t w p x s N) (K(w := K p @ take s (nkey (nd N x))))
           (V(w := V p @ take s (nvalue (nd N x)))) q n"
    (is "\<exists>q\<in>?L. edge_ok ps ?N ?K ?V q n")
proof -
  have d: "p \<noteq> x" "p \<noteq> w" "x \<noteq> w" using L e edge_ok_length [OF e] by auto
  note S = split_store_nodes [OF d, where ps = ps and t = t and s = s and N = N]
    and C = split_children [OF wf L(1) e d, where t = t and s = s]
  have ps: "ps \<le> s" using s by (simp add: dvd_imp_le)
  show ?thesis
  proof (cases "n = w \<or> n = x")
    case True
    have "edge_ok ps ?N ?K ?V p w"
      using e s ps d C unfolding edge_ok_def by (auto simp: S(1) min_def)
    moreover have "edge_ok ps ?N ?K ?V w x"
      using e s d unfolding edge_ok_def by (auto simp: S(1,2))
    ultimately show ?thesis using True L(1) by blast
  next
    case False
    then obtain q where q: "q \<in> L" "edge_ok ps N K V q n" using tree_wf_parent [OF wf] n by blast
    have "edge_ok ps ?N ?K ?V q n"
      using q n False L C S(5) [of n] S(7) [of q] unfolding edge_ok_def by (cases "q = p") auto
    then show ?thesis using q by blast
  qed
qed

lemma split_store_wf:
  assumes wf: "tree_wf ps r N L K V" and L: "p \<in> L" "x \<in> L" "w \<notin> L" and e: "edge_ok ps N K V p x"
    and s: "0 < s" "s < length (nkey (nd N x))" "ps dvd s"
  shows "tree_wf ps r (split_store ps t w p x s N) (insert w L) (K(w := K p @ take s (nkey (nd N x))))
           (V(w := V p @ take s (nvalue (nd N x))))"
    (is "tree_wf ps r ?N ?L ?K ?V")
proof (rule tree_wfI)
  note D = tree_wfD [OF wf]
  have d: "p \<noteq> x" "p \<noteq> w" "x \<noteq> w" using L e edge_ok_length [OF e] by auto
  have r: "r \<noteq> w" "r \<noteq> x" using D(3) L(3) D(9) e by (auto simp: edge_ok_def)
  note S = split_store_nodes [OF d, where ps = ps and t = t and s = s and N = N]
    and C = split_children [OF wf L(1) e d, where t = t and s = s]
  have ps: "ps \<le> s" using s by (simp add: dvd_imp_le)
  show "\<exists>q\<in>?L. edge_ok ps ?N ?K ?V q n" if "n \<in> ?L" "n \<noteq> r" for n
    using split_edges [OF wf L e s that] .
  show "distinct (map fst (children (nd ?N q)))" if q: "q \<in> ?L" for q
    using D(10) [of q] q S(7) [of q] d by (cases "q = p"; cases "q = w") (auto simp: S(1,3) distinct_update)
  show "n \<in> ?L \<and> n \<noteq> r \<and> parent (nd ?N n) = Some q \<and> k = take ps (nkey (nd ?N n))"
    if q: "q \<in> ?L" and kn: "(k, n) \<in> set (children (nd ?N q))" for q k n
  proof (cases "q = w \<or> (q = p \<and> n = w)")
    case True
    have "(k, w) \<notin> set (children (nd N p))" using D(11) [OF L(1)] L(3) by blast
    then show ?thesis using True kn r d ps L(2) C by (auto simp: S(1,2) min_def)
  next
    case False
    then have qL: "q \<in> L" and qw: "q \<noteq> w" using q by auto
    have qn: "(k, n) \<in> set (children (nd N q)) \<and> (q = p \<longrightarrow> n \<noteq> x)"
    proof (cases "q = p")
      case True
      then show ?thesis using kn C False by auto
    qed (use kn S(7) qw in auto)
    then have "n \<noteq> x" using D(11) [OF qL, of k n] e by (auto simp: edge_ok_def)
    moreover have "n \<noteq> w" using D(11) [OF qL, of k n] qn L(3) by blast
    ultimately show ?thesis using D(11) [OF qL, of k n] qn S(5) [of n] by simp
  qed
  show "?N n \<noteq> None" if "n \<in> ?L" for n using D(4) [of n] that by (auto simp: split_store_def)
  show "?K r = []" "?V r = []" using D(5,6) r by simp_all
  show "parent (nd ?N r) = None" "nkey (nd ?N r) = []" "nvalue (nd ?N r) = []"
    using D(7-9) S(5) [of r] r by simp_all
qed (use tree_wfD(1-3) [OF wf] in auto)

end
