(* ===== verification/Radix_Ops.thy ===== *)
theory Radix_Ops
  imports Radix_Tree
begin

text \<open>
  The invariant of the radix cache (tree shape, lock counts, the two size counters) and what
  \<open>split_node\<close>, \<open>match_prefix\<close>, \<open>insert_key\<close> and the two lock operations do under it.
\<close>

section \<open>Invariant\<close>

definition core :: "radix_cache \<Rightarrow> nat \<times> bool \<times> nat \<times> int \<times> int \<times> (nat \<Rightarrow> tree_node option) \<times> nat" where
  \<comment> \<open>all of the cache but its events and the clock\<close>
  "core c = (page_size c, disable c, root_node c, evictable_sz c, protected_sz c, nodes c, counter c)"

definition child_locks :: "(nat \<Rightarrow> tree_node option) \<Rightarrow> nat set \<Rightarrow> nat \<Rightarrow> int" where
  "child_locks N L n = (\<Sum>m\<in>{m \<in> L. parent (nd N m) = Some n}. lock_ref (nd N m))"

definition lock_wf :: "nat \<Rightarrow> (nat \<Rightarrow> tree_node option) \<Rightarrow> nat set \<Rightarrow> bool" where
  \<comment> \<open>a node is locked at least as often as all its children together\<close>
  "lock_wf r N L \<longleftrightarrow> (\<forall>n\<in>L. 0 \<le> lock_ref (nd N n)) \<and> (\<forall>n\<in>L - {r}. child_locks N L n \<le> lock_ref (nd N n))"

definition size_where :: "(int \<Rightarrow> bool) \<Rightarrow> nat \<Rightarrow> (nat \<Rightarrow> tree_node option) \<Rightarrow> nat set \<Rightarrow> int" where
  "size_where P r N L = (\<Sum>n\<in>L - {r}. if P (lock_ref (nd N n)) then int (length (nvalue (nd N n))) else 0)"

definition radix_inv :: "radix_cache \<Rightarrow> nat set \<Rightarrow> (nat \<Rightarrow> int list) \<Rightarrow> (nat \<Rightarrow> int list) \<Rightarrow> bool" where
  "radix_inv c L K V \<longleftrightarrow>
     tree_wf (page_size c) (root_node c) (nodes c) L K V
     \<and> (\<forall>n\<ge>counter c. nodes c n = None)
     \<and> lock_wf (root_node c) (nodes c) L
     \<and> evictable_sz c = size_where (\<lambda>l. l = 0) (root_node c) (nodes c) L
     \<and> protected_sz c = size_where (\<lambda>l. l \<noteq> 0) (root_node c) (nodes c) L"

definition radix_ok :: "radix_cache \<Rightarrow> bool" where
  "radix_ok c \<longleftrightarrow> (\<exists>L K V. radix_inv c L K V)"

definition own_locks :: "radix_cache \<Rightarrow> nat set \<Rightarrow> nat \<Rightarrow> int" where
  \<comment> \<open>the locks taken on the node itself, not through a descendant\<close>
  "own_locks c L n = lock_ref (nd (nodes c) n) - child_locks (nodes c) L n"

definition grows :: "radix_cache \<Rightarrow> nat set \<Rightarrow> (nat \<Rightarrow> int list) \<Rightarrow> (nat \<Rightarrow> int list)
    \<Rightarrow> radix_cache \<Rightarrow> nat set \<Rightarrow> (nat \<Rightarrow> int list) \<Rightarrow> (nat \<Rightarrow> int list) \<Rightarrow> bool" where
  \<comment> \<open>no node is lost, the old ones keep their paths and their locks, and no lock is taken on a new one\<close>
  "grows c L K V c' L' K' V' \<longleftrightarrow>
     page_size c' = page_size c \<and> disable c' = disable c \<and> root_node c' = root_node c \<and> L \<subseteq> L'
     \<and> (\<forall>n\<in>L. K' n = K n \<and> V' n = V n \<and> own_locks c' L' n = own_locks c L n)
     \<and> (\<forall>n\<in>L' - L. own_locks c' L' n = 0)"

definition covered :: "nat \<Rightarrow> int list \<Rightarrow> int list \<Rightarrow> int list \<Rightarrow> int list \<Rightarrow> bool" where
  "covered ps ks vs ks' vs' \<longleftrightarrow>
     (\<exists>j\<le>length ks'. ps dvd j \<and> ks = take j ks' \<and> vs = take j vs')"

section \<open>Clock, events and changes of one node\<close>

lemma radix_inv_core: "core c' = core c \<Longrightarrow> radix_inv c' L K V = radix_inv c L K V"
  by (simp add: core_def radix_inv_def)

lemma core_fields:
  "core c' = core c \<Longrightarrow> page_size c' = page_size c \<and> disable c' = disable c \<and> root_node c' = root_node c
     \<and> evictable_sz c' = evictable_sz c \<and> protected_sz c' = protected_sz c \<and> nodes c' = nodes c
     \<and> counter c' = counter c"
  by (simp add: core_def)

lemma core_ticks [simp]: "core (c\<lparr>ticks := t\<rparr>) = core c"
  by (simp add: core_def)

lemma core_events [simp]: "core (c\<lparr>kv_event_queue := q\<rparr>) = core c"
  by (simp add: core_def)

lemma record_remove_event_core:
  assumes "nodes c n = Some x"
  obtains c' where "record_remove_event n c = Some c'" "core c' = core c" "monotonic c' = monotonic c" "ticks c' = ticks c"
  using assms by (cases "enable_kv_cache_events c") (auto simp: record_remove_event_def)

lemma record_store_event_core:
  assumes "nodes c n = Some x" "n \<noteq> root_node c"
  obtains c' where "record_store_event n c = Some c'" "core c' = core c"
  using assms by (cases "enable_kv_cache_events c") (auto simp: record_store_event_def)

lemma touch_fields [simp]:
  "page_size (touch n c) = page_size c" "disable (touch n c) = disable c" "root_node (touch n c) = root_node c"
  "counter (touch n c) = counter c" "evictable_sz (touch n c) = evictable_sz c"
  "protected_sz (touch n c) = protected_sz c"
  by (simp_all add: touch_def tick_def modify_node_def)

lemma touch_nodes:
  "nodes (touch n c) m = (if m = n then map_option (\<lambda>x. x\<lparr>last_access_time := monotonic c (ticks c)\<rparr>) (nodes c m)
     else nodes c m)"
  by (simp add: touch_def tick_def modify_node_def)

lemma touch_node [simp]:
  assumes "nodes c m \<noteq> None"
  shows "nodes (touch n c) m \<noteq> None" "children (nd (nodes (touch n c)) m) = children (nd (nodes c) m)"
    "parent (nd (nodes (touch n c)) m) = parent (nd (nodes c) m)" "nkey (nd (nodes (touch n c)) m) = nkey (nd (nodes c) m)"
    "nvalue (nd (nodes (touch n c)) m) = nvalue (nd (nodes c) m)" "lock_ref (nd (nodes (touch n c)) m) = lock_ref (nd (nodes c) m)"
  using assms by (auto simp: touch_nodes)

lemma lock_sums_cong:
  assumes "\<And>m. m \<in> L \<Longrightarrow> parent (nd N' m) = parent (nd N m) \<and> lock_ref (nd N' m) = lock_ref (nd N m)
     \<and> nvalue (nd N' m) = nvalue (nd N m)"
  shows "child_locks N' L n = child_locks N L n" "size_where P r N' L = size_where P r N L"
    "lock_wf r N' L = lock_wf r N L"
proof -
  show cl: "child_locks N' L n = child_locks N L n" for n
    unfolding child_locks_def using assms by (intro sum.cong) auto
  show "size_where P r N' L = size_where P r N L"
    unfolding size_where_def using assms by (intro sum.cong) auto
  show "lock_wf r N' L = lock_wf r N L" using assms cl by (simp add: lock_wf_def)
qed

lemma touch_inv:
  assumes inv: "radix_inv c L K V"
  shows "radix_inv (touch n c) L K V" and "\<And>m. m \<in> L \<Longrightarrow> own_locks (touch n c) L m = own_locks c L m"
proof -
  have wf: "tree_wf (page_size c) (root_node c) (nodes c) L K V" using inv by (simp add: radix_inv_def)
  have some: "nodes c m \<noteq> None" if "m \<in> L" for m using tree_wfD(4) [OF wf that] by auto
  have eq: "parent (nd (nodes (touch n c)) m) = parent (nd (nodes c) m) \<and> lock_ref (nd (nodes (touch n c)) m) = lock_ref (nd (nodes c) m)
     \<and> nvalue (nd (nodes (touch n c)) m) = nvalue (nd (nodes c) m)" if "m \<in> L" for m using some [OF that] by simp
  have "tree_wf (page_size c) (root_node c) (nodes (touch n c)) L K V"
    by (rule tree_wf_cong [OF wf]) (use some in simp)
  moreover have "nodes (touch n c) m = None" if "nodes c m = None" for m using that by (auto simp: touch_nodes)
  ultimately show "radix_inv (touch n c) L K V"
    using inv lock_sums_cong [OF eq, where L = L] by (simp add: radix_inv_def)
  show "own_locks (touch n c) L m = own_locks c L m" if "m \<in> L" for m
    using lock_sums_cong(1) [OF eq, where L = L] eq [OF that] by (simp add: own_locks_def)
qed

section \<open>Splitting a node\<close>

lemma radix_invD:
  assumes "radix_inv c L K V"
  shows "tree_wf (page_size c) (root_node c) (nodes c) L K V" "n \<ge> counter c \<Longrightarrow> nodes c n = None"
    "lock_wf (root_node c) (nodes c) L" "evictable_sz c = size_where (\<lambda>l. l = 0) (root_node c) (nodes c) L"
    "protected_sz c = size_where (\<lambda>l. l \<noteq> 0) (root_node c) (nodes c) L" "counter c \<notin> L" "0 < page_size c"
proof -
  show wf: "tree_wf (page_size c) (root_node c) (nodes c) L K V" using assms by (simp add: radix_inv_def)
  show "counter c \<notin> L" using assms tree_wfD(4) [OF wf] by (fastforce simp: radix_inv_def)
  show "0 < page_size c" using tree_wfD(1) [OF wf] .
qed (use assms in \<open>auto simp: radix_inv_def\<close>)

lemma modify_node_fields [simp]:
  "page_size (modify_node n f c) = page_size c" "disable (modify_node n f c) = disable c"
  "root_node (modify_node n f c) = root_node c" "counter (modify_node n f c) = counter c"
  "evictable_sz (modify_node n f c) = evictable_sz c" "protected_sz (modify_node n f c) = protected_sz c"
  "nodes (modify_node n f c) = (nodes c)(n := map_option f (nodes c n))"
  by (simp_all add: modify_node_def)

lemma create_node_fields [simp]:
  "fst (create_node f c) = counter c"
  "page_size (snd (create_node f c)) = page_size c" "disable (snd (create_node f c)) = disable c"
  "root_node (snd (create_node f c)) = root_node c" "counter (snd (create_node f c)) = Suc (counter c)"
  "evictable_sz (snd (create_node f c)) = evictable_sz c" "protected_sz (snd (create_node f c)) = protected_sz c"
  "nodes (snd (create_node f c)) = (nodes c)(counter c \<mapsto> f (new_tree_node (monotonic c (ticks c))))"
  by (simp_all add: create_node_def tick_def)

lemma split_node_spec:
  assumes inv: "radix_inv c L K V" and x: "x \<in> L" and e: "edge_ok (page_size c) (nodes c) K V p x" and p: "p \<in> L"
    and s: "0 < s" "s < length (nkey (nd (nodes c) x))"
  obtains c' t where "split_node (nkey (nd (nodes c) x)) x s c = Some (counter c, c')"
    "core c' = core (c\<lparr>nodes := split_store (page_size c) t (counter c) p x s (nodes c), counter := counter c + 1\<rparr>)"
proof -
  note wf = radix_invD(1) [OF inv]
  let ?key = "nkey (nd (nodes c) x)" and ?w = "counter c" and ?ps = "page_size c"
  have w: "?w \<notin> L" using radix_invD(6) [OF inv] .
  have d: "p \<noteq> x" "p \<noteq> ?w" "x \<noteq> ?w" using w x p edge_ok_length [OF e] by auto
  obtain xd pd where nx: "nodes c x = Some xd" and np: "nodes c p = Some pd"
    using tree_wfD(4) [OF wf] x p by blast
  have par: "parent xd = Some p" using e nx by (simp add: edge_ok_def)
  have rx: "x \<noteq> root_node c" "?w \<noteq> root_node c" using tree_wfD(3,9) [OF wf] par w nx by auto
  obtain c0 where c0: "record_remove_event x c = Some c0" "core c0 = core c" "monotonic c0 = monotonic c" "ticks c0 = ticks c"
    using record_remove_event_core [OF nx] by blast
  have f0: "nodes c0 = nodes c" "page_size c0 = ?ps" "counter c0 = ?w" "root_node c0 = root_node c"
    using core_fields [OF c0(2)] by auto
  have ck: "get_child_key_fn ?ps (drop s ?key) = Some (take ?ps (drop s ?key))"
    "get_child_key_fn ?ps ?key = Some (take ?ps ?key)"
    using s radix_invD(7) [OF inv] by (auto intro!: get_child_key_fn_aligned)
  let ?t = "monotonic c (ticks c)"
  let ?f = "\<lambda>nd. nd\<lparr>children := [(take ?ps (drop s ?key), x)], parent := Some p,
           lock_ref := lock_ref (Radix_Tree.nd (nodes c) x), nkey := take s ?key,
           nvalue := take s (nvalue (Radix_Tree.nd (nodes c) x))\<rparr>"
  let ?g = "\<lambda>nd. nd\<lparr>parent := Some ?w, nkey := drop s (nkey nd), nvalue := drop s (nvalue nd)\<rparr>"
  let ?h = "\<lambda>nd. nd\<lparr>children := AList.update (take ?ps ?key) ?w (children nd)\<rparr>"
  define c1 where "c1 = snd (create_node ?f c0)"
  define c3 where "c3 = modify_node p ?h (modify_node x ?g c1)"
  have cn: "create_node ?f c0 = (?w, c1)" using create_node_fields(1) [of ?f c0] f0 by (simp add: c1_def prod_eq_iff)
  have n1: "nodes c1 = (nodes c)(?w \<mapsto> ?f (new_tree_node ?t))" by (simp add: c1_def f0 c0(3,4))
  have n3: "nodes c3 = split_store ?ps ?t ?w p x s (nodes c)"
    unfolding c3_def modify_node_fields n1 split_store_def using d nx np by (simp add: fun_upd_other)
  have core3: "core c3 = core (c\<lparr>nodes := split_store ?ps ?t ?w p x s (nodes c), counter := ?w + 1\<rparr>)"
    using core_fields [OF c0(2)] unfolding core_def n3 by (simp add: c3_def c1_def)
  have w3: "nodes c3 ?w \<noteq> None" "nodes c3 x \<noteq> None" unfolding n3 using d by (simp_all add: split_store_def)
  have r3: "root_node c3 = root_node c" using core_fields [OF core3] by simp
  obtain c4 where c4: "record_store_event ?w c3 = Some c4" "core c4 = core c3"
    using record_store_event_core [of c3 ?w] w3(1) r3 rx(2) by auto
  obtain c5 where c5: "record_store_event x c4 = Some c5" "core c5 = core c4"
    using record_store_event_core [of c4 x] core_fields [OF c4(2)] w3(2) r3 rx(1) by auto
  have "split_node ?key x s c = Some (?w, c5)"
    unfolding split_node_def c0(1) Option.bind.bind_lunit f0 nx par np Let_def
    using c4(1) c5(1) ck cn unfolding c3_def by (simp add: nx)
  then show ?thesis using that c5(2) c4(2) core3 by simp
qed

lemma split_child_locks:
  assumes L: "p \<in> L" "x \<in> L" "w \<notin> L" "finite L" and d: "p \<noteq> x" and par: "parent (nd N x) = Some p"
    and w: "\<forall>m\<in>L. parent (nd N m) \<noteq> Some w"
  shows "n \<noteq> w \<Longrightarrow> child_locks (split_store ps t w p x s N) (insert w L) n = child_locks N L n"
    and "child_locks (split_store ps t w p x s N) (insert w L) w = lock_ref (nd N x)"
proof -
  have d': "p \<noteq> x" "p \<noteq> w" "x \<noteq> w" using L d by auto
  note S = split_store_nodes [OF d', where ps = ps and t = t and s = s and N = N]
  let ?N = "split_store ps t w p x s N"
  have par': "parent (nd ?N m) = (if m = x then Some w else parent (nd N m))"
    and lk: "lock_ref (nd ?N m) = lock_ref (nd N m)" if "m \<in> L" for m
    using S(2) S(5,6) [of m] that L by auto
  have pw: "parent (nd ?N w) = Some p" "lock_ref (nd ?N w) = lock_ref (nd N x)" by (simp_all add: S(1))
  show "child_locks ?N (insert w L) n = child_locks N L n" if "n \<noteq> w"
  proof (cases "n = p")
    case True
    define A where "A = {m \<in> L - {x}. parent (nd N m) = Some n}"
    have A: "finite A" "w \<notin> A" "x \<notin> A" using L by (auto simp: A_def)
    have "{m \<in> insert w L. parent (nd ?N m) = Some n} = insert w A"
      using True d' pw by (auto simp: A_def par' split: if_splits)
    moreover have "{m \<in> L. parent (nd N m) = Some n} = insert x A" using True par L by (auto simp: A_def)
    moreover have "sum (\<lambda>m. lock_ref (nd ?N m)) A = sum (\<lambda>m. lock_ref (nd N m)) A"
      using lk by (intro sum.cong) (auto simp: A_def)
    ultimately show ?thesis using A pw(2) by (simp add: child_locks_def)
  next
    case False
    have "{m \<in> insert w L. parent (nd ?N m) = Some n} = {m \<in> L. parent (nd N m) = Some n}"
      using False that pw(1) par by (auto simp: par' split: if_splits)
    then show ?thesis unfolding child_locks_def using lk by (intro sum.cong) auto
  qed
  have "{m \<in> insert w L. parent (nd ?N m) = Some w} = {x}"
    using L d' pw(1) w by (auto simp: par' split: if_splits)
  then show "child_locks ?N (insert w L) w = lock_ref (nd N x)" using lk [OF L(2)] by (simp add: child_locks_def)
qed

lemma split_size_where:
  assumes L: "p \<in> L" "x \<in> L" "w \<notin> L" "finite L" and d: "p \<noteq> x" "x \<noteq> r" "r \<in> L"
    and s: "s \<le> length (nvalue (nd N x))"
  shows "size_where P r (split_store ps t w p x s N) (insert w L) = size_where P r N L"
proof -
  have d': "p \<noteq> x" "p \<noteq> w" "x \<noteq> w" "w \<noteq> r" using L d by auto
  note S = split_store_nodes [OF d'(1-3), where ps = ps and t = t and s = s and N = N]
  let ?N = "split_store ps t w p x s N"
  let ?f = "\<lambda>N n. if P (lock_ref (nd N n)) then int (length (nvalue (nd N n))) else 0"
  define R where "R = L - {r} - {x}"
  have R: "finite R" "x \<notin> R" "w \<notin> insert x R" using L d' by (auto simp: R_def)
  have "insert w L - {r} = insert w (insert x R)" "L - {r} = insert x R"
    using L d d' by (auto simp: R_def)
  then have "size_where P r ?N (insert w L) = ?f ?N w + (?f ?N x + sum (?f ?N) R)"
    "size_where P r N L = ?f N x + sum (?f N) R"
    using R by (simp_all only: size_where_def sum.insert finite_insert simp_thms)
  moreover have "sum (?f ?N) R = sum (?f N) R"
  proof (rule sum.cong)
    fix n assume "n \<in> R"
    then have "n \<noteq> x" "n \<noteq> w" using R by auto
    then show "?f ?N n = ?f N n" using S(5,6) [of n] by simp
  qed simp
  moreover have "?f ?N w + ?f ?N x = ?f N x" using S(1,2) d' s by auto
  ultimately show ?thesis by linarith
qed

lemma lock_wf_split:
  assumes wf: "tree_wf ps r N L K V" and lw: "lock_wf r N L" and L: "p \<in> L" "x \<in> L" "w \<notin> L"
    and e: "edge_ok ps N K V p x" and w: "\<forall>m\<in>L. parent (nd N m) \<noteq> Some w"
  shows "lock_wf r (split_store ps t w p x s N) (insert w L)"
proof -
  have d: "p \<noteq> x" "p \<noteq> w" "x \<noteq> w" and par: "parent (nd N x) = Some p"
    using L edge_ok_length [OF e] e by (auto simp: edge_ok_def)
  note S = split_store_nodes [OF d, where ps = ps and t = t and s = s and N = N]
    and C = split_child_locks [OF L tree_wfD(2) [OF wf] d(1) par w, where ps = ps and t = t and s = s]
  let ?N = "split_store ps t w p x s N"
  have lx: "0 \<le> lock_ref (nd N x)" using lw L by (simp add: lock_wf_def)
  have "0 \<le> lock_ref (nd ?N n) \<and> (n \<noteq> r \<longrightarrow> child_locks ?N (insert w L) n \<le> lock_ref (nd ?N n))" if n: "n \<in> insert w L" for n
  proof (cases "n = w")
    case True
    then show ?thesis using lx C(2) by (simp add: S(1))
  next
    case False
    then show ?thesis using n lw C(1) [OF False] S(6) [OF False] by (simp add: lock_wf_def)
  qed
  then show ?thesis by (simp add: lock_wf_def)
qed

lemma split_inv:
  assumes inv: "radix_inv c L K V" and L: "p \<in> L" "x \<in> L" and e: "edge_ok (page_size c) (nodes c) K V p x"
    and s: "0 < s" "s < length (nkey (nd (nodes c) x))" "page_size c dvd s"
    and c': "core c' = core (c\<lparr>nodes := split_store (page_size c) t (counter c) p x s (nodes c), counter := counter c + 1\<rparr>)"
  defines "K' \<equiv> K(counter c := K p @ take s (nkey (nd (nodes c) x)))"
    and "V' \<equiv> V(counter c := V p @ take s (nvalue (nd (nodes c) x)))"
  shows "radix_inv c' (insert (counter c) L) K' V'" "grows c L K V c' (insert (counter c) L) K' V'"
proof -
  let ?w = "counter c" and ?ps = "page_size c" and ?N = "split_store (page_size c) t (counter c) p x s (nodes c)"
  note wf = radix_invD(1) [OF inv] and w = radix_invD(6) [OF inv]
  have par: "parent (nd (nodes c) x) = Some p" and d: "p \<noteq> x" and lv: "s \<le> length (nvalue (nd (nodes c) x))"
    using e edge_ok_length [OF e] s by (auto simp: edge_ok_def)
  have rx: "x \<noteq> root_node c" using tree_wfD(9) [OF wf] par by auto
  have nw: "\<forall>m\<in>L. parent (nd (nodes c) m) \<noteq> Some ?w"
  proof
    fix m assume m: "m \<in> L"
    show "parent (nd (nodes c) m) \<noteq> Some ?w"
    proof (cases "m = root_node c")
      case False
      then obtain q where "q \<in> L" "edge_ok ?ps (nodes c) K V q m" using tree_wf_parent [OF wf m] by blast
      then show ?thesis using w by (auto simp: edge_ok_def)
    qed (use tree_wfD(9) [OF wf] in simp)
  qed
  have fin: "finite L" using tree_wfD(2) [OF wf] .
  have f: "page_size c' = ?ps" "disable c' = disable c" "root_node c' = root_node c" "nodes c' = ?N" "counter c' = Suc ?w"
    "evictable_sz c' = evictable_sz c" "protected_sz c' = protected_sz c"
    using core_fields [OF c'] by simp_all
  have dom: "?N n = None" if "n \<ge> Suc ?w" for n
  proof -
    have "nodes c n = None" using radix_invD(2) [OF inv] that by simp
    then have "n \<noteq> x" "n \<noteq> p" using tree_wfD(4) [OF wf] L by force+
    then show ?thesis using that \<open>nodes c n = None\<close> by (simp add: split_store_def)
  qed
  have C: "child_locks ?N (insert ?w L) n = child_locks (nodes c) L n" if "n \<noteq> ?w" for n
    using split_child_locks(1) [OF L w fin d par nw that] .
  note Sz = split_size_where [where N = "nodes c", OF L w fin d rx tree_wfD(3) [OF wf] lv]
  show "radix_inv c' (insert ?w L) K' V'"
    unfolding radix_inv_def f K'_def V'_def Sz
    using split_store_wf [OF wf L w e s] dom lock_wf_split [OF wf radix_invD(3) [OF inv] L w e nw] radix_invD(4,5) [OF inv]
    by blast
  have "own_locks c' (insert ?w L) n = own_locks c L n \<and> n \<noteq> ?w" if "n \<in> L" for n
  proof -
    have "n \<noteq> ?w" "p \<noteq> ?w" "x \<noteq> ?w" using that w L by auto
    then show ?thesis using split_store_nodes(6) [OF d, of ?w n] C unfolding own_locks_def f by simp
  qed
  moreover have "own_locks c' (insert ?w L) ?w = 0"
  proof -
    have "p \<noteq> ?w" "x \<noteq> ?w" using w L by auto
    then show ?thesis using split_store_nodes(1) [OF d, of ?w] split_child_locks(2) [OF L w fin d par nw]
      unfolding own_locks_def f by simp
  qed
  ultimately show "grows c L K V c' (insert ?w L) K' V'"
    unfolding grows_def f K'_def V'_def by auto
qed

section \<open>Matching a prefix\<close>

lemma grows_refl: "grows c L K V c L K V"
  by (simp add: grows_def)

lemma grows_trans:
  assumes "grows c L K V c1 L1 K1 V1" "grows c1 L1 K1 V1 c2 L2 K2 V2"
  shows "grows c L K V c2 L2 K2 V2"
proof -
  have "L \<subseteq> L1" "L1 \<subseteq> L2" using assms by (simp_all add: grows_def)
  moreover have "own_locks c2 L2 n = 0" if "n \<in> L2 - L" for n
    using assms that by (cases "n \<in> L1") (simp_all add: grows_def)
  moreover have "K2 n = K n \<and> V2 n = V n \<and> own_locks c2 L2 n = own_locks c L n" if "n \<in> L" for n
    using assms that \<open>L \<subseteq> L1\<close> by (simp add: grows_def subset_iff)
  ultimately show ?thesis using assms by (simp add: grows_def subset_trans)
qed

lemma grows_touch: "radix_inv c L K V \<Longrightarrow> grows c L K V (touch n c) L K V"
  using touch_inv(2) by (auto simp: grows_def)

lemma covered_self: "ps dvd length ks \<Longrightarrow> length vs = length ks \<Longrightarrow> covered ps ks vs ks vs"
  unfolding covered_def by (intro exI [of _ "length ks"]) simp

lemma covered_trans:
  assumes "covered ps a b c d" "covered ps c d e f"
  shows "covered ps a b e f"
proof -
  obtain i j where "i \<le> length c" "ps dvd i" "a = take i c" "b = take i d" "j \<le> length e" "c = take j e" "d = take j f"
    using assms unfolding covered_def by blast
  then show ?thesis unfolding covered_def by (intro exI [of _ i]) (auto simp: min.absorb1)
qed

lemma split_covered:
  assumes wf: "tree_wf ps r N L K V" and L: "p \<in> L" "x \<in> L" and e: "edge_ok ps N K V p x"
    and s: "s \<le> length (nkey (nd N x))" "ps dvd s"
  shows "covered ps (K p @ take s (nkey (nd N x))) (V p @ take s (nvalue (nd N x))) (K x) (V x)"
  using e s tree_wf_lengths [OF wf L(1)] unfolding covered_def edge_ok_def
  by (intro exI [of _ "length (K p) + s"]) auto

definition longest :: "nat \<Rightarrow> nat set \<Rightarrow> (nat \<Rightarrow> int list) \<Rightarrow> int list \<Rightarrow> nat \<Rightarrow> bool" where
  \<comment> \<open>no page-aligned prefix of the key longer than \<open>m\<close> is on the path of a node\<close>
  "longest ps L K full m \<longleftrightarrow> (\<forall>x\<in>L. \<forall>j. ps dvd j \<longrightarrow> j \<le> length (K x) \<longrightarrow> j \<le> length full \<longrightarrow>
      take j (K x) = take j full \<longrightarrow> j \<le> m)"

lemma dvd_gap: "(d::nat) dvd a \<Longrightarrow> d dvd b \<Longrightarrow> a < b \<Longrightarrow> a + d \<le> b"
  by (metis dvd_diff_nat dvd_imp_le le_diff_conv2 less_imp_le add.commute zero_less_diff)

lemma branch_child:
  assumes wf: "tree_wf ps r N L K V" and L: "n \<in> L" "x \<in> L"
    and j: "ps dvd j" "j \<le> length (K x)" "j \<le> length (K n @ key)" "take j (K x) = take j (K n @ key)"
      "length (K n) < j"
  obtains y where "map_of (children (nd N n)) (take ps key) = Some y" "y \<in> L" "edge_ok ps N K V n y" "prefix (K y) (K x)"
proof -
  have al: "ps dvd length (K n)" using tree_wf_lengths [OF wf L(1)] by simp
  have "K n = take (length (K n)) (take j (K x))" using j(4,5) by simp
  then have n: "K n = take (length (K n)) (K x)" using j(5) by (simp add: min_def)
  then have pre: "prefix (K n) (K x)" by (metis take_is_prefix)
  have lt: "length (K n) + ps \<le> j" using dvd_gap [OF al j(1,5)] .
  have "take ps (drop (length (K n)) (K x)) = drop (length (K n)) (take (length (K n) + ps) (take j (K x)))"
    using lt by (simp add: min_def drop_take)
  also have "\<dots> = take ps key" using lt j(4) by (simp add: drop_take min.absorb1)
  finally have pg: "take ps (drop (length (K n)) (K x)) = take ps key" .
  have "length (K n) < length (K x)" using j by simp
  from child_towards [OF wf L pre this] show ?thesis unfolding pg using that by blast
qed

lemma longest_no_child:
  assumes wf: "tree_wf ps r N L K V" and n: "n \<in> L"
    and no: "key = [] \<or> map_of (children (nd N n)) (take ps key) = None"
  shows "longest ps L K (K n @ key) (length (K n))"
  unfolding longest_def
proof (intro ballI allI impI)
  fix x j assume x: "x \<in> L" and j: "ps dvd j" "j \<le> length (K x)" "j \<le> length (K n @ key)" "take j (K x) = take j (K n @ key)"
  show "j \<le> length (K n)"
  proof (rule ccontr)
    assume "\<not> j \<le> length (K n)"
    then have lt: "length (K n) < j" by simp
    obtain y where "map_of (children (nd N n)) (take ps key) = Some y" using branch_child [OF wf n x j lt] by blast
    then show False using no j(3) lt by auto
  qed
qed

lemma longest_partial_child:
  assumes wf: "tree_wf ps r N L K V" and n: "n \<in> L" and y: "map_of (children (nd N n)) (take ps key) = Some y"
    and al: "ps dvd length key" and part: "key_match_fn ps (nkey (nd N y)) key < length (nkey (nd N y))"
  shows "longest ps L K (K n @ key) (length (K n) + key_match_fn ps (nkey (nd N y)) key)"
  unfolding longest_def
proof (intro ballI allI impI)
  let ?m = "key_match_fn ps (nkey (nd N y)) key"
  fix x j assume x: "x \<in> L" and j: "ps dvd j" "j \<le> length (K x)" "j \<le> length (K n @ key)" "take j (K x) = take j (K n @ key)"
  show "j \<le> length (K n) + ?m"
  proof (rule ccontr)
    assume gt: "\<not> j \<le> length (K n) + ?m"
    then have lt: "length (K n) < j" by simp
    obtain z where z: "map_of (children (nd N n)) (take ps key) = Some z" "edge_ok ps N K V n z" "prefix (K z) (K x)"
      using branch_child [OF wf n x j lt] by blast
    have e: "edge_ok ps N K V n y" and pre: "prefix (K y) (K x)" using z y by auto
    have ky: "K y = K n @ nkey (nd N y)" "ps dvd length (nkey (nd N y))" using e by (auto simp: edge_ok_def)
    have aln: "ps dvd length (K n)" using tree_wf_lengths [OF wf n] by simp
    define i where "i = min (j - length (K n)) (length (nkey (nd N y)))"
    have i: "ps dvd i" "i \<le> min (length (nkey (nd N y))) (length key)"
      using j(1,3) lt ky(2) aln by (auto simp: i_def min_def dvd_diff_nat)
    have "take (length (K n) + i) (K x) = take (length (K n) + i) (K y)"
      using pre ky(1) by (auto simp: prefix_def i_def)
    moreover have "take (length (K n) + i) (K x) = take (length (K n) + i) (K n @ key)"
    proof -
      have "length (K n) + i \<le> j" using lt by (simp add: i_def)
      then show ?thesis using j(4) by (metis min.absorb1 take_take)
    qed
    ultimately have "take i (nkey (nd N y)) = take i key" by (simp add: ky(1))
    then have "i \<le> ?m" using key_match_fn_spec(4) [OF tree_wfD(1) [OF wf] ky(2) al i(2,1)] by blast
    then show False using gt part by (simp add: i_def)
  qed
qed

definition all_covered :: "nat \<Rightarrow> nat set \<Rightarrow> (nat \<Rightarrow> int list) \<Rightarrow> (nat \<Rightarrow> int list)
    \<Rightarrow> nat set \<Rightarrow> (nat \<Rightarrow> int list) \<Rightarrow> (nat \<Rightarrow> int list) \<Rightarrow> bool" where
  "all_covered ps L K V L' K' V' \<longleftrightarrow> (\<forall>n\<in>L'. \<exists>x\<in>L. covered ps (K' n) (V' n) (K x) (V x))"

lemma all_covered_refl:
  assumes "tree_wf ps r N L K V"
  shows "all_covered ps L K V L K V"
  unfolding all_covered_def using tree_wf_lengths [OF assms] covered_self by blast

text \<open>One step down the tree: the child found under the first page of the key is entered.\<close>

lemma found_child:
  assumes inv: "radix_inv c L K V" and n: "n \<in> L" and y: "map_of (children (nd (nodes c) n)) (take (page_size c) key) = Some y"
    and key: "key \<noteq> []" "page_size c dvd length key"
  shows "y \<in> L" "edge_ok (page_size c) (nodes c) K V n y" "0 < key_match_fn (page_size c) (nkey (nd (nodes c) y)) key"
    "key_match_fn (page_size c) (nkey (nd (nodes c) y)) key \<le> length key"
    "page_size c dvd key_match_fn (page_size c) (nkey (nd (nodes c) y)) key"
    "take (key_match_fn (page_size c) (nkey (nd (nodes c) y)) key) (nkey (nd (nodes c) y))
       = take (key_match_fn (page_size c) (nkey (nd (nodes c) y)) key) key"
    "key_match_fn (page_size c) (nkey (nd (nodes c) y)) key \<le> length (nkey (nd (nodes c) y))"
proof -
  note wf = radix_invD(1) [OF inv]
  have mem: "(take (page_size c) key, y) \<in> set (children (nd (nodes c) n))" using y by (rule map_of_SomeD)
  show "y \<in> L" and e: "edge_ok (page_size c) (nodes c) K V n y" using tree_wf_child [OF wf n mem] by blast+
  have t: "take (page_size c) (nkey (nd (nodes c) y)) = take (page_size c) key" using tree_wf_child(3) [OF wf n mem] by simp
  have k: "0 < page_size c" "page_size c dvd length (nkey (nd (nodes c) y))" "page_size c dvd length key" "nkey (nd (nodes c) y) \<noteq> []"
    using radix_invD(7) [OF inv] e key by (auto simp: edge_ok_def)
  note sp = key_match_fn_spec [OF k(1-3)]
  show "0 < key_match_fn (page_size c) (nkey (nd (nodes c) y)) key" using key_match_fn_pos [OF k(1-4) key(1) t] .
  show "key_match_fn (page_size c) (nkey (nd (nodes c) y)) key \<le> length key"
    "page_size c dvd key_match_fn (page_size c) (nkey (nd (nodes c) y)) key"
    "take (key_match_fn (page_size c) (nkey (nd (nodes c) y)) key) (nkey (nd (nodes c) y))
       = take (key_match_fn (page_size c) (nkey (nd (nodes c) y)) key) key"
    "key_match_fn (page_size c) (nkey (nd (nodes c) y)) key \<le> length (nkey (nd (nodes c) y))"
    using sp(1-3) by simp_all
qed

definition match_post :: "radix_cache \<Rightarrow> nat set \<Rightarrow> (nat \<Rightarrow> int list) \<Rightarrow> (nat \<Rightarrow> int list) \<Rightarrow> int list
    \<Rightarrow> int list list \<Rightarrow> nat \<Rightarrow> radix_cache \<Rightarrow> bool" where
  "match_post c L K V full val' n' c' \<longleftrightarrow>
     (\<exists>L' K' V'. radix_inv c' L' K' V' \<and> grows c L K V c' L' K' V' \<and> all_covered (page_size c) L K V L' K' V'
        \<and> evictable_sz c' = evictable_sz c \<and> protected_sz c' = protected_sz c
        \<and> n' \<in> L' \<and> concat val' = V' n' \<and> prefix (K' n') full \<and> longest (page_size c) L K full (length (K' n')))"

lemma match_postI:
  assumes "radix_inv c' L' K' V'" "grows c L K V c' L' K' V'" "all_covered (page_size c) L K V L' K' V'"
    "evictable_sz c' = evictable_sz c" "protected_sz c' = protected_sz c" "n' \<in> L'" "concat val' = V' n'"
    "prefix (K' n') full" "longest (page_size c) L K full (length (K' n'))"
  shows "match_post c L K V full val' n' c'"
  unfolding match_post_def using assms by blast

lemma match_post_touch:
  assumes "radix_inv c L K V" "match_post (touch x c) L K V full val' n' c'"
  shows "match_post c L K V full val' n' c'"
  using assms grows_trans [OF grows_touch [OF assms(1)]] unfolding match_post_def touch_fields by blast

lemma match_split:
  assumes inv: "radix_inv c L K V" and n: "n \<in> L" and y: "map_of (children (nd (nodes c) n)) (take (page_size c) key) = Some y"
    and key: "key \<noteq> []" "page_size c dvd length key"
    and part: "key_match_fn (page_size c) (nkey (nd (nodes c) y)) key < length (nkey (nd (nodes c) y))"
    and val: "concat val = V n"
  obtains w c' wn where "split_node (nkey (nd (nodes c) y)) y (key_match_fn (page_size c) (nkey (nd (nodes c) y)) key) c = Some (w, c')"
    "nodes c' w = Some wn" "match_post c L K V (K n @ key) (val @ [nvalue wn]) w c'"
proof -
  let ?ps = "page_size c" and ?y = "nd (nodes c) y" and ?w = "counter c"
  let ?m = "key_match_fn ?ps (nkey ?y) key"
  note wf = radix_invD(1) [OF inv] and fc = found_child [OF inv n y key]
  obtain c' t where sp: "split_node (nkey ?y) y ?m c = Some (?w, c')"
    "core c' = core (c\<lparr>nodes := split_store ?ps t ?w n y ?m (nodes c), counter := counter c + 1\<rparr>)"
    using split_node_spec [OF inv fc(1,2) n fc(3) part] by blast
  let ?K = "K(?w := K n @ take ?m (nkey ?y))" and ?V = "V(?w := V n @ take ?m (nvalue ?y))"
  note si = split_inv [OF inv n fc(1,2,3) part fc(5) sp(2)]
  have w: "n \<noteq> y" "n \<noteq> ?w" "y \<noteq> ?w" using radix_invD(6) [OF inv] n fc(1) edge_ok_length [OF fc(2)] by auto
  have cov: "all_covered ?ps L K V (insert ?w L) ?K ?V"
    using all_covered_refl [OF wf] split_covered [OF wf n fc(1,2) fc(7,5)] fc(1) radix_invD(6) [OF inv]
    unfolding all_covered_def by auto
  have wn: "nodes c' ?w \<noteq> None" "nvalue (nd (nodes c') ?w) = take ?m (nvalue ?y)"
    using core_fields [OF sp(2)] split_store_nodes(1) [OF w] w by (auto simp: split_store_def)
  have "match_post c L K V (K n @ key) (val @ [nvalue (nd (nodes c') ?w)]) ?w c'"
  proof (rule match_postI [OF si cov])
    show "longest ?ps L K (K n @ key) (length (?K ?w))"
      using longest_partial_child [OF wf n y key(2) part] fc(7) by (simp add: min.absorb1)
    show "prefix (?K ?w) (K n @ key)" using fc(6) by (simp add: take_is_prefix)
    show "concat (val @ [nvalue (nd (nodes c') ?w)]) = ?V ?w" using val wn(2) by simp
  qed (use core_fields [OF sp(2)] in simp_all)
  then show ?thesis using that sp(1) wn(1) by fastforce
qed

lemma match_loop_spec:
  assumes "radix_inv c L K V" "n \<in> L" "page_size c dvd length key" "key \<noteq> [] \<Longrightarrow> ck = take (page_size c) key"
    "concat val = V n"
  shows "\<exists>val' n' c'. match_loop n key ck val c = Some (val', n', c') \<and> match_post c L K V (K n @ key) val' n' c'"
  using assms
proof (induction "length key" arbitrary: n key ck val c rule: less_induct)
  case less
  note inv = less.prems(1) and n = less.prems(2) and wf = radix_invD(1) [OF less.prems(1)]
  let ?ps = "page_size c"
  obtain nn where nn: "nodes c n = Some nn" using tree_wfD(4) [OF wf n] by blast
  have stop: "match_post c L K V (K n @ key) val n c"
    if "key = [] \<or> map_of (children (nd (nodes c) n)) (take ?ps key) = None"
    using longest_no_child [OF wf n that] n less.prems(5)
    by (intro match_postI [OF inv grows_refl all_covered_refl [OF wf]]) simp_all
  show ?case
  proof (cases "key = [] \<or> map_of (children nn) (take ?ps key) = None")
    case True
    then have "match_loop n key ck val c = Some (val, n, c)"
      using less.prems(4) nn by (subst match_loop.simps) auto
    then show ?thesis using stop True nn by auto
  next
    case False
    then obtain y where key: "key \<noteq> []" and y: "map_of (children nn) (take ?ps key) = Some y" by blast
    let ?c = "touch y c"
    have inv': "radix_inv ?c L K V" using touch_inv(1) [OF inv] .
    have y': "map_of (children (nd (nodes ?c) n)) (take (page_size ?c) key) = Some y"
      using y nn by simp
    note fc = found_child [OF inv' n y' key, unfolded touch_fields, OF less.prems(3)]
    obtain yn where yn: "nodes ?c y = Some yn" using tree_wfD(4) [OF radix_invD(1) [OF inv'] fc(1)] by blast
    let ?m = "key_match_fn ?ps (nkey yn) key"
    have unf: "match_loop n key ck val c =
        (if ?m < length (nkey yn) then Option.bind (split_node (nkey yn) y ?m ?c)
            (\<lambda>(w, c2). Option.bind (nodes c2 w) (\<lambda>wn. Some (val @ [nvalue wn], w, c2)))
         else if 0 < length (drop ?m key) then
           Option.bind (get_child_key_fn ?ps (drop ?m key)) (\<lambda>ck. match_loop y (drop ?m key) ck (val @ [nvalue yn]) ?c)
         else match_loop y (drop ?m key) ck (val @ [nvalue yn]) ?c)"
      using key less.prems(4) nn y yn by (subst match_loop.simps) (simp add: Let_def)
    show ?thesis
    proof (cases "?m < length (nkey yn)")
      case True
      obtain w c' wn where "split_node (nkey yn) y ?m ?c = Some (w, c')" "nodes c' w = Some wn"
        "match_post ?c L K V (K n @ key) (val @ [nvalue wn]) w c'"
        using match_split [OF inv' n y' key, unfolded touch_fields, OF less.prems(3), of val] True yn less.prems(5) by auto
      then show ?thesis using unf True match_post_touch [OF inv] by auto
    next
      case False
      then have m: "?m = length (nkey yn)" using fc(7) yn by simp
      have K: "K y @ drop ?m key = K n @ key" "V y = V n @ nvalue yn" "0 < ?m"
        using fc(2,3,6) yn m append_take_drop_id [of ?m key] by (auto simp: edge_ok_def)
      define ck' where "ck' = (if drop ?m key = [] then ck else take ?ps (drop ?m key))"
      have "length (drop ?m key) < length key" using key K(3) by simp
      then have "\<exists>val' n' c'. match_loop y (drop ?m key) ck' (val @ [nvalue yn]) ?c = Some (val', n', c')
          \<and> match_post ?c L K V (K y @ drop ?m key) val' n' c'"
        by (rule less.hyps) (use inv' fc(1,5) yn less.prems(3,5) K(2) in \<open>auto simp: ck'_def intro: dvd_diff_nat\<close>)
      moreover have "match_loop n key ck val c = match_loop y (drop ?m key) ck' (val @ [nvalue yn]) ?c"
        unfolding unf ck'_def using False get_child_key_fn_aligned [OF radix_invD(7) [OF inv], of "drop ?m key"] by auto
      ultimately show ?thesis using match_post_touch [OF inv] unfolding K(1) by metis
    qed
  qed
qed

section \<open>Adding a leaf\<close>

lemma tree_wf_parent_in:
  assumes wf: "tree_wf ps r N L K V" and "m \<in> L" "parent (nd N m) = Some p"
  shows "p \<in> L" "edge_ok ps N K V p m" "m \<noteq> r"
proof -
  show "m \<noteq> r" using tree_wfD(9) [OF wf] assms(3) by auto
  then obtain q where "q \<in> L" "edge_ok ps N K V q m" using tree_wf_parent [OF wf assms(2)] by blast
  then show "p \<in> L" "edge_ok ps N K V p m" using assms(3) by (auto simp: edge_ok_def)
qed

lemma leaf_locks:
  assumes wf: "tree_wf ps r N L K V" and p: "p \<in> L" and w: "w \<notin> L"
  shows "n \<noteq> w \<Longrightarrow> child_locks (leaf_store ps t w p key vls N) (insert w L) n = child_locks N L n"
    and "child_locks (leaf_store ps t w p key vls N) (insert w L) w = 0"
    and "size_where P r (leaf_store ps t w p key vls N) (insert w L)
       = size_where P r N L + (if P 0 then int (length vls) else 0)"
    and "lock_wf r N L \<Longrightarrow> lock_wf r (leaf_store ps t w p key vls N) (insert w L)"
proof -
  let ?N = "leaf_store ps t w p key vls N"
  note S = leaf_store_nodes [OF p w, where ps = ps and t = t and key = key and vls = vls and N = N]
  have fin: "finite L" using tree_wfD(2) [OF wf] .
  have rw: "r \<noteq> w" using tree_wfD(3) [OF wf] w by auto
  have nw: "parent (nd N m) \<noteq> Some w" if "m \<in> L" for m using tree_wf_parent_in(1) [OF wf that] w by blast
  have W: "lock_ref (nd ?N w) = 0" "parent (nd ?N w) = Some p" "nvalue (nd ?N w) = vls"
    by (simp_all add: S(2) new_tree_node_def)
  have old: "child_locks ?N L n = child_locks N L n" "size_where P r ?N L = size_where P r N L" for n
    using lock_sums_cong(1,2) [of L ?N N] S(4) by blast+
  show cl: "child_locks ?N (insert w L) n = child_locks N L n" if "n \<noteq> w" for n
  proof (cases "n = p")
    case True
    have "{m \<in> insert w L. parent (nd ?N m) = Some n} = insert w {m \<in> L. parent (nd ?N m) = Some n}"
      using W True by auto
    then show ?thesis using fin w W(1) old(1) [of n] by (simp add: child_locks_def)
  next
    case False
    then have "{m \<in> insert w L. parent (nd ?N m) = Some n} = {m \<in> L. parent (nd ?N m) = Some n}" using W by auto
    then show ?thesis using old(1) [of n] by (simp add: child_locks_def)
  qed
  have "{m \<in> insert w L. parent (nd ?N m) = Some w} = {}" using W p w nw S(4) by auto
  then show clw: "child_locks ?N (insert w L) w = 0" by (simp only: child_locks_def sum.empty)
  have "insert w L - {r} = insert w (L - {r})" using rw by auto
  then have "size_where P r ?N (insert w L) = (if P 0 then int (length vls) else 0) + size_where P r ?N L"
    using fin w W by (simp add: size_where_def)
  then show "size_where P r ?N (insert w L) = size_where P r N L + (if P 0 then int (length vls) else 0)"
    using old(2) by simp
  show "lock_wf r ?N (insert w L)" if lw: "lock_wf r N L"
  proof -
    have "0 \<le> lock_ref (nd ?N n) \<and> (n \<noteq> r \<longrightarrow> child_locks ?N (insert w L) n \<le> lock_ref (nd ?N n))" if "n \<in> insert w L" for n
      using that lw cl [of n] clw W(1) S(4) [of n] w by (cases "n = w") (auto simp: lock_wf_def)
    then show ?thesis by (simp add: lock_wf_def)
  qed
qed

lemma leaf_inv:
  assumes inv: "radix_inv c L K V" and p: "p \<in> L"
    and new: "take (page_size c) key \<notin> fst ` set (children (nd (nodes c) p))"
    and key: "key \<noteq> []" "page_size c dvd length key" "length vls = length key"
    and c': "core c' = core (c\<lparr>nodes := leaf_store (page_size c) t (counter c) p key vls (nodes c), counter := counter c + 1,
               evictable_sz := evictable_sz c + int (length vls)\<rparr>)"
  defines "K' \<equiv> K(counter c := K p @ key)" and "V' \<equiv> V(counter c := V p @ vls)"
  shows "radix_inv c' (insert (counter c) L) K' V'" "grows c L K V c' (insert (counter c) L) K' V'"
proof -
  let ?w = "counter c" and ?ps = "page_size c" and ?N = "leaf_store (page_size c) t (counter c) p key vls (nodes c)"
  note wf = radix_invD(1) [OF inv] and w = radix_invD(6) [OF inv]
  note LL = leaf_locks [OF wf p w, where key = key and vls = vls and t = t]
  have f: "page_size c' = ?ps" "disable c' = disable c" "root_node c' = root_node c" "nodes c' = ?N" "counter c' = Suc ?w"
    "evictable_sz c' = evictable_sz c + int (length vls)" "protected_sz c' = protected_sz c"
    using core_fields [OF c'] by simp_all
  have dom: "?N n = None" if "n \<ge> Suc ?w" for n
  proof -
    have "nodes c n = None" using radix_invD(2) [OF inv] that by simp
    then have "n \<noteq> p" using tree_wfD(4) [OF wf p] by force
    then show ?thesis using that \<open>nodes c n = None\<close> by (simp add: leaf_store_def)
  qed
  have "tree_wf ?ps (root_node c) ?N (insert ?w L) K' V'"
    unfolding K'_def V'_def by (rule leaf_store_wf [OF wf p w new key])
  then show "radix_inv c' (insert ?w L) K' V'"
    unfolding radix_inv_def f LL(3) using dom LL(4) [OF radix_invD(3) [OF inv]] radix_invD(4,5) [OF inv] by simp
  have "own_locks c' (insert ?w L) n = own_locks c L n \<and> n \<noteq> ?w" if "n \<in> L" for n
  proof -
    have "n \<noteq> ?w" using that w by auto
    then show ?thesis using leaf_store_nodes(4) [OF p w that] LL(1) unfolding own_locks_def f by simp
  qed
  moreover have "own_locks c' (insert ?w L) ?w = 0"
    using leaf_store_nodes(2) [OF p w] LL(2) unfolding own_locks_def f by (simp add: new_tree_node_def)
  ultimately show "grows c L K V c' (insert ?w L) K' V'" unfolding grows_def f K'_def V'_def by auto
qed

end
