(* ===== verification/Radix_Insert.thy ===== *)
theory Radix_Insert
  imports Radix_Ops
begin

text \<open>
  What \<open>insert_key\<close> does to the tree, and the contracts of \<open>match_prefix\<close> and \<open>insert_key\<close> over
  the token prefixes the cache holds (\<open>cached\<close>) and the nodes that requests refer to (\<open>path\<close>).
\<close>

definition insert_post :: "radix_cache \<Rightarrow> nat set \<Rightarrow> (nat \<Rightarrow> int list) \<Rightarrow> (nat \<Rightarrow> int list) \<Rightarrow> int list \<Rightarrow> int list
    \<Rightarrow> nat \<Rightarrow> radix_cache \<Rightarrow> nat set \<Rightarrow> (nat \<Rightarrow> int list) \<Rightarrow> (nat \<Rightarrow> int list) \<Rightarrow> nat \<Rightarrow> bool" where
  "insert_post c L K V full vals m c' L' K' V' w \<longleftrightarrow>
     radix_inv c' L' K' V' \<and> grows c L K V c' L' K' V' \<and> w \<in> L' \<and> K' w = full
     \<and> (\<forall>y\<in>L'. (\<exists>x\<in>L. covered (page_size c) (K' y) (V' y) (K x) (V x)) \<or> covered (page_size c) (K' y) (V' y) full (V' w))
     \<and> m \<le> length full \<and> page_size c dvd m \<and> longest (page_size c) L K full m
     \<and> (\<exists>x\<in>L. covered (page_size c) (take m full) (take m (V' w)) (K x) (V x))
     \<and> drop m (V' w) = drop m vals
     \<and> evictable_sz c' = evictable_sz c + int (length full - m) \<and> protected_sz c' = protected_sz c"

lemma insert_post_mono:
  assumes g: "grows c L K V c1 L1 K1 V1" and cov: "all_covered (page_size c) L K V L1 K1 V1"
    and sz: "evictable_sz c1 = evictable_sz c" "protected_sz c1 = protected_sz c"
    and post: "insert_post c1 L1 K1 V1 full vals m c' L' K' V' w"
  shows "insert_post c L K V full vals m c' L' K' V' w"
proof -
  have ps: "page_size c1 = page_size c" using g by (simp add: grows_def)
  have up: "\<exists>x\<in>L. covered (page_size c) ks vs (K x) (V x)"
    if "\<exists>x\<in>L1. covered (page_size c) ks vs (K1 x) (V1 x)" for ks vs
    using that cov covered_trans unfolding all_covered_def by meson
  have "longest (page_size c) L K full m"
    using post g unfolding insert_post_def longest_def grows_def ps by (metis subsetD)
  then show ?thesis
    using post up grows_trans [OF g] unfolding insert_post_def ps sz by blast
qed

lemma insert_post_vals:
  assumes "insert_post c L K V full vals m c' L' K' V' w" "drop k vals = drop k vals'" "k \<le> m"
  shows "insert_post c L K V full vals' m c' L' K' V' w"
proof -
  have "drop m vals = drop (m - k) (drop k vals)" "drop m vals' = drop (m - k) (drop k vals')"
    using assms(3) by simp_all
  then have "drop m vals = drop m vals'" using assms(2) by simp
  then show ?thesis using assms(1) by (simp add: insert_post_def)
qed

lemma insert_post_stop:
  assumes inv: "radix_inv c L K V" and n: "n \<in> L"
  shows "insert_post c L K V (K n) (V n) (length (K n)) c L K V n"
proof -
  note wf = radix_invD(1) [OF inv]
  note l = tree_wf_lengths [OF wf n]
  have "longest (page_size c) L K (K n) (length (K n))" by (simp add: longest_def)
  moreover have "\<forall>y\<in>L. \<exists>x\<in>L. covered (page_size c) (K y) (V y) (K x) (V x)"
    using all_covered_refl [OF wf] by (simp add: all_covered_def)
  ultimately show ?thesis
    unfolding insert_post_def using inv grows_refl n l by auto
qed

text \<open>The new leaf of the last step.\<close>

lemma insert_leaf:
  assumes inv: "radix_inv c L K V" and n: "n \<in> L"
    and none: "map_of (children (nd (nodes c) n)) (take (page_size c) key) = None"
    and key: "key \<noteq> []" "page_size c dvd length key" "length vls = length key"
    and c': "core c' = core (c\<lparr>nodes := leaf_store (page_size c) t (counter c) n key vls (nodes c), counter := counter c + 1,
               evictable_sz := evictable_sz c + int (length vls)\<rparr>)"
  shows "insert_post c L K V (K n @ key) (V n @ vls) (length (K n)) c' (insert (counter c) L)
     (K(counter c := K n @ key)) (V(counter c := V n @ vls)) (counter c)"
proof -
  note wf = radix_invD(1) [OF inv] and w = radix_invD(6) [OF inv]
  have new: "take (page_size c) key \<notin> fst ` set (children (nd (nodes c) n))" using none by (simp add: map_of_eq_None_iff)
  note li = leaf_inv [OF inv n new key c']
  have l: "length (V n) = length (K n)" "page_size c dvd length (K n)" using tree_wf_lengths [OF wf n] by auto
  have "longest (page_size c) L K (K n @ key) (length (K n))" using longest_no_child [OF wf n] none by blast
  moreover have "\<exists>x\<in>L. covered (page_size c) (K n) (V n) (K x) (V x)"
    using all_covered_refl [OF wf] n by (simp add: all_covered_def)
  moreover have "(\<exists>x\<in>L. covered (page_size c) ((K(counter c := K n @ key)) y) ((V(counter c := V n @ vls)) y) (K x) (V x))
      \<or> covered (page_size c) ((K(counter c := K n @ key)) y) ((V(counter c := V n @ vls)) y) (K n @ key) (V n @ vls)"
    if "y \<in> insert (counter c) L" for y
    using that all_covered_refl [OF wf] l key covered_self [of "page_size c" "K n @ key" "V n @ vls"]
    unfolding all_covered_def by (cases "y = counter c") auto
  ultimately show ?thesis unfolding insert_post_def using li l w core_fields [OF c'] key by auto
qed

text \<open>One iteration of the loop: the child is entered, after a split if the key leaves its edge.\<close>

lemma insert_step:
  assumes inv: "radix_inv c L K V" and n: "n \<in> L" and y: "map_of (children (nd (nodes c) n)) (take (page_size c) key) = Some y"
    and key: "key \<noteq> []" "page_size c dvd length key"
  defines "m \<equiv> key_match_fn (page_size c) (nkey (nd (nodes c) y)) key"
  obtains n' c1 L1 K1 V1 where
    "(if m < length (nkey (nd (nodes c) y)) then split_node (nkey (nd (nodes c) y)) y m c else Some (y, c)) = Some (n', c1)"
    "radix_inv c1 L1 K1 V1" "grows c L K V c1 L1 K1 V1" "all_covered (page_size c) L K V L1 K1 V1"
    "evictable_sz c1 = evictable_sz c" "protected_sz c1 = protected_sz c" "n' \<in> L1" "K1 n' = K n @ take m key"
proof -
  let ?ps = "page_size c" and ?y = "nd (nodes c) y" and ?w = "counter c"
  note wf = radix_invD(1) [OF inv] and fc = found_child [OF inv n y key, folded m_def]
  show ?thesis
  proof (cases "m < length (nkey ?y)")
    case True
    obtain c1 t where sp: "split_node (nkey ?y) y m c = Some (?w, c1)"
      "core c1 = core (c\<lparr>nodes := split_store ?ps t ?w n y m (nodes c), counter := counter c + 1\<rparr>)"
      using split_node_spec [OF inv fc(1,2) n fc(3) True] by blast
    note si = split_inv [OF inv n fc(1,2,3) True fc(5) sp(2)]
    have "all_covered ?ps L K V (insert ?w L) (K(?w := K n @ take m (nkey ?y))) (V(?w := V n @ take m (nvalue ?y)))"
      using all_covered_refl [OF wf] split_covered [OF wf n fc(1,2) fc(7,5)] fc(1) radix_invD(6) [OF inv]
      unfolding all_covered_def by auto
    from that [OF _ si this] show ?thesis using True sp(1) core_fields [OF sp(2)] fc(6) by simp
  next
    case False
    have "K y = K n @ take m key" using fc(2,6,7) False by (simp add: edge_ok_def)
    with that [OF _ inv grows_refl all_covered_refl [OF wf] refl refl fc(1)] False show ?thesis by simp
  qed
qed

lemma insert_loop_leaf:
  assumes inv: "radix_inv c L K V" and n: "n \<in> L" and nn: "nodes c n = Some nn"
    and key: "key \<noteq> []" "map_of (children nn) (take (page_size c) key) = None" "page_size c dvd length key"
    and ck: "key \<noteq> [] \<Longrightarrow> ck = take (page_size c) key" and vls: "length vls = length key"
  shows "\<exists>m c' L' K' V' w. insert_loop n key vls ck tot c = Some (tot + (m - length (K n)), c')
     \<and> length (K n) \<le> m \<and> insert_post c L K V (K n @ key) (V n @ vls) m c' L' K' V' w"
proof -
  let ?w = "counter c" and ?ps = "page_size c" and ?t = "monotonic c (ticks c)"
  note wf = radix_invD(1) [OF inv]
  have d: "n \<noteq> ?w" using radix_invD(6) [OF inv] n by auto
  have rw: "?w \<noteq> root_node c" using radix_invD(6) [OF inv] tree_wfD(3) [OF wf] by auto
  let ?f = "\<lambda>nd'. nd'\<lparr>parent := Some n, nkey := key, nvalue := vls\<rparr>"
  define c1 where "c1 = snd (create_node ?f c)"
  define c3 where "c3 = (modify_node n (\<lambda>nd'. nd'\<lparr>children := AList.update ck ?w (children nd')\<rparr>) c1)
     \<lparr>evictable_sz := evictable_sz c + int (length vls)\<rparr>"
  have cn: "create_node ?f c = (?w, c1)" using create_node_fields(1) [of ?f c] by (simp add: c1_def prod_eq_iff)
  have n3: "nodes c3 = leaf_store ?ps ?t ?w n key vls (nodes c)"
    using d nn ck key(1) by (simp add: c3_def c1_def leaf_store_def fun_upd_other)
  have core3: "core c3 = core (c\<lparr>nodes := leaf_store ?ps ?t ?w n key vls (nodes c), counter := ?w + 1,
      evictable_sz := evictable_sz c + int (length vls)\<rparr>)"
    unfolding core_def n3 by (simp add: c3_def c1_def)
  have "nodes c3 ?w \<noteq> None" unfolding n3 using d by (simp add: leaf_store_def)
  then obtain c4 where c4: "record_store_event ?w c3 = Some c4" "core c4 = core c3"
    using record_store_event_core [of c3 ?w] rw core_fields [OF core3] by auto
  have ev: "evictable_sz c1 = evictable_sz c" by (simp add: c1_def)
  have "insert_loop n key vls ck tot c = Some (tot, c4)"
    using key ck nn cn c4(1) by (subst insert_loop.simps) (simp add: c3_def ev)
  moreover have "map_of (children (nd (nodes c) n)) (take ?ps key) = None" using nn key(2) by simp
  from insert_leaf [OF inv n this key(1,3) vls] c4(2) core3
  have "insert_post c L K V (K n @ key) (V n @ vls) (length (K n)) c4 (insert ?w L)
     (K(?w := K n @ key)) (V(?w := V n @ vls)) ?w" by simp
  ultimately show ?thesis by (metis add.right_neutral diff_self_eq_0 le_refl)
qed

lemma insert_loop_spec:
  assumes "radix_inv c L K V" "n \<in> L" "page_size c dvd length key" "key \<noteq> [] \<Longrightarrow> ck = take (page_size c) key"
    "length vls = length key"
  shows "\<exists>m c' L' K' V' w. insert_loop n key vls ck tot c = Some (tot + (m - length (K n)), c')
     \<and> length (K n) \<le> m \<and> insert_post c L K V (K n @ key) (V n @ vls) m c' L' K' V' w"
  using assms
proof (induction "length key" arbitrary: n key vls ck tot c L K V rule: less_induct)
  case less
  note inv = less.prems(1) and n = less.prems(2) and wf = radix_invD(1) [OF less.prems(1)]
  let ?ps = "page_size c"
  obtain nn where nn: "nodes c n = Some nn" using tree_wfD(4) [OF wf n] by blast
  consider (empty) "key = []" | (leaf) "key \<noteq> []" "map_of (children nn) (take ?ps key) = None"
    | (child) y where "key \<noteq> []" "map_of (children nn) (take ?ps key) = Some y" by fastforce
  then show ?case
  proof cases
    case empty
    then have "insert_loop n key vls ck tot c = Some (tot + (length (K n) - length (K n)), c)"
      by (subst insert_loop.simps) simp
    moreover have "insert_post c L K V (K n @ key) (V n @ vls) (length (K n)) c L K V n"
      using insert_post_stop [OF inv n] empty less.prems(5) by simp
    ultimately show ?thesis by blast
  next
    case leaf
    show ?thesis using insert_loop_leaf [OF inv n nn leaf less.prems(3-5)] .
  next
    case child
    note key = child(1) and y = child(2)
    let ?c = "touch y c"
    have inv': "radix_inv ?c L K V" using touch_inv(1) [OF inv] .
    have y': "map_of (children (nd (nodes ?c) n)) (take (page_size ?c) key) = Some y" using y nn by simp
    have al: "page_size ?c dvd length key" using less.prems(3) by simp
    note fc = found_child [OF inv' n y' key al, unfolded touch_fields]
    obtain yn where yn: "nodes ?c y = Some yn" using tree_wfD(4) [OF radix_invD(1) [OF inv'] fc(1)] by blast
    define m where "m = key_match_fn ?ps (nkey yn) key"
    obtain n' c1 L1 K1 V1 where st:
      "(if m < length (nkey yn) then split_node (nkey yn) y m ?c else Some (y, ?c)) = Some (n', c1)"
      and inv1: "radix_inv c1 L1 K1 V1" and g: "grows ?c L K V c1 L1 K1 V1" and cov: "all_covered ?ps L K V L1 K1 V1"
      and sz: "evictable_sz c1 = evictable_sz c" "protected_sz c1 = protected_sz c" and n': "n' \<in> L1" "K1 n' = K n @ take m key"
      using insert_step [OF inv' n y' key al, unfolded yn option.sel touch_fields, folded m_def] by blast
    have m: "0 < m" "m \<le> length key" "?ps dvd m" using fc(3-5) yn by (simp_all add: m_def)
    define ck' where "ck' = (if drop m key = [] then ck else take ?ps (drop m key))"
    have unf: "insert_loop n key vls ck tot c = insert_loop n' (drop m key) (drop m vls) ck' (tot + m) c1"
      using key less.prems(4) nn y yn st get_child_key_fn_aligned [OF radix_invD(7) [OF inv], of "drop m key"]
      by (subst insert_loop.simps) (auto simp: Let_def m_def ck'_def)
    have ps1: "page_size c1 = ?ps" using g by (simp add: grows_def)
    have "length (drop m key) < length key" using key m(1) by simp
    then have "\<exists>m' c' L' K' V' w. insert_loop n' (drop m key) (drop m vls) ck' (tot + m) c1
          = Some (tot + m + (m' - length (K1 n')), c') \<and> length (K1 n') \<le> m'
        \<and> insert_post c1 L1 K1 V1 (K1 n' @ drop m key) (V1 n' @ drop m vls) m' c' L' K' V' w"
      by (rule less.hyps [OF _ inv1 n'(1)])
        (use less.prems(3,5) m(3) in \<open>auto simp: ps1 ck'_def intro: dvd_diff_nat\<close>)
    then obtain m' c' L' K' V' w where ih: "insert_loop n' (drop m key) (drop m vls) ck' (tot + m) c1
          = Some (tot + m + (m' - length (K1 n')), c')" "length (K1 n') \<le> m'"
        "insert_post c1 L1 K1 V1 (K n @ key) (V1 n' @ drop m vls) m' c' L' K' V' w"
      using n'(2) by auto
    have len: "length (K1 n') = length (K n) + m" "length (V1 n') = length (K1 n')" "length (V n) = length (K n)"
      using n'(2) m(2) tree_wf_lengths [OF radix_invD(1) [OF inv1] n'(1)] tree_wf_lengths [OF wf n] by auto
    have "drop (length (K1 n')) (V1 n' @ drop m vls) = drop (length (K1 n')) (V n @ vls)" using len by simp
    from insert_post_vals [OF ih(3) this ih(2)]
    have "insert_post c1 L1 K1 V1 (K n @ key) (V n @ vls) m' c' L' K' V' w" .
    from insert_post_mono [OF grows_trans [OF grows_touch [OF inv] g] cov sz this]
    have "insert_post c L K V (K n @ key) (V n @ vls) m' c' L' K' V' w" .
    moreover have "insert_loop n key vls ck tot c = Some (tot + (m' - length (K n)), c')" "length (K n) \<le> m'"
      using unf ih(1,2) len(1) by simp_all
    ultimately show ?thesis by blast
  qed
qed

section \<open>The contracts\<close>

lemma cached_covered:
  assumes "radix_inv c L K V"
  shows "cached c ks vs \<longleftrightarrow> (\<exists>n\<in>L. covered (page_size c) ks vs (K n) (V n))"
  unfolding cached_iff [OF radix_invD(1) [OF assms]] covered_def by auto

lemma grows_path:
  assumes "radix_inv c L K V" "radix_inv c' L' K' V'" "grows c L K V c' L' K' V'" "path c n ks vs"
  shows "path c' n ks vs"
  using assms path_iff [OF radix_invD(1)] unfolding grows_def by (metis subsetD)

lemma all_covered_cached:
  assumes inv: "radix_inv c L K V" "radix_inv c' L' K' V'" and g: "grows c L K V c' L' K' V'"
    and "all_covered (page_size c) L K V L' K' V'"
  shows "cached c' = cached c"
proof (intro ext iffI)
  have ps: "page_size c' = page_size c" using g by (simp add: grows_def)
  show "cached c ks vs" if "cached c' ks vs" for ks vs
    using that assms(4) covered_trans unfolding cached_covered [OF inv(1)] cached_covered [OF inv(2)] all_covered_def ps by meson
  show "cached c' ks vs" if "cached c ks vs" for ks vs
    using that g unfolding cached_covered [OF inv(1)] cached_covered [OF inv(2)] ps grows_def by (metis subsetD)
qed

lemma longest_cached:
  assumes inv: "radix_inv c L K V" and lg: "longest (page_size c) L K full m" and "cached c ks vs" "prefix ks full"
  shows "length ks \<le> m"
proof -
  obtain n j where "n \<in> L" "j \<le> length (K n)" "page_size c dvd j" "ks = take j (K n)"
    using assms(3) unfolding cached_covered [OF inv] covered_def by blast
  moreover from this have "take j (K n) = take j full" "j \<le> length full"
    using assms(4) by (auto simp: prefix_def)
  ultimately show ?thesis using lg by (auto simp: longest_def)
qed

definition aligned_key :: "nat \<Rightarrow> int list \<Rightarrow> int list" where
  "aligned_key ps key = take (length key div ps * ps) key"

lemma aligned_key_dvd: "ps dvd length (aligned_key ps key)"
proof -
  have "length key div ps * ps \<le> length key" by simp
  then show ?thesis by (simp add: aligned_key_def min.absorb2)
qed

lemma aligned_key_prefix:
  assumes "prefix ks key" "ps dvd length ks"
  shows "prefix ks (aligned_key ps key)"
proof -
  have "length ks = length ks div ps * ps" using assms(2) by simp
  also have "\<dots> \<le> length key div ps * ps" using assms(1) by (intro mult_le_mono1 div_le_mono prefix_length_le)
  finally show ?thesis using assms(1) by (auto simp: aligned_key_def prefix_def)
qed

lemma match_prefix_spec:
  assumes inv: "radix_inv c L K V" and "\<not> disable c"
  obtains r c' vals where "match_prefix key c = Some (r, c')" "device_indices r = concat vals"
    "last_host_node r = last_device_node r" "host_hit_length r = 0"
    "match_post c L K V (aligned_key (page_size c) key) vals (last_device_node r) c'"
proof -
  let ?ps = "page_size c" and ?r = "root_node c" and ?k = "aligned_key (page_size c) key"
  note wf = radix_invD(1) [OF inv]
  have r: "?r \<in> L" "K ?r = []" "V ?r = []" using tree_wfD [OF wf] by auto
  show ?thesis
  proof (cases "key = []")
    case True
    have "match_post c L K V ?k [] ?r c"
      using longest_no_child [OF wf r(1), of "[]"] r True
      by (intro match_postI [OF inv grows_refl all_covered_refl [OF wf]]) (auto simp: aligned_key_def)
    then show ?thesis using that [of _ c "[]"] True by (simp add: match_prefix_def)
  next
    case False
    let ?c = "touch ?r c"
    have inv': "radix_inv ?c L K V" using touch_inv(1) [OF inv] .
    have k: "(if ?ps \<noteq> 1 then take (length key div ?ps * ?ps) key else key) = ?k" by (simp add: aligned_key_def)
    obtain ck where ck: "get_child_key_fn ?ps ?k = Some ck" "?k \<noteq> [] \<Longrightarrow> ck = take ?ps ?k"
    proof (cases "?k = []")
      case True
      then have "?ps \<noteq> 1" using False by (auto simp: aligned_key_def)
      then show ?thesis using that True by (auto simp: get_child_key_fn_def)
    qed (use that get_child_key_fn_aligned [OF radix_invD(7) [OF inv], of ?k] in auto)
    obtain vals n' c' where m: "match_loop ?r ?k ck [] ?c = Some (vals, n', c')"
      "match_post ?c L K V ?k vals n' c'"
      using match_loop_spec [OF inv' r(1), of ?k ck "[]"] ck(2) aligned_key_dvd r by auto
    have "match_prefix_helper ?r ?k c = Some (vals, n', c')" using ck(1) m(1) by (simp add: match_prefix_helper_def)
    then have "match_prefix key c = Some (\<lparr>device_indices = concat vals, last_device_node = n',
               last_host_node = n', host_hit_length = 0\<rparr>, c')"
      using assms(2) False k by (simp add: match_prefix_def Let_def)
    then show ?thesis using that [of _ c' vals] match_post_touch [OF inv m(2)] by simp
  qed
qed

lemma insert_key_spec:
  assumes inv: "radix_inv c L K V" and "\<not> disable c" "page_size c dvd length key" "length vls = length key"
  obtains m c' L' K' V' w where "insert_key key (Some vls) c = Some (m, c')"
    "insert_post c L K V key vls m c' L' K' V' w"
proof -
  let ?ps = "page_size c" and ?r = "root_node c"
  let ?c = "touch ?r c"
  note wf = radix_invD(1) [OF inv]
  have r: "?r \<in> L" "K ?r = []" "V ?r = []" using tree_wfD [OF wf] by auto
  have inv': "radix_inv ?c L K V" using touch_inv(1) [OF inv] .
  have lift: "insert_post c L K V full vals m c' L' K' V' w"
    if "insert_post ?c L K V full vals m c' L' K' V' w" for full vals m c' L' K' V' w
    using insert_post_mono [OF grows_touch [OF inv] all_covered_refl [OF wf] _ _ that] by simp
  show ?thesis
  proof (cases "key = []")
    case True
    then show ?thesis using that [of 0 ?c] lift [OF insert_post_stop [OF inv' r(1)]] r assms(2,4)
      by (simp add: insert_key_def insert_helper_def)
  next
    case False
    obtain m c' L' K' V' w where "insert_loop ?r key vls (take ?ps key) 0 ?c = Some (m, c')"
      "insert_post ?c L K V key vls m c' L' K' V' w"
      using insert_loop_spec [OF inv' r(1), of key "take ?ps key" vls 0] assms r by auto
    moreover from this have "insert_key key (Some vls) c = Some (m, c')"
      using get_child_key_fn_aligned [OF radix_invD(7) [OF inv] False] False assms(2)
      by (simp add: insert_key_def insert_helper_def Let_def)
    ultimately show ?thesis using that lift by blast
  qed
qed

end
