(* ===== verification/Radix_Contract.thy ===== *)
theory Radix_Contract
  imports Radix_Insert
begin

text \<open>
  The contract of a prefix cache as its clients (the scheduler and the cache's own
  request-level methods) rely on it: \<open>prefix_cache\<close> for lookups, \<open>writable_prefix_cache\<close> for
  insertion, with the radix cache as their interpretation. The radix cache is seen through
  \<open>cached\<close>: the finite table from page-aligned token prefixes to KV slots.
\<close>

section \<open>Interfaces\<close>

locale prefix_cache =
  fixes ok :: "'s \<Rightarrow> bool"
    and held :: "'s \<Rightarrow> int list \<Rightarrow> int list \<Rightarrow> bool"
    and match_m :: "int list \<Rightarrow> 's \<Rightarrow> (int list \<times> 's) option"
  assumes held_functional: "ok s \<Longrightarrow> held s ks vs \<Longrightarrow> held s ks ws \<Longrightarrow> vs = ws"
    and match_law: "ok s \<Longrightarrow> \<exists>vs s'. match_m key s = Some (vs, s') \<and> ok s' \<and> held s' = held s
         \<and> held s (take (length vs) key) vs
         \<and> (\<forall>ks ws. held s ks ws \<longrightarrow> prefix ks key \<longrightarrow> length ks \<le> length vs)"
    and held_length: "ok s \<Longrightarrow> held s ks vs \<Longrightarrow> length vs = length ks"
begin

lemma match_unique:
  assumes "ok s" "match_m key s = Some (vs, s')" "ok t" "held t = held s"
  shows "\<exists>t'. match_m key t = Some (vs, t') \<and> ok t' \<and> held t' = held s"
proof -
  obtain ws t' where t: "match_m key t = Some (ws, t')" "ok t'" "held t' = held t" "held t (take (length ws) key) ws"
    "\<forall>ks us. held t ks us \<longrightarrow> prefix ks key \<longrightarrow> length ks \<le> length ws"
    using match_law [OF assms(3)] by blast
  have s: "held s (take (length vs) key) vs" "\<forall>ks us. held s ks us \<longrightarrow> prefix ks key \<longrightarrow> length ks \<le> length vs"
    using match_law [OF assms(1), of key] assms(2) by auto
  have ls: "length (take (length vs) key) = length vs" "length (take (length ws) key) = length ws"
    using held_length [OF assms(1) s(1)] held_length [OF assms(3) t(4)] by auto
  have "length vs \<le> length ws"
    using t(5) s(1) ls(1) assms(4) take_is_prefix by metis
  moreover have "length ws \<le> length vs"
    using s(2) t(4) ls(2) assms(4) take_is_prefix by metis
  ultimately have "length ws = length vs" by simp
  then have "ws = vs" using held_functional [OF assms(1)] s(1) t(4) assms(4) by metis
  then show ?thesis using t assms(4) by auto
qed

lemma match_held:
  assumes "ok s" "held s key vs"
  shows "\<exists>s'. match_m key s = Some (vs, s') \<and> ok s' \<and> held s' = held s"
proof -
  obtain ws s' where m: "match_m key s = Some (ws, s')" "ok s'" "held s' = held s" "held s (take (length ws) key) ws"
    "length key \<le> length ws"
    using match_law [OF assms(1), of key] assms(2) prefix_order.refl by blast
  then have "ws = vs" using held_functional [OF assms(1) _ assms(2)] by simp
  then show ?thesis using m by blast
qed

end

locale writable_prefix_cache = prefix_cache +
  fixes aligned :: "'s \<Rightarrow> int list \<Rightarrow> bool"
    and insert_m :: "int list \<Rightarrow> int list \<Rightarrow> 's \<Rightarrow> (nat \<times> 's) option"
  assumes insert_law: "ok s \<Longrightarrow> aligned s key \<Longrightarrow> length vls = length key \<Longrightarrow> match_m key s = Some (old, s1) \<Longrightarrow>
      \<exists>s'. insert_m key vls s = Some (length old, s') \<and> ok s'
        \<and> (\<forall>ks vs. held s ks vs \<longrightarrow> held s' ks vs) \<and> held s' key (old @ drop (length old) vls)"
begin

lemma insert_then_match:
  assumes "ok s" "aligned s key" "length vls = length key"
  shows "\<exists>old s1 s2 s3. match_m key s = Some (old, s1) \<and> insert_m key vls s = Some (length old, s2)
     \<and> match_m key s2 = Some (old @ drop (length old) vls, s3) \<and> ok s3"
proof -
  obtain old s1 where m: "match_m key s = Some (old, s1)" using match_law [OF assms(1)] by blast
  then obtain s2 where i: "insert_m key vls s = Some (length old, s2)" "ok s2" "held s2 key (old @ drop (length old) vls)"
    using insert_law [OF assms m] by blast
  then show ?thesis using match_held [OF i(2,3)] m by blast
qed

end

section \<open>The radix cache as a table\<close>

lemma shared_tokens_shared_slots:
  assumes wf: "tree_wf ps r N L K V" and n: "n \<in> L" "n' \<in> L"
    and "ps dvd j" "j \<le> length (K n)" "j \<le> length (K n')" "take j (K n) = take j (K n')"
  shows "take j (V n) = take j (V n')"
  using wf n(1) assms(4-)
proof (induction n rule: tree_wf_induct)
  case root
  then show ?case using tree_wfD(5) [OF wf] by simp
next
  case (child p n)
  have e: "K n = K p @ nkey (nd N n)" "V n = V p @ nvalue (nd N n)" using child.hyps(4) by (auto simp: edge_ok_def)
  have lp: "length (V p) = length (K p)" "length (V n) = length (K n)"
    using tree_wf_lengths [OF wf child.hyps(1)] tree_wf_lengths [OF wf child.hyps(2)] by auto
  show ?case
  proof (cases "j \<le> length (K p)")
    case True
    then have "take j (V p) = take j (V n')" using child.IH child.prems e by simp
    then show ?thesis using True e lp by simp
  next
    case False
    have Kj: "K p @ nkey (nd N n) = K n" using e by simp
    obtain y where y: "map_of (children (nd N p)) (take ps (nkey (nd N n))) = Some y" "edge_ok ps N K V p y" "prefix (K y) (K n')"
      using branch_child [OF wf child.hyps(1) n(2), of j "nkey (nd N n)"] child.prems False unfolding Kj by (metis not_le)
    have "(take ps (nkey (nd N n)), n) \<in> set (children (nd N p))" using child.hyps(4) by (simp add: edge_ok_def)
    then have "y = n" using y(1) tree_wfD(10) [OF wf child.hyps(1)] by simp
    then have "prefix (K n) (K n')" using y by simp
    from descendant_prefix [OF prefix_descendant [OF wf child.hyps(2) n(2) this] wf child.hyps(2)]
    have "prefix (V n) (V n')" by simp
    then show ?thesis using child.prems lp by (auto simp: prefix_def)
  qed
qed

lemma cached_functional:
  assumes "radix_ok c" "cached c ks vs" "cached c ks ws"
  shows "vs = ws"
proof -
  obtain L K V where inv: "radix_inv c L K V" using assms(1) by (auto simp: radix_ok_def)
  note wf = radix_invD(1) [OF inv]
  obtain n i where n: "n \<in> L" "i \<le> length (K n)" "page_size c dvd i" "ks = take i (K n)" "vs = take i (V n)"
    using assms(2) cached_iff [OF wf] by blast
  obtain n' j where n': "n' \<in> L" "j \<le> length (K n')" "ks = take j (K n')" "ws = take j (V n')"
    using assms(3) cached_iff [OF wf] by blast
  have "length (take i (K n)) = length (take j (K n'))" using n(4) n'(3) by simp
  then have ij: "i = j" using n(2) n'(2) by simp
  then have "take i (K n) = take i (K n')" using n(4) n'(3) by simp
  from shared_tokens_shared_slots [OF wf n(1) n'(1) n(3) n(2) _ this] show ?thesis using n(5) n'(2,4) ij by simp
qed

lemma cached_length: "radix_ok c \<Longrightarrow> cached c ks vs \<Longrightarrow> length vs = length ks"
proof -
  assume "radix_ok c" "cached c ks vs"
  then obtain L K V n j where inv: "radix_inv c L K V" and n: "n \<in> L" "j \<le> length (K n)" "ks = take j (K n)" "vs = take j (V n)"
    using cached_iff [OF radix_invD(1)] unfolding radix_ok_def by metis
  show "length vs = length ks" using tree_wf_lengths [OF radix_invD(1) [OF inv] n(1)] n by simp
qed

lemma match_prefix_contract:
  assumes "radix_ok c" "\<not> disable c"
  shows "\<exists>r c'. match_prefix key c = Some (r, c') \<and> radix_ok c' \<and> \<not> disable c' \<and> cached c' = cached c
     \<and> cached c (take (length (device_indices r)) key) (device_indices r)
     \<and> (\<forall>ks vs. cached c ks vs \<longrightarrow> prefix ks key \<longrightarrow> length ks \<le> length (device_indices r))
     \<and> path c' (last_device_node r) (take (length (device_indices r)) key) (device_indices r)
     \<and> (\<forall>n ks vs. path c n ks vs \<longrightarrow> path c' n ks vs)
     \<and> evictable_size c' = evictable_size c \<and> protected_size c' = protected_size c"
proof -
  obtain L K V where inv: "radix_inv c L K V" using assms(1) by (auto simp: radix_ok_def)
  let ?k = "aligned_key (page_size c) key"
  obtain r c' vals where m: "match_prefix key c = Some (r, c')" "device_indices r = concat vals"
    "match_post c L K V ?k vals (last_device_node r) c'"
    using match_prefix_spec [OF inv assms(2)] by metis
  then obtain L' K' V' where p: "radix_inv c' L' K' V'" "grows c L K V c' L' K' V'" "all_covered (page_size c) L K V L' K' V'"
    "evictable_sz c' = evictable_sz c" "protected_sz c' = protected_sz c" "last_device_node r \<in> L'"
    "device_indices r = V' (last_device_node r)" "prefix (K' (last_device_node r)) ?k"
    "longest (page_size c) L K ?k (length (K' (last_device_node r)))"
    unfolding match_post_def by auto
  have len: "length (device_indices r) = length (K' (last_device_node r))"
    using tree_wf_lengths [OF radix_invD(1) [OF p(1)] p(6)] p(7) by simp
  have "prefix ?k key" by (simp add: aligned_key_def take_is_prefix)
  then have Kr: "K' (last_device_node r) = take (length (device_indices r)) key"
    using p(8) len by (auto simp: prefix_def)
  have path: "path c' (last_device_node r) (take (length (device_indices r)) key) (device_indices r)"
    using path_iff [OF radix_invD(1) [OF p(1)]] p(6,7) Kr by simp
  have eq: "cached c' = cached c" by (rule all_covered_cached [OF inv p(1-3)])
  have "cached c' (K' (last_device_node r)) (V' (last_device_node r))"
    unfolding cached_covered [OF p(1)] using covered_self tree_wf_lengths [OF radix_invD(1) [OF p(1)] p(6)] p(6) by blast
  moreover have "length ks \<le> length (device_indices r)" if "cached c ks vs" "prefix ks key" for ks vs
  proof -
    have "page_size c dvd length ks"
      using that(1) unfolding cached_covered [OF inv] covered_def by (auto simp: min.absorb2)
    then show ?thesis using longest_cached [OF inv p(9) that(1)] aligned_key_prefix [OF that(2)] len by simp
  qed
  ultimately show ?thesis
    using m(1) eq path p Kr grows_path [OF inv p(1,2)] assms(2)
    unfolding radix_ok_def grows_def evictable_size_def protected_size_def by (intro exI [of _ r] exI [of _ c']) auto
qed

lemma covered_iff:
  "covered ps ks vs key vals \<longleftrightarrow> ps dvd length ks \<and> prefix ks key \<and> vs = take (length ks) vals"
proof
  show "covered ps ks vs key vals \<Longrightarrow> ps dvd length ks \<and> prefix ks key \<and> vs = take (length ks) vals"
    by (auto simp: covered_def min.absorb2 take_is_prefix)
  assume "ps dvd length ks \<and> prefix ks key \<and> vs = take (length ks) vals"
  then show "covered ps ks vs key vals"
    unfolding covered_def by (intro exI [of _ "length ks"]) (auto simp: prefix_def)
qed

lemma insert_contract:
  assumes "radix_ok c" "\<not> disable c" "page_size c dvd length key" "length vls = length key"
  shows "\<exists>old c'. insert_key key (Some vls) c = Some (length old, c') \<and> radix_ok c' \<and> \<not> disable c'
     \<and> page_size c' = page_size c \<and> cached c (take (length old) key) old
     \<and> (\<forall>ks vs. cached c ks vs \<longrightarrow> prefix ks key \<longrightarrow> length ks \<le> length old)
     \<and> (\<forall>ks vs. cached c' ks vs \<longleftrightarrow> cached c ks vs
           \<or> (page_size c dvd length ks \<and> prefix ks key \<and> vs = take (length ks) (old @ drop (length old) vls)))
     \<and> (\<forall>n ks vs. path c n ks vs \<longrightarrow> path c' n ks vs)
     \<and> evictable_size c' = evictable_size c + int (length key - length old) \<and> protected_size c' = protected_size c"
proof -
  obtain L K V where inv: "radix_inv c L K V" using assms(1) by (auto simp: radix_ok_def)
  obtain m c' L' K' V' w where i: "insert_key key (Some vls) c = Some (m, c')"
    and post: "insert_post c L K V key vls m c' L' K' V' w"
    using insert_key_spec [OF inv assms(2-)] by metis
  have inv': "radix_inv c' L' K' V'" and g: "grows c L K V c' L' K' V'" and w: "w \<in> L'" "K' w = key"
    and cov: "\<forall>y\<in>L'. (\<exists>x\<in>L. covered (page_size c) (K' y) (V' y) (K x) (V x)) \<or> covered (page_size c) (K' y) (V' y) key (V' w)"
    and m: "m \<le> length key" "page_size c dvd m" "longest (page_size c) L K key m" "drop m (V' w) = drop m vls"
    and pre: "\<exists>x\<in>L. covered (page_size c) (take m key) (take m (V' w)) (K x) (V x)"
    and sz: "evictable_sz c' = evictable_sz c + int (length key - m)" "protected_sz c' = protected_sz c"
    using post unfolding insert_post_def by auto
  have ps: "page_size c' = page_size c" using g by (simp add: grows_def)
  define old where "old = take m (V' w)"
  have lw: "length (V' w) = length key" using tree_wf_lengths [OF radix_invD(1) [OF inv'] w(1)] w(2) by simp
  then have lo: "length old = m" using m(1) by (simp add: old_def)
  have V: "V' w = old @ drop m vls" unfolding old_def m(4) [symmetric] by simp
  have new: "cached c' ks vs" if "covered (page_size c) ks vs key (V' w)" for ks vs
    using that w unfolding cached_covered [OF inv'] ps by auto
  have keep: "cached c' ks vs" if "cached c ks vs" for ks vs
    using that g unfolding cached_covered [OF inv] cached_covered [OF inv'] ps grows_def by (metis subsetD)
  have bwd: "cached c ks vs \<or> covered (page_size c) ks vs key (V' w)" if "cached c' ks vs" for ks vs
    using that cov covered_trans unfolding cached_covered [OF inv] cached_covered [OF inv'] ps by metis
  have cv: "covered (page_size c) ks vs key (V' w) \<longleftrightarrow>
      page_size c dvd length ks \<and> prefix ks key \<and> vs = take (length ks) (old @ drop m vls)" for ks vs
    unfolding covered_iff V ..
  have "cached c (take m key) old" using pre unfolding cached_covered [OF inv] old_def .
  moreover have "length ks \<le> m" if "cached c ks vs" "prefix ks key" for ks vs
    using longest_cached [OF inv m(3) that] .
  moreover have "cached c' ks vs \<longleftrightarrow> cached c ks vs
      \<or> (page_size c dvd length ks \<and> prefix ks key \<and> vs = take (length ks) (old @ drop m vls))" for ks vs
    using new keep bwd unfolding cv by blast
  ultimately show ?thesis
    using i lo ps sz g inv' grows_path [OF inv inv' g] assms(2)
    unfolding radix_ok_def grows_def evictable_size_def protected_size_def by (intro exI [of _ old] exI [of _ c']) auto
qed

definition radix_match :: "int list \<Rightarrow> radix_cache \<Rightarrow> (int list \<times> radix_cache) option" where
  "radix_match key c = map_option (\<lambda>(r, c'). (device_indices r, c')) (match_prefix key c)"

definition radix_ready :: "radix_cache \<Rightarrow> bool" where
  "radix_ready c \<longleftrightarrow> radix_ok c \<and> \<not> disable c"

interpretation radix: prefix_cache radix_ready cached radix_match
proof
  show "vs = ws" if "radix_ready s" "cached s ks vs" "cached s ks ws" for s ks vs ws
    using cached_functional [OF _ that(2,3)] that(1) by (simp add: radix_ready_def)
  show "\<exists>vs s'. radix_match key s = Some (vs, s') \<and> radix_ready s' \<and> cached s' = cached s
         \<and> cached s (take (length vs) key) vs
         \<and> (\<forall>ks ws. cached s ks ws \<longrightarrow> prefix ks key \<longrightarrow> length ks \<le> length vs)" if "radix_ready s" for s key
    using match_prefix_contract [of s key] that by (auto simp: radix_ready_def radix_match_def)
  show "length vs = length ks" if "radix_ready s" "cached s ks vs" for s ks vs
    using cached_length [OF _ that(2)] that(1) by (simp add: radix_ready_def)
qed

interpretation radix: writable_prefix_cache radix_ready cached radix_match
  "\<lambda>c key. page_size c dvd length key" "\<lambda>key (vls :: int list). insert_key key (Some vls)"
proof
  fix s key and vls :: "int list" and old s1
  assume ok: "radix_ready s" and al: "page_size s dvd length key" and l: "length vls = length key"
    and m: "radix_match key s = Some (old, s1)"
  have r: "radix_ok s" "\<not> disable s" using ok by (auto simp: radix_ready_def)
  obtain prev s' where i: "insert_key key (Some vls) s = Some (length prev, s')" "radix_ok s'" "\<not> disable s'"
    "cached s (take (length prev) key) prev" "\<forall>ks vs. cached s ks vs \<longrightarrow> prefix ks key \<longrightarrow> length ks \<le> length prev"
    "\<forall>ks vs. cached s' ks vs \<longleftrightarrow> cached s ks vs
       \<or> (page_size s dvd length ks \<and> prefix ks key \<and> vs = take (length ks) (prev @ drop (length prev) vls))"
    using insert_contract [OF r al l] by blast
  have o: "cached s (take (length old) key) old" "\<forall>ks vs. cached s ks vs \<longrightarrow> prefix ks key \<longrightarrow> length ks \<le> length old"
    using radix.match_law [OF ok, of key] m by auto
  have lens: "length (take (length old) key) = length old" "length (take (length prev) key) = length prev"
    using cached_length [OF r(1) o(1)] cached_length [OF r(1) i(4)] by auto
  have "length old \<le> length prev" using i(5) o(1) lens(1) take_is_prefix by metis
  moreover have "length prev \<le> length old" using o(2) i(4) lens(2) take_is_prefix by metis
  ultimately have "prev = old" using cached_functional [OF r(1) i(4)] o(1) by simp
  moreover have "length key = length (old @ drop (length old) vls)" using lens(1) l by simp
  ultimately show "\<exists>s'. insert_key key (Some vls) s = Some (length old, s') \<and> radix_ready s'
        \<and> (\<forall>ks vs. cached s ks vs \<longrightarrow> cached s' ks vs) \<and> cached s' key (old @ drop (length old) vls)"
    using i al by (auto simp: radix_ready_def)
qed

section \<open>Construction\<close>

lemma radix_ok_reset:
  assumes "0 < page_size c" "\<forall>n\<ge>counter c. nodes c n = None"
  shows "radix_ok (reset c)" "disable (reset c) = disable c" "page_size (reset c) = page_size c"
    "cached (reset c) ks vs \<longleftrightarrow> ks = [] \<and> vs = []"
proof -
  let ?c = "reset c" and ?w = "counter c"
  have f: "page_size ?c = page_size c" "disable ?c = disable c" "root_node ?c = ?w" "evictable_sz ?c = 0" "protected_sz ?c = 0"
    "counter ?c = Suc ?w" "nodes ?c = (nodes c)(?w \<mapsto> (new_tree_node (monotonic c (ticks c)))
       \<lparr>nkey := [], nvalue := [], host_value := Some [], lock_ref := 1\<rparr>)"
    by (simp_all add: reset_def create_node_def tick_def record_all_cleared_event_def)
  have "tree_wf (page_size c) ?w (nodes ?c) {?w} (\<lambda>_. []) (\<lambda>_. [])"
    by (rule tree_wfI) (use assms(1) in \<open>auto simp: f new_tree_node_def\<close>)
  then have inv: "radix_inv ?c {?w} (\<lambda>_. []) (\<lambda>_. [])"
    using assms unfolding radix_inv_def f(1-6) by (auto simp: f(7) lock_wf_def size_where_def)
  then show "radix_ok ?c" by (auto simp: radix_ok_def)
  show "disable ?c = disable c" "page_size ?c = page_size c" by (rule f)+
  show "cached ?c ks vs \<longleftrightarrow> ks = [] \<and> vs = []" unfolding cached_covered [OF inv] covered_def by auto
qed

lemma radix_ok_init:
  assumes "0 < ps"
  shows "radix_ok (init_radix_cache ps dis ev cnt clock hsh)" "disable (init_radix_cache ps dis ev cnt clock hsh) = dis"
    "page_size (init_radix_cache ps dis ev cnt clock hsh) = ps"
    "cached (init_radix_cache ps dis ev cnt clock hsh) ks vs \<longleftrightarrow> ks = [] \<and> vs = []"
  using assms radix_ok_reset unfolding init_radix_cache_def by simp_all

lemma radix_example:
  "\<exists>c. radix_ok c \<and> \<not> disable c \<and> page_size c = 2
    \<and> (\<forall>ks vs. cached c ks vs \<longleftrightarrow> even (length ks) \<and> prefix ks [1, 2, 3, 4] \<and> vs = take (length ks) [11, 12, 13, 14])"
proof -
  let ?c = "init_radix_cache 2 False True 0 int sum_list"
  have c: "radix_ok ?c" "\<not> disable ?c" "page_size ?c = 2" using radix_ok_init [of 2] by simp_all
  have "page_size ?c dvd length [1, 2, 3, 4::int]" by (simp add: c(3))
  from insert_contract [OF c(1,2) this, of "[11, 12, 13, 14]"]
  obtain old c' where c': "radix_ok c'" "\<not> disable c'" "page_size c' = page_size ?c"
    "cached ?c (take (length old) [1, 2, 3, 4]) old"
    "\<forall>ks vs. cached c' ks vs \<longleftrightarrow> cached ?c ks vs \<or> (page_size ?c dvd length ks \<and> prefix ks [1, 2, 3, 4]
        \<and> vs = take (length ks) (old @ drop (length old) [11, 12, 13, 14]))"
    by (auto simp del: take_append)
  have "old = []" using c'(4) radix_ok_init(4) [of 2] by simp
  then have "cached c' ks vs \<longleftrightarrow> even (length ks) \<and> prefix ks [1, 2, 3, 4] \<and> vs = take (length ks) [11, 12, 13, 14]" for ks vs
    using c'(5) radix_ok_init(4) [of 2] by (auto simp: c(3))
  then show ?thesis using c'(1-3) c(3) by metis
qed

section \<open>Properties\<close>

text \<open>
  C6: on a well-formed enabled cache, \<open>match_prefix\<close> always returns. The slots it returns are
  those the cache holds for a prefix of the key, and no longer page-aligned prefix of the
  key is cached. The node it returns lies at the end of exactly that prefix. The call may
  split a node, but it changes neither what is cached nor the path of any node a request
  holds, nor the two size counters, and it keeps the invariant.
\<close>

theorem match_prefix_longest:
  assumes "radix_ok c" "\<not> disable c"
  shows "\<exists>r c'. match_prefix key c = Some (r, c') \<and> radix_ok c' \<and> cached c' = cached c
     \<and> cached c (take (length (device_indices r)) key) (device_indices r)
     \<and> (\<forall>ks vs. cached c ks vs \<longrightarrow> prefix ks key \<longrightarrow> length ks \<le> length (device_indices r))
     \<and> path c' (last_device_node r) (take (length (device_indices r)) key) (device_indices r)
     \<and> (\<forall>n ks vs. path c n ks vs \<longrightarrow> path c' n ks vs)
     \<and> evictable_size c' = evictable_size c \<and> protected_size c' = protected_size c"
  using match_prefix_contract [OF assms] by blast

theorem match_prefix_longest_witness:
  "\<exists>c r c'. radix_ok c \<and> \<not> disable c \<and> cached c [1, 2, 3, 4] [11, 12, 13, 14]
     \<and> match_prefix [1, 2, 3, 9] c = Some (r, c') \<and> device_indices r = [11, 12]"
proof -
  obtain c where c: "radix_ok c" "\<not> disable c" and "page_size c = 2" and ex:
    "\<forall>ks vs. cached c ks vs \<longleftrightarrow> even (length ks) \<and> prefix ks [1, 2, 3, 4] \<and> vs = take (length ks) [11, 12, 13, 14]"
    using radix_example by blast
  obtain r c' where m: "match_prefix [1, 2, 3, 9] c = Some (r, c')"
    "cached c (take (length (device_indices r)) [1, 2, 3, 9]) (device_indices r)"
    "\<forall>ks vs. cached c ks vs \<longrightarrow> prefix ks [1, 2, 3, 9] \<longrightarrow> length ks \<le> length (device_indices r)"
    using match_prefix_longest [OF c(1,2), of "[1, 2, 3, 9]"] by (elim exE conjE) (rule that)
  define n where "n = length (device_indices r)"
  have "2 \<le> n" using m(3) ex [rule_format, of "[1, 2]" "[11, 12]"] by (auto simp: n_def)
  moreover have "even (min 4 n)" "prefix (take n [1, 2, 3, 9]) [1, 2, 3, 4 :: int]"
    and di: "device_indices r = take (min 4 n) [11, 12, 13, 14]"
    using m(2) unfolding ex [rule_format] n_def by (simp_all add: numeral_eq_Suc)
  moreover have "n \<le> 4" using arg_cong [OF di, of length] by (simp add: n_def)
  moreover have "n = 2 \<or> n = 3 \<or> n = 4" using calculation by linarith
  ultimately have "n = 2" by auto
  then have "device_indices r = [11, 12]" using di by simp
  moreover have "cached c [1, 2, 3, 4] [11, 12, 13, 14]" by (simp add: ex)
  ultimately show ?thesis using c(1,2) m(1) by blast
qed

text \<open>
  C7: on a well-formed enabled cache, inserting a page-aligned key with one slot per token
  always returns, and the number it returns is the length of the longest cached prefix of the
  key. Afterwards the cache holds what it held, and every aligned prefix of the key at the old
  slots up to that length and at the new ones beyond it, and nothing else. The evictable size
  grows by the number of tokens added, and no request's node moves.
\<close>

theorem insert_exact:
  assumes "radix_ok c" "\<not> disable c" "page_size c dvd length key" "length vls = length key"
  shows "\<exists>old c'. insert_key key (Some vls) c = Some (length old, c') \<and> radix_ok c'
     \<and> cached c (take (length old) key) old
     \<and> (\<forall>ks vs. cached c ks vs \<longrightarrow> prefix ks key \<longrightarrow> length ks \<le> length old)
     \<and> (\<forall>ks vs. cached c' ks vs \<longleftrightarrow> cached c ks vs
           \<or> (page_size c dvd length ks \<and> prefix ks key \<and> vs = take (length ks) (old @ drop (length old) vls)))
     \<and> (\<forall>n ks vs. path c n ks vs \<longrightarrow> path c' n ks vs)
     \<and> evictable_size c' = evictable_size c + int (length key - length old) \<and> protected_size c' = protected_size c"
  using insert_contract [OF assms] by blast

theorem insert_exact_witness:
  "\<exists>c c'. radix_ok c \<and> cached c [1, 2, 3, 4] [11, 12, 13, 14]
     \<and> insert_key [1, 2, 5, 6] (Some [21, 22, 23, 24]) c = Some (2, c') \<and> cached c' [1, 2, 5, 6] [11, 12, 23, 24]"
proof -
  obtain c where c: "radix_ok c" "\<not> disable c" "page_size c = 2"
    "\<forall>ks vs. cached c ks vs \<longleftrightarrow> even (length ks) \<and> prefix ks [1, 2, 3, 4] \<and> vs = take (length ks) [11, 12, 13, 14]"
    using radix_example by blast
  have "page_size c dvd length [1, 2, 5, 6 :: int]" by (simp add: c(3))
  from insert_exact [OF c(1,2) this, of "[21, 22, 23, 24]"]
  obtain old c' where i: "insert_key [1, 2, 5, 6] (Some [21, 22, 23, 24]) c = Some (length old, c')"
    "cached c (take (length old) [1, 2, 5, 6]) old"
    "\<forall>ks vs. cached c ks vs \<longrightarrow> prefix ks [1, 2, 5, 6] \<longrightarrow> length ks \<le> length old"
    "\<forall>ks vs. cached c' ks vs \<longleftrightarrow> cached c ks vs \<or> (page_size c dvd length ks \<and> prefix ks [1, 2, 5, 6]
        \<and> vs = take (length ks) (old @ drop (length old) [21, 22, 23, 24]))"
    by (auto simp del: take_append)
  define n where "n = length old"
  have "2 \<le> n" using i(3) c(4) [rule_format, of "[1, 2]" "[11, 12]"] by (auto simp: n_def)
  moreover have "even (min 4 n)" "prefix (take n [1, 2, 5, 6]) [1, 2, 3, 4 :: int]"
    and old: "old = take (min 4 n) [11, 12, 13, 14]"
    using i(2) unfolding c(4) [rule_format] n_def by (simp_all add: numeral_eq_Suc)
  moreover have "n \<le> 4" using arg_cong [OF old, of length] by (simp add: n_def)
  moreover have "n = 2 \<or> n = 3 \<or> n = 4" using calculation by linarith
  ultimately have "n = 2" by auto
  then have "old = [11, 12]" using old by simp
  then have "insert_key [1, 2, 5, 6] (Some [21, 22, 23, 24]) c = Some (2, c')" "cached c' [1, 2, 5, 6] [11, 12, 23, 24]"
    using i(1,4) c(3) by simp_all
  then show ?thesis using c(1,4) by auto
qed

text \<open>
  C17: reading back what was inserted. If a lookup of an aligned key finds the slots \<open>old\<close>, then
  inserting the key with other slots and looking it up again finds \<open>old\<close> followed by the new
  slots of the remaining tokens: the slots of tokens that were already cached are the
  duplicates that the caller must free.
\<close>

theorem insert_match_roundtrip:
  assumes "radix_ready c" "page_size c dvd length key" "length vls = length key"
  shows "\<exists>old c1 c2 c3. radix_match key c = Some (old, c1) \<and> insert_key key (Some vls) c = Some (length old, c2)
     \<and> radix_match key c2 = Some (old @ drop (length old) vls, c3) \<and> radix_ready c3"
  using radix.insert_then_match [OF assms] .

theorem insert_match_roundtrip_witness:
  "\<exists>c old c1 c2 c3. radix_match [7, 8] c = Some (old, c1) \<and> insert_key [7, 8] (Some [31, 32]) c = Some (length old, c2)
     \<and> radix_match [7, 8] c2 = Some (old @ drop (length old) [31, 32], c3)"
proof -
  let ?c = "init_radix_cache 2 False False 0 int sum_list"
  have "radix_ready ?c" "page_size ?c dvd length [7, 8 :: int]"
    using radix_ok_init [of 2] by (simp_all add: radix_ready_def)
  from insert_match_roundtrip [OF this, of "[31, 32]"] show ?thesis by auto
qed

end
