(* ===== verification/Request.thy ===== *)
theory Request
  imports Sampling_Params Radix_Contract
begin

text \<open>
  A request as the scheduler sees it (class \<open>Req\<close> of \<^verbatim>\<open>managers/schedule_batch.py\<close>): its token
  lists, the part of it that the prefix cache holds, and the check that ends it. The fields
  for returned log probabilities, embeddings, multimodal inputs, timing and disaggregation are
  carried through by this code and are not represented. A grammar is represented by what its
  \<open>is_terminated\<close> answers, a tokenizer by its \<open>decode\<close> method and its stop tokens.
\<close>

section \<open>Finish reasons\<close>

datatype finish_reason =
    FINISH_MATCHED_TOKEN int
  | FINISH_MATCHED_STR "text"
  | FINISH_LENGTH int
  | FINISH_ABORT "text" "int option" "text option"

datatype json_value = JNone | JInt int | JStr "text"

definition is_error :: "finish_reason \<Rightarrow> bool" where
  "is_error r = (case r of FINISH_ABORT _ _ _ \<Rightarrow> True | _ \<Rightarrow> False)"

definition finish_abort :: "text option \<Rightarrow> int option \<Rightarrow> text option \<Rightarrow> finish_reason" where
  \<comment> \<open>the constructor: \<open>message or "Aborted"\<close>\<close>
  "finish_abort message status_code err_type =
     FINISH_ABORT (case message of None \<Rightarrow> str ''Aborted'' | Some m \<Rightarrow> if m = [] then str ''Aborted'' else m)
       status_code err_type"

fun to_json :: "finish_reason \<Rightarrow> (text \<times> json_value) list" where
  "to_json (FINISH_MATCHED_TOKEN matched) = [(str ''type'', JStr (str ''stop'')), (str ''matched'', JInt matched)]"
| "to_json (FINISH_MATCHED_STR matched) = [(str ''type'', JStr (str ''stop'')), (str ''matched'', JStr matched)]"
| "to_json (FINISH_LENGTH len) = [(str ''type'', JStr (str ''length'')), (str ''length'', JInt len)]"
| "to_json (FINISH_ABORT message status_code err_type) =
     [(str ''type'', JStr (str ''abort'')), (str ''message'', JStr message),
      (str ''status_code'', case status_code of None \<Rightarrow> JNone | Some c \<Rightarrow> JInt c),
      (str ''err_type'', case err_type of None \<Rightarrow> JNone | Some e \<Rightarrow> JStr e)]"

section \<open>Req\<close>

record tokenizer =
  eos_token_id :: "int option"
  additional_stop_token_ids :: "int list option"
  decode :: "int list \<Rightarrow> text"

record req =
  rid :: "text"
  origin_input_text :: "text"
  origin_input_ids_unpadded :: "int list"
  origin_input_ids :: "int list"
  output_ids :: "int list"
  fill_ids :: "int list"
  session_id :: "text option"
  evicted_seqlen_local :: int
  req_sampling_params :: sampling_params
  lora_id :: "text option"
  req_pool_idx :: "int option"
  req_tokenizer :: "tokenizer option"
  finished_reason :: "finish_reason option"
  to_abort :: bool
  to_abort_message :: "text option"
  stream :: bool
  eos_token_ids :: "int list option"
  vocab_size :: "int option"
  surr_offset :: "int option"
  read_offset :: "int option"
  decoded_text :: "text"
  prefix_indices :: "int list"
  extend_input_len :: int
  extend_logprob_start_len :: int
  last_node :: "nat option"
  last_host_node :: "nat option"
  req_host_hit_length :: int
  swa_uuid_for_lock :: "int option"
  is_chunked :: int
  is_retracted :: bool
  return_logprob :: bool
  logprob_start_len :: int
  top_logprobs_num :: int
  grammar :: "bool option"
  cached_tokens :: int
  already_computed :: int

definition new_req ::
  "text \<Rightarrow> text \<Rightarrow> int list \<Rightarrow> sampling_params \<Rightarrow> bool \<Rightarrow> int \<Rightarrow> bool \<Rightarrow> int list option \<Rightarrow> text option
     \<Rightarrow> text option \<Rightarrow> int list option \<Rightarrow> int option \<Rightarrow> req" where
  "new_req ident input_text input_ids params ret_logprob top_lp strm unpadded lora sess eos vocab =
     \<lparr>rid = ident, origin_input_text = input_text,
      origin_input_ids_unpadded = (case unpadded of None \<Rightarrow> input_ids | Some u \<Rightarrow> if u = [] then input_ids else u),
      origin_input_ids = input_ids, output_ids = [], fill_ids = [], session_id = sess,
      evicted_seqlen_local = 0, req_sampling_params = params, lora_id = lora, req_pool_idx = None,
      req_tokenizer = None, finished_reason = None, to_abort = False, to_abort_message = None,
      stream = strm, eos_token_ids = eos, vocab_size = vocab, surr_offset = None, read_offset = None,
      decoded_text = [], prefix_indices = [], extend_input_len = 0, extend_logprob_start_len = 0,
      last_node = None, last_host_node = None, req_host_hit_length = 0, swa_uuid_for_lock = None,
      is_chunked = 0, is_retracted = False, return_logprob = ret_logprob, logprob_start_len = 0,
      top_logprobs_num = top_lp, grammar = None, cached_tokens = 0, already_computed = 0\<rparr>"

definition seqlen :: "req \<Rightarrow> nat" where
  "seqlen r = length (origin_input_ids r) + length (output_ids r)"

definition finished :: "req \<Rightarrow> bool" where
  "finished r = (finished_reason r \<noteq> None)"

definition adjust_max_prefix_ids :: "req \<Rightarrow> (int list \<times> req) res" where
  \<comment> \<open>comparing \<open>max_new_tokens\<close> with 0 raises when it is \<open>None\<close>\<close>
  "adjust_max_prefix_ids r =
     (let ids = origin_input_ids r @ output_ids r;
          r1 = r\<lparr>fill_ids := ids\<rparr>;
          input_len = int (length ids);
          max0 = input_len - 1
      in case max_new_tokens (req_sampling_params r) of
           None \<Rightarrow> Inl TypeError
         | Some m \<Rightarrow>
             (let max1 = (if m > 0 then min max0 (input_len - 1) else max0);
                  max2 = (if return_logprob r then min max1 (logprob_start_len r) else max1);
                  max3 = max max2 0
              in Inr (py_take max3 ids, r1)))"

definition init_next_round_input :: "req \<Rightarrow> radix_cache option \<Rightarrow> (req \<times> radix_cache option) option" where
  \<comment> \<open>with a radix cache; \<open>None\<close> when it raises\<close>
  "init_next_round_input r tree_cache =
     (case tree_cache of
        None \<Rightarrow>
          (let r1 = r\<lparr>fill_ids := origin_input_ids r @ output_ids r\<rparr>
           in Some (r1\<lparr>extend_input_len := int (length (fill_ids r1)) - int (length (prefix_indices r1))\<rparr>, None))
      | Some c \<Rightarrow>
          (case adjust_max_prefix_ids r of
             Inl _ \<Rightarrow> None
           | Inr (key, r1) \<Rightarrow>
               (case match_prefix key c of
                  None \<Rightarrow> None
                | Some (m, c') \<Rightarrow>
                    (let r2 = r1\<lparr>prefix_indices := device_indices m, last_node := Some (last_device_node m),
                                 last_host_node := Some (match_result.last_host_node m),
                                 req_host_hit_length := int (host_hit_length m)\<rparr>
                     in Some (r2\<lparr>extend_input_len := int (length (fill_ids r2)) - int (length (prefix_indices r2))\<rparr>,
                              Some c')))))"

definition init_incremental_detokenize :: "req \<Rightarrow> (int list \<times> int) \<times> req" where
  \<comment> \<open>\<open>INIT_INCREMENTAL_DETOKENIZATION_OFFSET\<close> is 5\<close>
  "init_incremental_detokenize r =
     (let first_iter = (surr_offset r = None \<or> read_offset r = None);
          rd = (if first_iter then int (length (origin_input_ids_unpadded r)) else the (read_offset r));
          su = (if first_iter then max (rd - 5) 0 else the (surr_offset r));
          all_ids = origin_input_ids_unpadded r @ output_ids r
      in ((py_drop su all_ids, rd - su),
          if first_iter then r\<lparr>read_offset := Some rd, surr_offset := Some su\<rparr> else r))"

definition matched_eos :: "req \<Rightarrow> int \<Rightarrow> bool" where
  "matched_eos r tok =
     ((case stop_token_ids (req_sampling_params r) of None \<Rightarrow> False | Some ids \<Rightarrow> tok \<in> set ids)
      \<or> (case eos_token_ids r of None \<Rightarrow> False | Some ids \<Rightarrow> tok \<in> set ids)
      \<or> (case req_tokenizer r of None \<Rightarrow> False
         | Some tk \<Rightarrow> eos_token_id tk = Some tok
             \<or> (case additional_stop_token_ids tk of None \<Rightarrow> False | Some ids \<Rightarrow> tok \<in> set ids)))"

definition replace_invalid :: "req \<Rightarrow> int list" where
  \<comment> \<open>the output with its last token replaced by a stop token, if there is one\<close>
  "replace_invalid r =
     (let o1 = (case stop_token_ids (req_sampling_params r) of Some (t # _) \<Rightarrow> butlast (output_ids r) @ [t] | _ \<Rightarrow> output_ids r)
      in case eos_token_ids r of Some (t # _) \<Rightarrow> butlast o1 @ [t] | _ \<Rightarrow> o1)"

definition stop_items :: "stop_spec \<Rightarrow> text list option" where
  \<comment> \<open>what a loop over \<open>stop_strs\<close> visits: the characters of a bare string; \<open>None\<close> has no length\<close>
  "stop_items s = (case s of StopNone \<Rightarrow> None | StopStr t \<Rightarrow> Some (map (\<lambda>c. [c]) t) | StopList ts \<Rightarrow> Some ts)"

definition check_finished :: "req \<Rightarrow> req res" where
  "check_finished r =
     (let p = req_sampling_params r in
      if finished r then Inr r
      else if to_abort r then Inr (r\<lparr>finished_reason := Some (finish_abort (to_abort_message r) None None)\<rparr>)
      else case max_new_tokens p of
        None \<Rightarrow> Inl TypeError
      | Some m \<Rightarrow>
        if int (length (output_ids r)) \<ge> m then Inr (r\<lparr>finished_reason := Some (FINISH_LENGTH m)\<rparr>)
        else if output_ids r = [] then Inl IndexError
        else
          (let last_token_id = last (output_ids r) in
           if grammar r = Some True then Inr (r\<lparr>finished_reason := Some (FINISH_MATCHED_TOKEN last_token_id)\<rparr>)
           else if \<not> ignore_eos p \<and> matched_eos r last_token_id
           then Inr (r\<lparr>finished_reason := Some (FINISH_MATCHED_TOKEN last_token_id)\<rparr>)
           else case vocab_size r of
             None \<Rightarrow> Inl TypeError
           | Some vs \<Rightarrow>
             if last_token_id > vs \<or> last_token_id < 0
             then Inr (r\<lparr>output_ids := replace_invalid r, finished_reason := Some (FINISH_MATCHED_STR (str ''NaN happened''))\<rparr>)
             else case stop_items (stop_strs p) of
               None \<Rightarrow> Inl TypeError
             | Some stops \<Rightarrow>
               if length stops > 0 then
                 (case (req_tokenizer r, stop_str_max_len p) of
                    (Some tk, Some w) \<Rightarrow>
                      (let tail_str = decode tk (py_drop (- int (w + 1)) (output_ids r))
                       in case find (\<lambda>s. contains s tail_str \<or> contains s (decoded_text r)) stops of
                            Some s \<Rightarrow> Inr (r\<lparr>finished_reason := Some (FINISH_MATCHED_STR s)\<rparr>)
                          | None \<Rightarrow> Inr r)
                  | _ \<Rightarrow> Inl AttributeError)
               else Inr r))"

definition reset_for_retract :: "req \<Rightarrow> req" where
  "reset_for_retract r = r\<lparr>prefix_indices := [], last_node := None, swa_uuid_for_lock := None,
     extend_input_len := 0, is_retracted := True, extend_logprob_start_len := 0, is_chunked := 0,
     req_pool_idx := None, already_computed := 0\<rparr>"

definition set_finish_with_abort :: "text \<Rightarrow> req \<Rightarrow> req" where
  "set_finish_with_abort error_msg r = r\<lparr>grammar := None, origin_input_ids := [0], return_logprob := False,
     finished_reason := Some (finish_abort (Some error_msg) (Some 400) (Some (str ''BadRequestError'')))\<rparr>"

section \<open>Properties\<close>


definition echo_tokenizer :: tokenizer where
  \<comment> \<open>decodes every token to the letter x\<close>
  "echo_tokenizer = \<lparr>eos_token_id = Some 2, additional_stop_token_ids = None, decode = map (\<lambda>_. 120)\<rparr>"

definition streaming_req :: "text \<Rightarrow> req" where
  \<comment> \<open>a request with one stop string that has produced one token\<close>
  "streaming_req stop = new_req [] [] [5] (normalize_params (Some (map int)) (default_params\<lparr>stop_strs := StopStr stop\<rparr>))
     False 0 False None None None None (Some 10) \<lparr>output_ids := [7], req_tokenizer := Some echo_tokenizer\<rparr>"


lemma match_prefix_host: "match_prefix key c = Some (res, c') \<Longrightarrow> host_hit_length res = 0"
  by (auto simp: match_prefix_def Let_def bind_eq_Some_conv split: if_splits)

lemma adjust_key:
  assumes "max_new_tokens (req_sampling_params r) \<noteq> None" "origin_input_ids r \<noteq> []"
  shows "\<exists>k. adjust_max_prefix_ids r = Inr (take k (origin_input_ids r @ output_ids r), r\<lparr>fill_ids := origin_input_ids r @ output_ids r\<rparr>)
    \<and> k < length (origin_input_ids r @ output_ids r)"
proof -
  let ?ids = "origin_input_ids r @ output_ids r"
  define k where "k = (let max2 = (if return_logprob r then min (int (length ?ids) - 1) (logprob_start_len r)
                                   else int (length ?ids) - 1) in max max2 0)"
  have a: "adjust_max_prefix_ids r = Inr (py_take k ?ids, r\<lparr>fill_ids := ?ids\<rparr>)"
    using assms(1) by (auto simp: adjust_max_prefix_ids_def k_def Let_def)
  have "0 < length ?ids" using assms(2) by simp
  moreover have "0 \<le> k" "k \<le> max (int (length ?ids) - 1) 0" unfolding k_def Let_def by auto
  ultimately have k: "0 \<le> k" "nat k < length ?ids" by linarith+
  show ?thesis using k a by (intro exI [of _ "nat k"]) (simp add: py_take_nat)
qed

lemma next_round_radix:
  assumes "radix_ok c" "\<not> disable c" "max_new_tokens (req_sampling_params r) \<noteq> None" "origin_input_ids r \<noteq> []"
  shows "\<exists>pre n h c'. init_next_round_input r (Some c)
       = Some (r\<lparr>fill_ids := origin_input_ids r @ output_ids r, prefix_indices := pre, last_node := Some n, last_host_node := h, req_host_hit_length := 0,
                 extend_input_len := int (length (origin_input_ids r @ output_ids r)) - int (length pre)\<rparr>, Some c')
     \<and> radix_ok c' \<and> \<not> disable c' \<and> cached c' = cached c \<and> evictable_size c' = evictable_size c \<and> (\<forall>n ks vs. path c n ks vs \<longrightarrow> path c' n ks vs)
     \<and> path c' n (take (length pre) (origin_input_ids r @ output_ids r)) pre
     \<and> cached c (take (length pre) (origin_input_ids r @ output_ids r)) pre \<and> length pre < length (origin_input_ids r @ output_ids r)"
proof -
  let ?ids = "origin_input_ids r @ output_ids r"
  obtain k where k: "adjust_max_prefix_ids r = Inr (take k ?ids, r\<lparr>fill_ids := ?ids\<rparr>)" "k < length ?ids"
    using adjust_key [OF assms(3,4)] by blast
  obtain res c' where m: "match_prefix (take k ?ids) c = Some (res, c')" "radix_ok c'" "\<not> disable c'" "cached c' = cached c"
    "cached c (take (length (device_indices res)) (take k ?ids)) (device_indices res)"
    "path c' (last_device_node res) (take (length (device_indices res)) (take k ?ids)) (device_indices res)"
    "\<forall>n ks vs. path c n ks vs \<longrightarrow> path c' n ks vs" "evictable_size c' = evictable_size c"
    using match_prefix_contract [OF assms(1,2), of "take k ?ids"] by (elim exE conjE) (rule that)
  have len: "length (device_indices res) \<le> k" using cached_length [OF assms(1) m(5)] by (simp del: take_append)
  then have "take (length (device_indices res)) (take k ?ids) = take (length (device_indices res)) ?ids"
    by (simp add: min.absorb1 del: take_append)
  then show ?thesis using m len k match_prefix_host [OF m(1)] unfolding init_next_round_input_def k(1)
    by - (rule exI [of _ "device_indices res"], rule exI [of _ "last_device_node res"], rule exI [of _ "Some (match_result.last_host_node res)"],
      rule exI [of _ c'], simp add: Let_def del: take_append)
qed

text \<open>
  C26: the number of tokens a request still has to run. For a request with at least one input token
  and a well-formed enabled radix cache, preparing the next round returns, the tokens to fill
  are the input followed by the output, the matched prefix is a cached prefix of them, and at
  least one token is left to compute.
\<close>

theorem next_round_has_token:
  assumes "radix_ok c" "\<not> disable c" "max_new_tokens (req_sampling_params r) = Some m"
    "origin_input_ids r \<noteq> []"
  shows "\<exists>r' c'. init_next_round_input r (Some c) = Some (r', Some c') \<and> radix_ok c' \<and> cached c' = cached c
     \<and> fill_ids r' = origin_input_ids r @ output_ids r
     \<and> cached c (take (length (prefix_indices r')) (fill_ids r')) (prefix_indices r')
     \<and> int (length (prefix_indices r')) + extend_input_len r' = int (length (fill_ids r')) \<and> 1 \<le> extend_input_len r'"
proof -
  obtain pre n h c' where "init_next_round_input r (Some c)
       = Some (r\<lparr>fill_ids := origin_input_ids r @ output_ids r, prefix_indices := pre, last_node := Some n, last_host_node := h, req_host_hit_length := 0,
                 extend_input_len := int (length (origin_input_ids r @ output_ids r)) - int (length pre)\<rparr>, Some c')"
    "radix_ok c'" "cached c' = cached c" "cached c (take (length pre) (origin_input_ids r @ output_ids r)) pre"
    "length pre < length (origin_input_ids r @ output_ids r)"
    using next_round_radix [OF assms(1,2) _ assms(4)] assms(3) by (simp del: take_append length_append) (elim exE conjE, rule that)
  then show ?thesis by (simp del: take_append)
qed

theorem next_round_has_token_witness:
  "\<exists>r' c'. init_next_round_input (new_req [] [] [5, 6] default_params False 0 False None None None None None)
     (Some (init_radix_cache 1 False False 0 int sum_list)) = Some (r', Some c') \<and> 1 \<le> extend_input_len r'"
proof -
  let ?c = "init_radix_cache 1 False False 0 int sum_list"
  let ?r = "new_req [] [] [5, 6] default_params False 0 False None None None None None"
  have "radix_ok ?c" "\<not> disable ?c" "max_new_tokens (req_sampling_params ?r) = Some 128" "origin_input_ids ?r \<noteq> []"
    using radix_ok_init [of 1] by (simp_all add: new_req_def default_params_def)
  from next_round_has_token [OF this] show ?thesis by blast
qed

end
