(* ===== verification/Memory_Pool.thy ===== *)
theory Memory_Pool
  imports Prelude
begin

text \<open>
  The pool that maps a request to its token locations (class \<open>ReqToTokenPool\<close> of
  \<^verbatim>\<open>mem_cache/memory_pool.py\<close>): a table of one row per request slot, and the list of free rows. The
  table is an \<open>int32\<close> tensor; slot numbers are far below \<open>2 ^ 31\<close>, so the conversion on writing
  keeps them and the entries are plain integers.
\<close>

section \<open>ReqToTokenPool\<close>

record req_to_token_pool =
  rows :: nat
  max_context_len :: nat
  req_to_token :: "int list list"
  free_slots :: "int list"

definition init_req_pool :: "nat \<Rightarrow> nat \<Rightarrow> req_to_token_pool" where
  "init_req_pool n ctx = \<lparr>rows = n, max_context_len = ctx,
     req_to_token = replicate n (replicate ctx 0), free_slots = map int [0..<n]\<rparr>"

definition read_row :: "int \<Rightarrow> int \<Rightarrow> req_to_token_pool \<Rightarrow> int list res" where
  \<comment> \<open>\<open>req_to_token[i, :n]\<close>\<close>
  "read_row i n p = res_bind (py_get (req_to_token p) i) (\<lambda>row. Inr (py_take n row))"

definition assign_slice :: "int \<Rightarrow> int \<Rightarrow> 'a list \<Rightarrow> 'a list \<Rightarrow> 'a list res" where
  \<comment> \<open>assignment to the slice \<open>a:b\<close> of a tensor: bounds are clamped, and the values must have the
    length of the slice or be a single one, which is broadcast\<close>
  "assign_slice a b vals row =
     (let i = py_bound (length row) a; j = max i (py_bound (length row) b);
          vs = (if length vals = 1 then replicate (j - i) (hd vals) else vals)
      in if length vs = j - i then Inr (take i row @ vs @ drop j row) else Inl RuntimeError)"

definition write_row :: "int \<Rightarrow> int \<Rightarrow> int \<Rightarrow> int list \<Rightarrow> req_to_token_pool \<Rightarrow> req_to_token_pool res" where
  \<comment> \<open>\<open>write((i, slice(a, b)), vals)\<close>\<close>
  "write_row i a b vals p =
     res_bind (py_get (req_to_token p) i) (\<lambda>row.
     res_bind (assign_slice a b vals row) (\<lambda>row'.
     res_bind (py_set (req_to_token p) i row') (\<lambda>t. Inr (p\<lparr>req_to_token := t\<rparr>))))"

fun write_cells :: "int list \<Rightarrow> int list \<Rightarrow> int list \<Rightarrow> req_to_token_pool \<Rightarrow> req_to_token_pool res" where
  \<comment> \<open>\<open>write((is, js), vals)\<close> for index tensors of the length of the values\<close>
  "write_cells (i # is) (j # js) (v # vs) p =
     res_bind (py_get (req_to_token p) i) (\<lambda>row.
     res_bind (py_set row j v) (\<lambda>row'.
     res_bind (py_set (req_to_token p) i row') (\<lambda>t. write_cells is js vs (p\<lparr>req_to_token := t\<rparr>))))"
| "write_cells [] [] [] p = Inr p"
| "write_cells _ _ _ p = Inl RuntimeError"

definition rows_available :: "req_to_token_pool \<Rightarrow> nat" where
  "rows_available p = length (free_slots p)"

definition alloc_rows :: "nat \<Rightarrow> req_to_token_pool \<Rightarrow> int list option \<times> req_to_token_pool" where
  "alloc_rows need_size p =
     (if need_size > length (free_slots p) then (None, p)
      else (Some (take need_size (free_slots p)), p\<lparr>free_slots := drop need_size (free_slots p)\<rparr>))"

definition free_row :: "int \<Rightarrow> req_to_token_pool \<Rightarrow> req_to_token_pool" where
  "free_row i p = p\<lparr>free_slots := free_slots p @ [i]\<rparr>"

definition free_rows :: "int list \<Rightarrow> req_to_token_pool \<Rightarrow> req_to_token_pool" where
  "free_rows is p = p\<lparr>free_slots := free_slots p @ is\<rparr>"

definition clear_rows :: "req_to_token_pool \<Rightarrow> req_to_token_pool" where
  "clear_rows p = p\<lparr>free_slots := map int [0..<rows p]\<rparr>"

section \<open>Reading what was written\<close>

definition pool_row :: "int \<Rightarrow> req_to_token_pool \<Rightarrow> int list" where
  \<comment> \<open>the row of a request, for an index in range\<close>
  "pool_row i p = req_to_token p ! nat i"

definition row_ok :: "int \<Rightarrow> req_to_token_pool \<Rightarrow> bool" where
  "row_ok i p \<longleftrightarrow> 0 \<le> i \<and> i < int (length (req_to_token p))"

lemma read_row_ok: "row_ok i p \<Longrightarrow> 0 \<le> n \<Longrightarrow> read_row i n p = Inr (take (nat n) (pool_row i p))"
  by (simp add: row_ok_def read_row_def py_get_def py_index_def py_take_nat pool_row_def)

lemma write_row_ok:
  assumes "row_ok i p" "a + length vals = b" "b \<le> length (pool_row i p)"
  shows "write_row i (int a) (int b) vals p = Inr (p\<lparr>req_to_token := (req_to_token p)
    [nat i := take a (pool_row i p) @ vals @ drop b (pool_row i p)]\<rparr>)"
proof -
  have "assign_slice (int a) (int b) vals (pool_row i p) = Inr (take a (pool_row i p) @ vals @ drop b (pool_row i p))"
    using assms(2,3) by (cases vals) (auto simp: assign_slice_def py_bound_def Let_def)
  then show ?thesis
    using assms(1) by (simp add: write_row_def row_ok_def py_get_def py_set_def py_index_def pool_row_def)
qed

end
