(* ===== verification/Radix_Locks.thy ===== *)
theory Radix_Locks
  imports Radix_Contract
begin

text \<open>
  The reference counts of the radix cache: \<open>inc_lock_ref\<close> and \<open>dec_lock_ref\<close> walk from a node to
  the root. Their loops are put in closed form over the set of ancestors of the node, from
  which the size counters, the invariant and the round trip follow.
\<close>

section \<open>Closed form of the two loops\<close>

definition ancestors :: "nat \<Rightarrow> nat set \<Rightarrow> (nat \<Rightarrow> int list) \<Rightarrow> nat \<Rightarrow> nat set" where
  \<comment> \<open>the node itself and the nodes above it, but the root\<close>
  "ancestors r L K n = {m \<in> L - {r}. prefix (K m) (K n)}"

definition add_locks :: "int \<Rightarrow> nat set \<Rightarrow> (nat \<Rightarrow> tree_node option) \<Rightarrow> nat \<Rightarrow> tree_node option" where
  "add_locks i A N m = (if m \<in> A then map_option (\<lambda>x. x\<lparr>lock_ref := lock_ref x + i\<rparr>) (N m) else N m)"

definition size_locked :: "int \<Rightarrow> nat set \<Rightarrow> (nat \<Rightarrow> tree_node option) \<Rightarrow> int" where
  "size_locked l A N = (\<Sum>m\<in>A. if lock_ref (nd N m) = l then int (length (nvalue (nd N m))) else 0)"

definition lock_moved :: "int \<Rightarrow> int \<Rightarrow> nat set \<Rightarrow> radix_cache \<Rightarrow> radix_cache" where
  \<comment> \<open>\<open>i\<close> more locks on each node of \<open>A\<close>, and \<open>s\<close> slots more evictable\<close>
  "lock_moved i s A c = c\<lparr>nodes := add_locks i A (nodes c), evictable_sz := evictable_sz c + s,
     protected_sz := protected_sz c - s\<rparr>"

lemma ancestors_root: "tree_wf ps r N L K V \<Longrightarrow> ancestors r L K r = {}"
proof -
  assume wf: "tree_wf ps r N L K V"
  have "m = r" if m: "m \<in> L" "prefix (K m) (K r)" for m
  proof (rule ccontr)
    assume "m \<noteq> r"
    then obtain p where "edge_ok ps N K V p m" using tree_wf_parent [OF wf m(1)] by blast
    then show False using m(2) tree_wfD(5) [OF wf] by (auto simp: edge_ok_def)
  qed
  then show ?thesis by (auto simp: ancestors_def)
qed

lemma same_path_same_node:
  assumes wf: "tree_wf ps r N L K V" and "m \<in> L" "n \<in> L" "K m = K n"
  shows "m = n"
proof (rule ccontr)
  assume "m \<noteq> n"
  have "(child_of N)\<^sup>*\<^sup>* m n" using prefix_descendant [OF wf assms(2,3)] assms(4) by simp
  then obtain y where y: "child_of N m y" "(child_of N)\<^sup>*\<^sup>* y n" using \<open>m \<noteq> n\<close> by (auto elim: converse_rtranclpE)
  have e: "y \<in> L" "edge_ok ps N K V m y" using child_of_edge [OF wf assms(2) y(1)] by simp_all
  have "prefix (K y) (K n)" using descendant_prefix [OF y(2) wf e(1)] by simp
  then show False using edge_ok_length [OF e(2)] assms(4) prefix_length_le by fastforce
qed

lemma ancestors_child:
  assumes wf: "tree_wf ps r N L K V" and n: "n \<in> L" "n \<noteq> r" and p: "p \<in> L" and e: "edge_ok ps N K V p n"
  shows "ancestors r L K n = insert n (ancestors r L K p)" "n \<notin> ancestors r L K p"
proof -
  have K: "K n = K p @ nkey (nd N n)" "nkey (nd N n) \<noteq> []" using e by (auto simp: edge_ok_def)
  have "prefix (K m) (K p) \<or> m = n" if m: "m \<in> L" "prefix (K m) (K n)" for m
  proof (cases "length (K m) \<le> length (K p)")
    case True
    then show ?thesis using m(2) K(1) by (metis prefix_length_prefix prefixI)
  next
    case False
    have "(child_of N)\<^sup>*\<^sup>* m n" using prefix_descendant [OF wf m(1) n(1) m(2)] .
    then show ?thesis
    proof (cases rule: rtranclp.cases)
      case (rtrancl_into_rtrancl q)
      have q: "q \<in> L" using descendant_prefix [OF rtrancl_into_rtrancl(1) wf m(1)] by simp
      have "edge_ok ps N K V q n" using child_of_edge [OF wf q rtrancl_into_rtrancl(2)] by simp
      then have "q = p" using e by (simp add: edge_ok_def)
      then show ?thesis using descendant_prefix [OF rtrancl_into_rtrancl(1) wf m(1)] by simp
    qed simp
  qed
  moreover have "prefix (K p) (K n)" using K by simp
  ultimately show "ancestors r L K n = insert n (ancestors r L K p)"
    using n by (auto simp: ancestors_def intro: prefix_order.trans)
  show "n \<notin> ancestors r L K p" using K by (auto simp: ancestors_def dest: prefix_length_le)
qed

lemma add_locks_wf:
  assumes "tree_wf ps r N L K V"
  shows "tree_wf ps r (add_locks i A N) L K V"
proof (rule tree_wf_cong [OF assms])
  fix n assume "n \<in> L"
  then obtain x where "N n = Some x" using tree_wfD(4) [OF assms] by blast
  then show "add_locks i A N n \<noteq> None \<and> children (nd (add_locks i A N) n) = children (nd N n)
      \<and> parent (nd (add_locks i A N) n) = parent (nd N n) \<and> nkey (nd (add_locks i A N) n) = nkey (nd N n)
      \<and> nvalue (nd (add_locks i A N) n) = nvalue (nd N n)" by (simp add: add_locks_def)
qed

lemma add_locks_insert: "n \<notin> A \<Longrightarrow> add_locks i A (add_locks i {n} N) = add_locks i (insert n A) N"
  by (auto simp: add_locks_def fun_eq_iff)

lemma modify_is_add_locks:
  "nodes (modify_node n (\<lambda>x. x\<lparr>lock_ref := lock_ref x + i\<rparr>) c) = add_locks i {n} (nodes c)"
  by (auto simp: add_locks_def fun_eq_iff)

lemma size_locked_insert:
  assumes "finite A" "n \<notin> A"
  shows "size_locked l (insert n A) N = (if lock_ref (nd N n) = l then int (length (nvalue (nd N n))) else 0)
    + size_locked l A (add_locks i {n} N)"
proof -
  have "size_locked l A (add_locks i {n} N) = size_locked l A N"
    unfolding size_locked_def using assms(2) by (intro sum.cong) (auto simp: add_locks_def)
  then show ?thesis using assms by (simp add: size_locked_def)
qed

lemma lock_moved_step:
  assumes "finite A" "n \<notin> A" and l: "s = (if lock_ref (nd (nodes c) n) = l then int (length (nvalue (nd (nodes c) n))) else 0)"
  shows "lock_moved i (g * size_locked l A (nodes (lock_moved i (g * s) {n} c))) A (lock_moved i (g * s) {n} c)
     = lock_moved i (g * size_locked l (insert n A) (nodes c)) (insert n A) c"
  using size_locked_insert [OF assms(1,2), of l "nodes c" i] add_locks_insert [OF assms(2)] l
  by (simp add: lock_moved_def algebra_simps)

lemma lock_moved_fields [simp]:
  "page_size (lock_moved i s A c) = page_size c" "root_node (lock_moved i s A c) = root_node c"
  "disable (lock_moved i s A c) = disable c" "counter (lock_moved i s A c) = counter c"
  "nodes (lock_moved i s A c) = add_locks i A (nodes c)"
  by (simp_all add: lock_moved_def)

lemma lock_moved_none: "lock_moved i 0 {} c = c"
proof -
  have "add_locks i {} (nodes c) = nodes c" by (auto simp: add_locks_def)
  then show ?thesis by (simp add: lock_moved_def)
qed

lemma inc_step:
  "nodes c n = Some x \<Longrightarrow> s = (if lock_ref x = 0 then int (length (nvalue x)) else 0) \<Longrightarrow>
   modify_node n (\<lambda>x. x\<lparr>lock_ref := lock_ref x + 1\<rparr>)
     (if lock_ref x = 0 then c\<lparr>evictable_sz := evictable_sz c - int (length (nvalue x)),
        protected_sz := protected_sz c + int (length (nvalue x))\<rparr> else c)
   = lock_moved 1 (- 1 * s) {n} c"
  by (auto simp: modify_node_def lock_moved_def add_locks_def fun_eq_iff intro!: radix_cache.equality)

lemma dec_step:
  "nodes c n = Some x \<Longrightarrow> s = (if lock_ref x = 1 then int (length (nvalue x)) else 0) \<Longrightarrow>
   modify_node n (\<lambda>x. x\<lparr>lock_ref := lock_ref x - 1\<rparr>)
     (if lock_ref x = 1 then c\<lparr>evictable_sz := evictable_sz c + int (length (nvalue x)),
        protected_sz := protected_sz c - int (length (nvalue x))\<rparr> else c)
   = lock_moved (- 1) (1 * s) {n} c"
  by (auto simp: modify_node_def lock_moved_def add_locks_def fun_eq_iff intro!: radix_cache.equality)

lemma inc_lock_loop_spec:
  assumes "tree_wf (page_size c) (root_node c) (nodes c) L K V" "n \<in> L"
  defines "A \<equiv> ancestors (root_node c) L K n"
  shows "inc_lock_loop n d c = Some (d - size_locked 0 A (nodes c), lock_moved 1 (- 1 * size_locked 0 A (nodes c)) A c)"
  using assms(1,2) unfolding A_def
proof (induction "length (K n)" arbitrary: n c d rule: less_induct)
  case less
  note wf = less.prems(1) and n = less.prems(2)
  show ?case
  proof (cases "n = root_node c")
    case True
    then show ?thesis using ancestors_root [OF wf]
      by (subst inc_lock_loop.simps) (simp add: size_locked_def lock_moved_none)
  next
    case False
    obtain p where p: "p \<in> L" and e: "edge_ok (page_size c) (nodes c) K V p n" using tree_wf_parent [OF wf n False] by blast
    obtain x where x: "nodes c n = Some x" using tree_wfD(4) [OF wf n] by blast
    define s where "s = (if lock_ref x = 0 then int (length (nvalue x)) else 0)"
    let ?c = "lock_moved 1 (- 1 * s) {n} c" and ?A = "ancestors (root_node c) L K p"
    note A = ancestors_child [OF wf n False p e]
    have fin: "finite ?A" using tree_wfD(2) [OF wf] by (simp add: ancestors_def)
    have ih: "inc_lock_loop p (d - s) ?c = Some (d - s - size_locked 0 ?A (nodes ?c),
        lock_moved 1 (- 1 * size_locked 0 ?A (nodes ?c)) ?A ?c)"
      using less.hyps [OF edge_ok_length [OF e], of ?c "d - s"] add_locks_wf [OF wf] p by simp
    have ds: "(if lock_ref x = 0 then d - int (length (nvalue x)) else d) = d - s" by (simp add: s_def)
    have "inc_lock_loop n d c = inc_lock_loop p (d - s) ?c"
      using False x e inc_step [OF x s_def] ds by (subst inc_lock_loop.simps) (simp add: edge_ok_def Let_def)
    moreover have "s + size_locked 0 ?A (nodes ?c) = size_locked 0 (insert n ?A) (nodes c)"
      using size_locked_insert [OF fin A(2), of 0 "nodes c" 1] x by (simp add: s_def)
    moreover have "s = (if lock_ref (nd (nodes c) n) = 0 then int (length (nvalue (nd (nodes c) n))) else 0)"
      by (simp add: s_def x)
    note lock_moved_step [OF fin A(2) this, of 1 "- 1"]
    ultimately show ?thesis unfolding A(1) using ih by simp
  qed
qed

lemma dec_lock_loop_spec:
  assumes "tree_wf (page_size c) (root_node c) (nodes c) L K V" "n \<in> L"
  defines "A \<equiv> ancestors (root_node c) L K n"
  shows "dec_lock_loop n d c = Some (d + size_locked 1 A (nodes c), lock_moved (- 1) (1 * size_locked 1 A (nodes c)) A c)"
  using assms(1,2) unfolding A_def
proof (induction "length (K n)" arbitrary: n c d rule: less_induct)
  case less
  note wf = less.prems(1) and n = less.prems(2)
  show ?case
  proof (cases "n = root_node c")
    case True
    then show ?thesis using ancestors_root [OF wf]
      by (subst dec_lock_loop.simps) (simp add: size_locked_def lock_moved_none)
  next
    case False
    obtain p where p: "p \<in> L" and e: "edge_ok (page_size c) (nodes c) K V p n" using tree_wf_parent [OF wf n False] by blast
    obtain x where x: "nodes c n = Some x" using tree_wfD(4) [OF wf n] by blast
    define s where "s = (if lock_ref x = 1 then int (length (nvalue x)) else 0)"
    let ?c = "lock_moved (- 1) (1 * s) {n} c" and ?A = "ancestors (root_node c) L K p"
    note A = ancestors_child [OF wf n False p e]
    have fin: "finite ?A" using tree_wfD(2) [OF wf] by (simp add: ancestors_def)
    have ih: "dec_lock_loop p (d + s) ?c = Some (d + s + size_locked 1 ?A (nodes ?c),
        lock_moved (- 1) (1 * size_locked 1 ?A (nodes ?c)) ?A ?c)"
      using less.hyps [OF edge_ok_length [OF e], of ?c "d + s"] add_locks_wf [OF wf] p by simp
    have ds: "(if lock_ref x = 1 then d + int (length (nvalue x)) else d) = d + s" by (simp add: s_def)
    have "dec_lock_loop n d c = dec_lock_loop p (d + s) ?c"
      using False x e dec_step [OF x s_def] ds by (subst dec_lock_loop.simps) (simp add: edge_ok_def Let_def)
    moreover have "s + size_locked 1 ?A (nodes ?c) = size_locked 1 (insert n ?A) (nodes c)"
      using size_locked_insert [OF fin A(2), of 1 "nodes c" "- 1"] x by (simp add: s_def)
    moreover have "s = (if lock_ref (nd (nodes c) n) = 1 then int (length (nvalue (nd (nodes c) n))) else 0)"
      by (simp add: s_def x)
    note lock_moved_step [OF fin A(2) this, of "- 1" 1]
    ultimately show ?thesis unfolding A(1) using ih by simp
  qed
qed

section \<open>Lock counts and sizes\<close>

lemma ancestor_children:
  assumes wf: "tree_wf ps r N L K V" and n: "n \<in> L" and q: "q \<in> L" "q \<noteq> r"
  shows "card {m \<in> ancestors r L K n. parent (nd N m) = Some q} = (if q \<in> ancestors r L K n \<and> q \<noteq> n then 1 else 0)"
proof -
  let ?S = "{m \<in> ancestors r L K n. parent (nd N m) = Some q}"
  have S: "edge_ok ps N K V q m \<and> m \<in> L \<and> prefix (K m) (K n) \<and> prefix (K q) (K m)" if "m \<in> ?S" for m
    using that tree_wf_parent_in(2) [OF wf, of m q] by (auto simp: ancestors_def edge_ok_def)
  show ?thesis
  proof (cases "q \<in> ancestors r L K n \<and> q \<noteq> n")
    case True
    then have "prefix (K q) (K n)" "K q \<noteq> K n"
      using same_path_same_node [OF wf q(1) n] by (auto simp: ancestors_def)
    then have "length (K q) < length (K n)" by (simp add: prefix_length_less strict_prefixI)
    from child_towards [OF wf q(1) n \<open>prefix (K q) (K n)\<close> this]
    obtain y where y: "y \<in> L" "edge_ok ps N K V q y" "prefix (K y) (K n)" by blast
    have "y \<noteq> r" using y(2) tree_wfD(9) [OF wf] by (auto simp: edge_ok_def)
    then have "y \<in> ?S" using y by (auto simp: ancestors_def edge_ok_def)
    moreover have "m = y" if "m \<in> ?S" for m
    proof (rule edge_ok_unique [OF wf q(1)])
      show "edge_ok ps N K V q m" "edge_ok ps N K V q y" using S [OF that] y by simp_all
      show "take ps (nkey (nd N m)) = take ps (nkey (nd N y))"
        using edge_ok_page [OF y(2,3)] edge_ok_page [of ps N K V q m "K n"] S [OF that] by simp
    qed
    ultimately have "?S = {y}" by blast
    then show ?thesis using True by simp
  next
    case False
    have "?S = {}"
    proof (rule ccontr)
      assume "?S \<noteq> {}"
      then obtain m where m: "edge_ok ps N K V q m" "prefix (K m) (K n)" "prefix (K q) (K m)" using S by blast
      then have "q \<in> ancestors r L K n" using q by (auto simp: ancestors_def intro: prefix_order.trans)
      moreover have "q \<noteq> n" using edge_ok_length [OF m(1)] prefix_length_le [OF m(2)] by auto
      ultimately show False using False by blast
    qed
    then show ?thesis using False by (simp only: card.empty if_False)
  qed
qed

lemma add_locks_fields:
  assumes "N m = Some x"
  shows "lock_ref (nd (add_locks i A N) m) = lock_ref x + (if m \<in> A then i else 0)"
    "parent (nd (add_locks i A N) m) = parent x" "nvalue (nd (add_locks i A N) m) = nvalue x"
  using assms by (simp_all add: add_locks_def)

lemma child_locks_add:
  assumes wf: "tree_wf ps r N L K V" and n: "n \<in> L" and q: "q \<in> L" "q \<noteq> r"
  defines "A \<equiv> ancestors r L K n"
  shows "child_locks (add_locks i A N) L q = child_locks N L q + (if q \<in> A \<and> q \<noteq> n then i else 0)"
proof -
  have F: "lock_ref (nd (add_locks i A N) m) = lock_ref (nd N m) + (if m \<in> A then i else 0) \<and> parent (nd (add_locks i A N) m) = parent (nd N m)"
    if "m \<in> L" for m using tree_wfD(4) [OF wf that] add_locks_fields by metis
  let ?C = "{m \<in> L. parent (nd N m) = Some q}"
  have "finite ?C" using tree_wfD(2) [OF wf] by simp
  have "child_locks (add_locks i A N) L q = (\<Sum>m\<in>?C. lock_ref (nd N m) + (if m \<in> A then i else 0))"
    unfolding child_locks_def using F by (intro sum.cong) auto
  also have "\<dots> = child_locks N L q + i * int (card (?C \<inter> A))"
    using \<open>finite ?C\<close> by (simp add: child_locks_def sum.distrib sum.If_cases)
  also have "?C \<inter> A = {m \<in> A. parent (nd N m) = Some q}" by (auto simp: A_def ancestors_def)
  finally show ?thesis using ancestor_children [OF wf n q] by (simp add: A_def)
qed

lemma size_where_add:
  fixes n :: nat
  assumes wf: "tree_wf ps r N L K V"
  defines "A \<equiv> ancestors r L K n"
  shows "size_where P r (add_locks i A N) L = size_where P r N L
     + (\<Sum>m\<in>A. (if P (lock_ref (nd N m) + i) then int (length (nvalue (nd N m))) else 0)
              - (if P (lock_ref (nd N m)) then int (length (nvalue (nd N m))) else 0))"
proof -
  let ?f = "\<lambda>N m. if P (lock_ref (nd N m)) then int (length (nvalue (nd N m))) else 0"
  let ?g = "\<lambda>m. (if P (lock_ref (nd N m) + i) then int (length (nvalue (nd N m))) else 0) - ?f N m"
  have fin: "finite L" using tree_wfD(2) [OF wf] .
  have sub: "A \<subseteq> L - {r}" by (auto simp: A_def ancestors_def)
  have "?f (add_locks i A N) m = ?f N m + (if m \<in> A then ?g m else 0)" if "m \<in> L - {r}" for m
  proof -
    obtain x where "N m = Some x" using tree_wfD(4) [OF wf] \<open>m \<in> L - {r}\<close> by blast
    then show ?thesis using add_locks_fields [of N m x] by simp
  qed
  then have "size_where P r (add_locks i A N) L = (\<Sum>m\<in>L - {r}. ?f N m + (if m \<in> A then ?g m else 0))"
    unfolding size_where_def by (intro sum.cong) auto
  also have "\<dots> = size_where P r N L + (\<Sum>m\<in>L - {r}. if m \<in> A then ?g m else 0)"
    by (simp only: size_where_def sum.distrib)
  also have "(\<Sum>m\<in>L - {r}. if m \<in> A then ?g m else 0) = sum ?g ((L - {r}) \<inter> A)"
    using fin by (simp only: sum.inter_restrict finite_Diff)
  also have "(L - {r}) \<inter> A = A" using sub by blast
  finally show ?thesis .
qed

lemma lock_mono:
  assumes wf: "tree_wf ps r N L K V" and lw: "lock_wf r N L" and d: "(child_of N)\<^sup>*\<^sup>* q n" and q: "q \<in> L" "q \<noteq> r"
  shows "lock_ref (nd N n) \<le> lock_ref (nd N q)"
  using d
proof (induction rule: rtranclp_induct)
  case (step m n)
  have m: "m \<in> L" "prefix (K q) (K m)" using descendant_prefix [OF step.hyps(1) wf q(1)] by auto
  have "m \<noteq> r"
  proof
    assume "m = r"
    then have "K q = K r" using m(2) tree_wfD(5) [OF wf] by simp
    then show False using same_path_same_node [OF wf q(1) tree_wfD(3) [OF wf]] q(2) by simp
  qed
  have e: "n \<in> L" "parent (nd N n) = Some m" using child_of_edge [OF wf m(1) step.hyps(2)] by (auto simp: edge_ok_def)
  have "lock_ref (nd N n) \<le> child_locks N L m"
    unfolding child_locks_def using e lw tree_wfD(2) [OF wf] by (intro member_le_sum) (auto simp: lock_wf_def)
  also have "\<dots> \<le> lock_ref (nd N m)" using lw m(1) \<open>m \<noteq> r\<close> by (simp add: lock_wf_def)
  finally show ?case using step.IH by simp
qed simp

lemma own_locks_moved:
  assumes inv: "radix_inv c L K V" and n: "n \<in> L" and q: "q \<in> L" "q \<noteq> root_node c"
  defines "A \<equiv> ancestors (root_node c) L K n"
  shows "own_locks (lock_moved i s A c) L q = own_locks c L q + (if q = n then i else 0)"
proof -
  note wf = radix_invD(1) [OF inv]
  obtain x where x: "nodes c q = Some x" using tree_wfD(4) [OF wf q(1)] by blast
  have "n \<in> A" if "q = n" using q that by (auto simp: A_def ancestors_def)
  then show ?thesis using child_locks_add [OF wf n q, of i] add_locks_fields(1) [where N = "nodes c", OF x, of i A] x
    by (auto simp: own_locks_def A_def)
qed

lemma lock_moved_inv:
  assumes inv: "radix_inv c L K V" and n: "n \<in> L"
  defines "A \<equiv> ancestors (root_node c) L K n"
  assumes own: "\<And>q. q \<in> L \<Longrightarrow> q \<noteq> root_node c \<Longrightarrow> 0 \<le> own_locks c L q + (if q = n then i else 0)"
    and nonneg: "\<And>m. m \<in> A \<Longrightarrow> 0 \<le> lock_ref (nd (nodes c) m) + i"
    and ev: "(\<Sum>m\<in>A. (if lock_ref (nd (nodes c) m) + i = 0 then int (length (nvalue (nd (nodes c) m))) else 0)
              - (if lock_ref (nd (nodes c) m) = 0 then int (length (nvalue (nd (nodes c) m))) else 0)) = s"
    and pr: "(\<Sum>m\<in>A. (if lock_ref (nd (nodes c) m) + i \<noteq> 0 then int (length (nvalue (nd (nodes c) m))) else 0)
              - (if lock_ref (nd (nodes c) m) \<noteq> 0 then int (length (nvalue (nd (nodes c) m))) else 0)) = - s"
  shows "radix_inv (lock_moved i s A c) L K V"
proof -
  note wf = radix_invD(1) [OF inv] and lw = radix_invD(3) [OF inv]
  let ?N = "add_locks i A (nodes c)"
  have lock: "0 \<le> lock_ref (nd ?N q)" if "q \<in> L" for q
  proof -
    obtain x where x: "nodes c q = Some x" using tree_wfD(4) [OF wf \<open>q \<in> L\<close>] by blast
    then show ?thesis using add_locks_fields(1) [where N = "nodes c", OF x, of i A] nonneg [of q] lw that by (auto simp: lock_wf_def)
  qed
  have "child_locks ?N L q \<le> lock_ref (nd ?N q)" if q: "q \<in> L" "q \<noteq> root_node c" for q
    using own_locks_moved [OF inv n q, of i s] own [OF q] by (simp add: own_locks_def A_def)
  then have "lock_wf (root_node c) ?N L" using lock by (auto simp: lock_wf_def)
  moreover have "\<forall>m\<ge>counter c. ?N m = None" using radix_invD(2) [OF inv] by (auto simp: add_locks_def)
  ultimately show ?thesis
    using add_locks_wf [OF wf, of i A] size_where_add [OF wf, of _ i n] ev pr radix_invD(4,5) [OF inv]
    by (simp add: radix_inv_def lock_moved_def A_def)
qed

lemma inc_inv:
  assumes inv: "radix_inv c L K V" and n: "n \<in> L"
  defines "A \<equiv> ancestors (root_node c) L K n"
  shows "radix_inv (lock_moved 1 (- 1 * size_locked 0 A (nodes c)) A c) L K V"
  unfolding A_def
proof (rule lock_moved_inv [OF inv n])
  have nn: "0 \<le> lock_ref (nd (nodes c) m)" if "m \<in> L" for m using radix_invD(3) [OF inv] that by (simp add: lock_wf_def)
  show "0 \<le> own_locks c L q + (if q = n then 1 else 0)" if "q \<in> L" "q \<noteq> root_node c" for q
    using radix_invD(3) [OF inv] that by (simp add: own_locks_def lock_wf_def)
  let ?A = "ancestors (root_node c) L K n" and ?l = "\<lambda>m. int (length (nvalue (nd (nodes c) m)))"
  have A: "0 \<le> lock_ref (nd (nodes c) m)" if "m \<in> ?A" for m using nn [of m] that by (simp add: ancestors_def)
  then show "0 \<le> lock_ref (nd (nodes c) m) + 1" if "m \<in> ?A" for m using that by fastforce
  show "(\<Sum>m\<in>?A. (if lock_ref (nd (nodes c) m) + 1 = 0 then ?l m else 0)
      - (if lock_ref (nd (nodes c) m) = 0 then ?l m else 0)) = - 1 * size_locked 0 ?A (nodes c)"
    unfolding size_locked_def sum_distrib_left using A by (intro sum.cong) fastforce+
  show "(\<Sum>m\<in>?A. (if lock_ref (nd (nodes c) m) + 1 \<noteq> 0 then ?l m else 0)
      - (if lock_ref (nd (nodes c) m) \<noteq> 0 then ?l m else 0)) = - (- 1 * size_locked 0 ?A (nodes c))"
    unfolding size_locked_def minus_mult_left minus_minus mult_1 using A by (intro sum.cong) fastforce+
qed

lemma dec_inv:
  assumes inv: "radix_inv c L K V" and n: "n \<in> L" and own: "n = root_node c \<or> 1 \<le> own_locks c L n"
  defines "A \<equiv> ancestors (root_node c) L K n"
  shows "radix_inv (lock_moved (- 1) (1 * size_locked 1 A (nodes c)) A c) L K V"
  unfolding A_def
proof (rule lock_moved_inv [OF inv n])
  note wf = radix_invD(1) [OF inv] and lw = radix_invD(3) [OF inv]
  show "0 \<le> own_locks c L q + (if q = n then - 1 else 0)" if "q \<in> L" "q \<noteq> root_node c" for q
    using lw that own by (auto simp: own_locks_def lock_wf_def)
  let ?A = "ancestors (root_node c) L K n" and ?l = "\<lambda>m. int (length (nvalue (nd (nodes c) m)))"
  have A: "1 \<le> lock_ref (nd (nodes c) m)" if "m \<in> ?A" for m
  proof -
    have m: "m \<in> L" "m \<noteq> root_node c" "prefix (K m) (K n)" using that by (auto simp: ancestors_def)
    have "n \<noteq> root_node c" using that ancestors_root [OF wf] by auto
    have "0 \<le> child_locks (nodes c) L n" unfolding child_locks_def using lw by (intro sum_nonneg) (auto simp: lock_wf_def)
    then have "1 \<le> lock_ref (nd (nodes c) n)" using own \<open>n \<noteq> root_node c\<close> by (simp add: own_locks_def)
    then show ?thesis using lock_mono [OF wf lw prefix_descendant [OF wf m(1) n m(3)] m(1,2)] by simp
  qed
  then show "0 \<le> lock_ref (nd (nodes c) m) + - 1" if "m \<in> ?A" for m using that by fastforce
  show "(\<Sum>m\<in>?A. (if lock_ref (nd (nodes c) m) + - 1 = 0 then ?l m else 0)
      - (if lock_ref (nd (nodes c) m) = 0 then ?l m else 0)) = 1 * size_locked 1 ?A (nodes c)"
    unfolding size_locked_def mult_1 using A by (intro sum.cong) fastforce+
  show "(\<Sum>m\<in>?A. (if lock_ref (nd (nodes c) m) + - 1 \<noteq> 0 then ?l m else 0)
      - (if lock_ref (nd (nodes c) m) \<noteq> 0 then ?l m else 0)) = - (1 * size_locked 1 ?A (nodes c))"
    unfolding size_locked_def mult_1 sum_negf [symmetric] using A by (intro sum.cong) fastforce+
qed

section \<open>Properties\<close>

definition live :: "radix_cache \<Rightarrow> nat set" where
  "live c = {n. \<exists>ks vs. path c n ks vs}"

lemma live_eq: "radix_inv c L K V \<Longrightarrow> live c = L"
  using path_iff [OF radix_invD(1)] unfolding live_def by blast

definition locks_on :: "radix_cache \<Rightarrow> nat \<Rightarrow> int" where
  \<comment> \<open>how many locks are held on the node itself; none on a node that is not in the tree\<close>
  "locks_on c n = (if n \<in> live c then own_locks c (live c) n else 0)"

lemma lock_moved_path:
  assumes inv: "radix_inv c L K V" "radix_inv (lock_moved i s A c) L K V"
  shows "path (lock_moved i s A c) = path c"
  unfolding fun_eq_iff path_iff [OF radix_invD(1) [OF inv(1)]] path_iff [OF radix_invD(1) [OF inv(2)]] by simp

lemma lock_moved_back:
  assumes wf: "tree_wf ps r (nodes c) L K V" and A: "A \<subseteq> L"
  shows "size_locked 1 A (add_locks 1 A (nodes c)) = size_locked 0 A (nodes c)"
    and "lock_moved (- 1) s A (lock_moved 1 (- s) A c) = c"
proof -
  have "nd (add_locks 1 A (nodes c)) m = (nd (nodes c) m)\<lparr>lock_ref := lock_ref (nd (nodes c) m) + 1\<rparr>" if m: "m \<in> A" for m
  proof -
    obtain x where "nodes c m = Some x" using tree_wfD(4) [OF wf] m A by blast
    then show ?thesis using m by (simp add: add_locks_def)
  qed
  then show "size_locked 1 A (add_locks 1 A (nodes c)) = size_locked 0 A (nodes c)"
    unfolding size_locked_def by (intro sum.cong) auto
  have "add_locks (- 1) A (add_locks 1 A (nodes c)) = nodes c"
    by (auto simp: add_locks_def fun_eq_iff option.map_comp o_def map_option_idI split: option.splits)
  then show "lock_moved (- 1) s A (lock_moved 1 (- s) A c) = c" by (simp add: lock_moved_def)
qed

lemma node_example: "\<exists>c n vs. radix_ok c \<and> \<not> disable c \<and> path c n [1, 2, 3, 4] vs"
proof -
  obtain c where c: "radix_ok c" "\<not> disable c" and ps: "page_size c = 2" and ex:
    "\<forall>ks vs. cached c ks vs \<longleftrightarrow> even (length ks) \<and> prefix ks [1, 2, 3, 4] \<and> vs = take (length ks) [11, 12, 13, 14]"
    using radix_example by blast
  obtain r c' where m: "match_prefix [1, 2, 3, 4] c = Some (r, c')" "radix_ok c'" "\<not> disable c'"
    "\<forall>ks vs. cached c ks vs \<longrightarrow> prefix ks [1, 2, 3, 4] \<longrightarrow> length ks \<le> length (device_indices r)"
    "path c' (last_device_node r) (take (length (device_indices r)) [1, 2, 3, 4]) (device_indices r)"
    using match_prefix_contract [OF c, of "[1, 2, 3, 4]"] by (elim exE conjE) (rule that)
  have "4 \<le> length (device_indices r)" using m(4) ex [rule_format, of "[1, 2, 3, 4]" "[11, 12, 13, 14]"] by auto
  then have "path c' (last_device_node r) [1, 2, 3, 4] (device_indices r)" using m(5) by simp
  then show ?thesis using m(2,3) by blast
qed

lemma locked_node_example:
  "\<exists>c n vs. radix_ok c \<and> \<not> disable c \<and> path c n [1, 2, 3, 4] vs \<and> 1 \<le> own_locks c (live c) n"
proof -
  obtain c n vs where c: "radix_ok c" "\<not> disable c" "path c n [1, 2, 3, 4] vs" using node_example by blast
  obtain L K V where inv: "radix_inv c L K V" using c(1) by (auto simp: radix_ok_def)
  note wf = radix_invD(1) [OF inv]
  have n: "n \<in> L" "K n = [1, 2, 3, 4]" "n \<noteq> root_node c" using c(3) path_iff [OF wf] tree_wfD(5) [OF wf] by auto
  let ?A = "ancestors (root_node c) L K n"
  let ?c = "lock_moved 1 (- 1 * size_locked 0 ?A (nodes c)) ?A c"
  have inv': "radix_inv ?c L K V" using inc_inv [OF inv n(1)] .
  have "0 \<le> own_locks c L n" using radix_invD(3) [OF inv] n by (simp add: own_locks_def lock_wf_def)
  then have "1 \<le> own_locks ?c (live ?c) n" unfolding live_eq [OF inv'] using own_locks_moved [OF inv n(1) n(1,3)] by simp
  moreover have "path ?c n [1, 2, 3, 4] vs" unfolding lock_moved_path [OF inv inv'] by (rule c(3))
  ultimately show ?thesis using inv' c(2) unfolding radix_ok_def by (intro exI [of _ ?c]) auto
qed

lemma inc_dec_restore:
  assumes "radix_ok c" "\<not> disable c" "path c n ks vs"
  shows "\<exists>d c1. inc_lock_ref n c = Some (d, c1) \<and> dec_lock_ref n c1 = Some (- d, c) \<and> radix_ok c1
     \<and> evictable_size c1 = evictable_size c + d \<and> protected_size c1 = protected_size c - d \<and> path c1 = path c
     \<and> (\<forall>m ks' vs'. path c m ks' vs' \<longrightarrow> prefix ks' ks \<longrightarrow> m \<noteq> root_node c \<longrightarrow> 0 < lock_ref (the (nodes c1 m)))
     \<and> disable c1 = disable c \<and> page_size c1 = page_size c \<and> root_node c1 = root_node c"
proof -
  obtain L K V where inv: "radix_inv c L K V" using assms(1) by (auto simp: radix_ok_def)
  note wf = radix_invD(1) [OF inv]
  have n: "n \<in> L" "ks = K n" using assms(3) path_iff [OF wf] by auto
  let ?A = "ancestors (root_node c) L K n"
  let ?s = "size_locked 0 ?A (nodes c)"
  define c1 where "c1 = lock_moved 1 (- ?s) ?A c"
  have A: "?A \<subseteq> L" by (auto simp: ancestors_def)
  have inv1: "radix_inv c1 L K V" using inc_inv [OF inv n(1)] by (simp add: c1_def)
  have "inc_lock_ref n c = Some (- ?s, c1)"
    using inc_lock_loop_spec [OF wf n(1), of 0] assms(2) by (simp add: inc_lock_ref_def c1_def)
  moreover have "dec_lock_ref n c1 = Some (?s, c)"
    using dec_lock_loop_spec [OF radix_invD(1) [OF inv1] n(1), of 0] assms(2) lock_moved_back [OF wf A]
    by (simp add: dec_lock_ref_def c1_def)
  moreover have "path c1 = path c" using lock_moved_path [OF inv] inv1 by (simp add: c1_def)
  moreover have "0 < lock_ref (nd (nodes c1) m)" if "path c m ks' vs'" "prefix ks' ks" "m \<noteq> root_node c" for m ks' vs'
  proof -
    have m: "m \<in> ?A" "m \<in> L" using that path_iff [OF wf] n(2) by (auto simp: ancestors_def)
    obtain x where "nodes c m = Some x" using tree_wfD(4) [OF wf m(2)] by blast
    then show ?thesis using m radix_invD(3) [OF inv] by (auto simp: c1_def add_locks_def lock_wf_def)
  qed
  ultimately show ?thesis
    using inv1 unfolding radix_ok_def by (intro exI [of _ "- ?s"] exI [of _ c1])
      (auto simp: c1_def lock_moved_def evictable_size_def protected_size_def)
qed

text \<open>
  C11: locking a node that a request holds and unlocking it again restores the cache exactly, and
  the two calls return opposite changes of the evictable size. In between the invariant holds,
  the slots of the path have moved from the evictable to the protected size, every node of
  the path is locked, and nothing else has changed its path or what is cached.
\<close>

theorem lock_roundtrip:
  assumes "radix_ok c" "\<not> disable c" "path c n ks vs"
  shows "\<exists>d c1. inc_lock_ref n c = Some (d, c1) \<and> dec_lock_ref n c1 = Some (- d, c) \<and> radix_ok c1
     \<and> evictable_size c1 = evictable_size c + d \<and> protected_size c1 = protected_size c - d \<and> path c1 = path c
     \<and> (\<forall>m ks' vs'. path c m ks' vs' \<longrightarrow> prefix ks' ks \<longrightarrow> m \<noteq> root_node c \<longrightarrow> 0 < lock_ref (the (nodes c1 m)))"
  using inc_dec_restore [OF assms] by (elim exE conjE) (intro exI conjI; assumption)

theorem lock_roundtrip_witness:
  "\<exists>c d c1 n vs. path c n [1, 2, 3, 4] vs \<and> inc_lock_ref n c = Some (d, c1) \<and> dec_lock_ref n c1 = Some (- d, c)"
proof -
  obtain c n vs where c: "radix_ok c" "\<not> disable c" "path c n [1, 2, 3, 4] vs" using node_example by blast
  from lock_roundtrip [OF c] show ?thesis using c(3) by (elim exE conjE) blast
qed

lemma dec_lock_contract:
  assumes "radix_ok c" "\<not> disable c" "path c n ks vs" "n = root_node c \<or> 1 \<le> own_locks c (live c) n"
  shows "\<exists>d c'. dec_lock_ref n c = Some (d, c') \<and> radix_ok c' \<and> path c' = path c
     \<and> evictable_size c' = evictable_size c + d \<and> protected_size c' = protected_size c - d
     \<and> (\<forall>q\<in>live c. q \<noteq> root_node c \<longrightarrow> own_locks c' (live c') q = own_locks c (live c) q - (if q = n then 1 else 0))
     \<and> disable c' = disable c \<and> root_node c' = root_node c \<and> page_size c' = page_size c"
proof -
  obtain L K V where inv: "radix_inv c L K V" using assms(1) by (auto simp: radix_ok_def)
  note wf = radix_invD(1) [OF inv]
  have n: "n \<in> L" using assms(3) path_iff [OF wf] by auto
  let ?A = "ancestors (root_node c) L K n"
  let ?s = "size_locked 1 ?A (nodes c)"
  define c' where "c' = lock_moved (- 1) ?s ?A c"
  have inv': "radix_inv c' L K V" using dec_inv [OF inv n] assms(4) live_eq [OF inv] by (simp add: c'_def)
  have "dec_lock_ref n c = Some (?s, c')"
    using dec_lock_loop_spec [OF wf n, of 0] assms(2) by (simp add: dec_lock_ref_def c'_def)
  moreover have "own_locks c' (live c') q = own_locks c (live c) q - (if q = n then 1 else 0)"
    if "q \<in> live c" "q \<noteq> root_node c" for q
    using own_locks_moved [OF inv n, of q "- 1" ?s] that unfolding live_eq [OF inv] live_eq [OF inv'] by (simp add: c'_def)
  moreover have "path c' = path c" using lock_moved_path [OF inv] inv' by (simp add: c'_def)
  ultimately show ?thesis
    using inv' unfolding radix_ok_def by (intro exI [of _ ?s] exI [of _ c'])
      (auto simp: c'_def lock_moved_def evictable_size_def protected_size_def)
qed

lemma inc_lock_contract:
  assumes "radix_ok c" "\<not> disable c" "path c n ks vs"
  shows "\<exists>d c'. inc_lock_ref n c = Some (d, c') \<and> radix_ok c' \<and> path c' = path c
     \<and> evictable_size c' = evictable_size c + d \<and> protected_size c' = protected_size c - d
     \<and> (\<forall>q\<in>live c. q \<noteq> root_node c \<longrightarrow> own_locks c' (live c') q = own_locks c (live c) q + (if q = n then 1 else 0))
     \<and> disable c' = disable c \<and> root_node c' = root_node c \<and> page_size c' = page_size c"
proof -
  obtain L K V where inv: "radix_inv c L K V" using assms(1) by (auto simp: radix_ok_def)
  note wf = radix_invD(1) [OF inv]
  have n: "n \<in> L" using assms(3) path_iff [OF wf] by auto
  let ?A = "ancestors (root_node c) L K n"
  let ?s = "size_locked 0 ?A (nodes c)"
  define c' where "c' = lock_moved 1 (- ?s) ?A c"
  have inv': "radix_inv c' L K V" using inc_inv [OF inv n] by (simp add: c'_def)
  have "inc_lock_ref n c = Some (- ?s, c')"
    using inc_lock_loop_spec [OF wf n, of 0] assms(2) by (simp add: inc_lock_ref_def c'_def)
  moreover have "own_locks c' (live c') q = own_locks c (live c) q + (if q = n then 1 else 0)"
    if "q \<in> live c" "q \<noteq> root_node c" for q
    using own_locks_moved [OF inv n, of q 1 "- ?s"] that unfolding live_eq [OF inv] live_eq [OF inv'] by (simp add: c'_def)
  moreover have "path c' = path c" using lock_moved_path [OF inv] inv' by (simp add: c'_def)
  ultimately show ?thesis
    using inv' unfolding radix_ok_def by (intro exI [of _ "- ?s"] exI [of _ c'])
      (auto simp: c'_def lock_moved_def evictable_size_def protected_size_def)
qed

lemma locks_on_moved:
  assumes "path c' = path c" "path c n ks vs"
    "\<forall>q\<in>live c. q \<noteq> root_node c \<longrightarrow> own_locks c' (live c') q = own_locks c (live c) q + (if q = n then i else 0)"
  shows "q \<noteq> root_node c \<Longrightarrow> locks_on c' q = locks_on c q + (if q = n then i else 0)"
proof -
  have "live c' = live c" "n \<in> live c" using assms(1,2) by (auto simp: live_def)
  then show "q \<noteq> root_node c \<Longrightarrow> locks_on c' q = locks_on c q + (if q = n then i else 0)"
    using assms(3) by (auto simp: locks_on_def)
qed

text \<open>
  C18: releasing a lock that was taken on the node keeps the invariant: no count becomes
  negative, no node is locked less often than its children together, and both size counters
  stay the sums of the slots of the unlocked and of the locked nodes. The locks taken on other
  nodes are unchanged.
\<close>

theorem dec_lock_ref_safe:
  assumes "radix_ok c" "\<not> disable c" "path c n ks vs" "n = root_node c \<or> 1 \<le> own_locks c (live c) n"
  shows "\<exists>d c'. dec_lock_ref n c = Some (d, c') \<and> radix_ok c' \<and> path c' = path c
     \<and> evictable_size c' = evictable_size c + d \<and> protected_size c' = protected_size c - d
     \<and> (\<forall>q\<in>live c. q \<noteq> root_node c \<longrightarrow> own_locks c' (live c') q = own_locks c (live c) q - (if q = n then 1 else 0))"
  using dec_lock_contract [OF assms] by (elim exE conjE) (intro exI conjI; assumption)

theorem dec_lock_ref_safe_witness:
  "\<exists>c n vs d c'. path c n [1, 2, 3, 4] vs \<and> 1 \<le> own_locks c (live c) n \<and> dec_lock_ref n c = Some (d, c') \<and> radix_ok c'"
proof -
  obtain c n vs where c: "radix_ok c" "\<not> disable c" "path c n [1, 2, 3, 4] vs" and own: "1 \<le> own_locks c (live c) n"
    using locked_node_example by blast
  from dec_lock_ref_safe [OF c disjI2 [OF own]] show ?thesis using c(3) own by (elim exE conjE) blast
qed

end
