(* ===== verification/Allocator.thy ===== *)
theory Allocator
  imports Prelude
begin

text \<open>
  The KV-cache slot allocators of \<^verbatim>\<open>mem_cache/allocator.py\<close>: the token allocator, the paged
  allocator with its two Triton kernels, and the hybrid (sliding window) allocator that
  pairs two token allocators. A tensor of slot numbers is an integer list; the class
  hierarchy is a hierarchy of records, so that the methods of the base class are defined
  once for every subclass.
\<close>

unbundle bit_operations_syntax

section \<open>BaseTokenToKVPoolAllocator\<close>

record kv_allocator =
  al_size :: nat
  al_page_size :: nat
  need_sort :: bool
  free_pages :: "int list"
  release_pages :: "int list"
  is_not_in_free_group :: bool
  free_group :: "int list list"

definition available_size :: "'z kv_allocator_scheme \<Rightarrow> nat" where
  "available_size a = (length (free_pages a) + length (release_pages a)) * al_page_size a"

definition backup_state :: "'z kv_allocator_scheme \<Rightarrow> int list \<times> int list" where
  "backup_state a = (free_pages a, release_pages a)"

definition restore_state ::
  "int list \<times> int list \<Rightarrow> 'z kv_allocator_scheme \<Rightarrow> 'z kv_allocator_scheme" where
  "restore_state st a = a\<lparr>free_pages := fst st, release_pages := snd st\<rparr>"

definition free_group_begin :: "'z kv_allocator_scheme \<Rightarrow> 'z kv_allocator_scheme" where
  "free_group_begin a = a\<lparr>is_not_in_free_group := False, free_group := []\<rparr>"

definition free_group_end ::
  "(int list \<Rightarrow> 'z kv_allocator_scheme \<Rightarrow> 'z kv_allocator_scheme res)
     \<Rightarrow> 'z kv_allocator_scheme \<Rightarrow> 'z kv_allocator_scheme res" where
  \<comment> \<open>\<open>free_m\<close> is the \<open>free\<close> method of the subclass\<close>
  "free_group_end free_m a =
     (let a' = a\<lparr>is_not_in_free_group := True\<rparr>
      in if free_group a' \<noteq> [] then free_m (concat (free_group a')) a' else Inr a')"

definition merge_and_sort_free :: "'z kv_allocator_scheme \<Rightarrow> 'z kv_allocator_scheme" where
  "merge_and_sort_free a =
     (if length (release_pages a) > 0
      then a\<lparr>free_pages := sort (free_pages a @ release_pages a), release_pages := []\<rparr>
      else a)"

section \<open>TokenToKVPoolAllocator\<close>

definition tok_clear :: "kv_allocator \<Rightarrow> kv_allocator" where
  "tok_clear a = a\<lparr>free_pages := [1..int (al_size a)], is_not_in_free_group := True,
                   free_group := [], release_pages := []\<rparr>"

definition tok_init :: "nat \<Rightarrow> bool \<Rightarrow> kv_allocator" where
  "tok_init n srt = tok_clear \<lparr>al_size = n, al_page_size = 1, need_sort = srt, free_pages = [],
     release_pages = [], is_not_in_free_group = True, free_group = []\<rparr>"

definition tok_available_size :: "kv_allocator \<Rightarrow> nat" where
  "tok_available_size a = length (free_pages a) + length (release_pages a)"

definition tok_alloc :: "nat \<Rightarrow> kv_allocator \<Rightarrow> int list option \<times> kv_allocator" where
  "tok_alloc need_size a =
     (let a1 = (if need_sort a \<and> need_size > length (free_pages a)
                then merge_and_sort_free a else a)
      in if need_size > length (free_pages a1) then (None, a1)
         else (Some (take need_size (free_pages a1)),
               a1\<lparr>free_pages := drop need_size (free_pages a1)\<rparr>))"

definition tok_free :: "int list \<Rightarrow> kv_allocator \<Rightarrow> kv_allocator" where
  "tok_free free_index a =
     (if free_index = [] then a
      else if is_not_in_free_group a then
        (if need_sort a then a\<lparr>release_pages := release_pages a @ free_index\<rparr>
         else a\<lparr>free_pages := free_pages a @ free_index\<rparr>)
      else a\<lparr>free_group := free_group a @ [free_index]\<rparr>)"

definition tok_free_group_end :: "kv_allocator \<Rightarrow> kv_allocator res" where
  "tok_free_group_end = free_group_end (\<lambda>i a. Inr (tok_free i a))"

section \<open>SWATokenToKVPoolAllocator\<close>

record swa_allocator = kv_allocator +
  size_full :: nat
  size_swa :: nat
  full_attn_allocator :: kv_allocator
  swa_attn_allocator :: kv_allocator
  full_to_swa_index_mapping :: "int list"
  is_in_free_group :: bool

definition swa_clear :: "swa_allocator \<Rightarrow> swa_allocator" where
  "swa_clear a = a\<lparr>swa_attn_allocator := tok_clear (swa_attn_allocator a),
     full_attn_allocator := tok_clear (full_attn_allocator a),
     full_to_swa_index_mapping := replicate (length (full_to_swa_index_mapping a)) 0,
     is_in_free_group := False, free_group := []\<rparr>"

definition swa_init :: "nat \<Rightarrow> nat \<Rightarrow> bool \<Rightarrow> swa_allocator" where
  "swa_init n n_swa srt = swa_clear \<lparr>al_size = n, al_page_size = 1, need_sort = srt,
     free_pages = [], release_pages = [], is_not_in_free_group = True, free_group = [],
     size_full = n, size_swa = n_swa, full_attn_allocator = tok_init n srt,
     swa_attn_allocator = tok_init n_swa srt,
     full_to_swa_index_mapping = replicate (n + n_swa + 1) 0, is_in_free_group = False\<rparr>"

definition full_available_size :: "swa_allocator \<Rightarrow> nat" where
  "full_available_size a = tok_available_size (full_attn_allocator a)"

definition swa_available_size :: "swa_allocator \<Rightarrow> nat" where
  "swa_available_size a = tok_available_size (swa_attn_allocator a)"

definition translate_loc_from_full_to_swa :: "int list \<Rightarrow> swa_allocator \<Rightarrow> int list res" where
  "translate_loc_from_full_to_swa kv_indices a =
     gather_idx (full_to_swa_index_mapping a) kv_indices"

definition swa_alloc :: "nat \<Rightarrow> swa_allocator \<Rightarrow> (int list option \<times> swa_allocator) res" where
  "swa_alloc need_size a =
     (if need_size > full_available_size a then Inr (None, a)
      else if need_size > swa_available_size a then Inr (None, a)
      else (case tok_alloc need_size (full_attn_allocator a) of (full_idx, fa) \<Rightarrow>
           (case tok_alloc need_size (swa_attn_allocator a) of (swa_idx, sa) \<Rightarrow>
             (case (full_idx, swa_idx) of
                (Some fi, Some si) \<Rightarrow>
                  res_bind (scatter_idx (full_to_swa_index_mapping a) fi si)
                    (\<lambda>m. Inr (Some fi, a\<lparr>full_attn_allocator := fa, swa_attn_allocator := sa,
                                         full_to_swa_index_mapping := m\<rparr>))
              | _ \<Rightarrow> Inl TypeError))))"

definition swa_free_swa :: "int list \<Rightarrow> swa_allocator \<Rightarrow> swa_allocator res" where
  "swa_free_swa free_index a =
     res_bind (gather_idx (full_to_swa_index_mapping a) free_index) (\<lambda>swa_indices.
       let swa_indices = filter (\<lambda>i. i > 0) swa_indices;
           sa = tok_free swa_indices (swa_attn_allocator a)
       in res_bind (scatter_idx (full_to_swa_index_mapping a) free_index
                      (replicate (length free_index) 0))
            (\<lambda>m. Inr (a\<lparr>swa_attn_allocator := sa, full_to_swa_index_mapping := m\<rparr>)))"

definition swa_free :: "int list \<Rightarrow> swa_allocator \<Rightarrow> swa_allocator res" where
  "swa_free free_index a =
     (if free_index = [] then Inr a
      else res_bind
        (if is_not_in_free_group a
         then swa_free_swa free_index
                (a\<lparr>full_attn_allocator := tok_free free_index (full_attn_allocator a)\<rparr>)
         else Inr (a\<lparr>free_group := free_group a @ [free_index]\<rparr>))
        (\<lambda>a'. res_bind
           (py_assert (tok_available_size (full_attn_allocator a') \<le> al_size (full_attn_allocator a')))
           (\<lambda>_. res_bind
             (py_assert (tok_available_size (swa_attn_allocator a') \<le> al_size (swa_attn_allocator a')))
             (\<lambda>_. Inr a'))))"

definition swa_free_group_end :: "swa_allocator \<Rightarrow> swa_allocator res" where
  "swa_free_group_end = free_group_end swa_free"

section \<open>Traces of allocations and releases\<close>

datatype slot_op = Alloc nat | Release "int list"

fun run_ops :: "(nat \<Rightarrow> 's \<Rightarrow> (int list option \<times> 's) res) \<Rightarrow> (int list \<Rightarrow> 's \<Rightarrow> 's res)
     \<Rightarrow> slot_op list \<Rightarrow> 's \<Rightarrow> int list \<Rightarrow> ('s \<times> int list) res" where
  \<comment> \<open>a client: it keeps the list of the slots it holds, and releases some of them\<close>
  "run_ops alloc_m free_m [] s used = Inr (s, used)"
| "run_ops alloc_m free_m (Alloc n # ops) s used =
     res_bind (alloc_m n s) (\<lambda>(r, s'). run_ops alloc_m free_m ops s' (used @ (case r of None \<Rightarrow> [] | Some xs \<Rightarrow> xs)))"
| "run_ops alloc_m free_m (Release xs # ops) s used =
     res_bind (free_m xs s) (\<lambda>s'. run_ops alloc_m free_m ops s' (fold remove1 xs used))"

fun releases_held :: "(int list \<Rightarrow> bool) \<Rightarrow> (nat \<Rightarrow> 's \<Rightarrow> (int list option \<times> 's) res)
     \<Rightarrow> (int list \<Rightarrow> 's \<Rightarrow> 's res) \<Rightarrow> slot_op list \<Rightarrow> 's \<Rightarrow> int list \<Rightarrow> bool" where
  \<comment> \<open>the client releases only slots it holds, in units the allocator takes back\<close>
  "releases_held whole alloc_m free_m [] s used = True"
| "releases_held whole alloc_m free_m (Alloc n # ops) s used =
     (case alloc_m n s of Inl e \<Rightarrow> False
      | Inr (r, s') \<Rightarrow> releases_held whole alloc_m free_m ops s'
                        (used @ (case r of None \<Rightarrow> [] | Some xs \<Rightarrow> xs)))"
| "releases_held whole alloc_m free_m (Release xs # ops) s used =
     (mset xs \<subseteq># mset used \<and> whole xs
      \<and> (case free_m xs s of Inl e \<Rightarrow> False
          | Inr s' \<Rightarrow> releases_held whole alloc_m free_m ops s' (fold remove1 xs used)))"

definition pool_pages :: "'z kv_allocator_scheme \<Rightarrow> int multiset" where
  \<comment> \<open>the pages the allocator holds\<close>
  "pool_pages a = mset (free_pages a) + mset (release_pages a)"

section \<open>Lemmas on the base class\<close>

lemma pool_pages_merge [simp]: "pool_pages (merge_and_sort_free a) = pool_pages a"
  by (simp add: pool_pages_def merge_and_sort_free_def)

lemma merge_and_sort_free_frame [simp]:
  "al_page_size (merge_and_sort_free a) = al_page_size a"
  "al_size (merge_and_sort_free a) = al_size a"
  "need_sort (merge_and_sort_free a) = need_sort a"
  "is_not_in_free_group (merge_and_sort_free a) = is_not_in_free_group a"
  "free_group (merge_and_sort_free a) = free_group a"
  "release_pages (merge_and_sort_free a) = []"
  by (simp_all add: merge_and_sort_free_def)

lemma length_free_merge [simp]:
  "length (free_pages (merge_and_sort_free a)) = length (free_pages a) + length (release_pages a)"
  by (simp add: merge_and_sort_free_def)

lemma pool_pages_take:
  "pool_pages a = mset (take n (free_pages a)) + pool_pages (a\<lparr>free_pages := drop n (free_pages a)\<rparr>)"
proof -
  have "mset (free_pages a) = mset (take n (free_pages a)) + mset (drop n (free_pages a))"
    by (simp flip: mset_append)
  then show ?thesis by (simp add: pool_pages_def)
qed

lemma size_pool_pages: "size (pool_pages a) = length (free_pages a) + length (release_pages a)"
  by (simp add: pool_pages_def)

lemma mset_fold_remove1: "mset xs \<subseteq># mset ys \<Longrightarrow> mset (fold remove1 xs ys) = mset ys - mset xs"
  by (induction xs arbitrary: ys) (auto simp: insert_subset_eq_iff)

section \<open>The contract of an allocator\<close>

text \<open>
  Every allocator promises its clients the same: an allocation hands out exactly the slots
  it removes from its pool, a refused allocation changes nothing, and a release gives the
  slots back. \<open>whole\<close> says which lists of slots may be released (whole pages, for the
  paged allocator).
\<close>

locale slot_allocator =
  fixes alloc_m :: "nat \<Rightarrow> 's \<Rightarrow> (int list option \<times> 's) res"
    and free_m :: "int list \<Rightarrow> 's \<Rightarrow> 's res"
    and pool :: "'s \<Rightarrow> int multiset"
    and ok :: "'s \<Rightarrow> bool"
    and whole :: "int list \<Rightarrow> bool"
  assumes alloc_law: "ok s \<Longrightarrow> \<exists>r s'. alloc_m n s = Inr (r, s') \<and> ok s' \<and>
      pool s = mset (case r of None \<Rightarrow> [] | Some xs \<Rightarrow> xs) + pool s'"
    and free_law: "ok s \<Longrightarrow> whole xs \<Longrightarrow> \<exists>s'. free_m xs s = Inr s' \<and> ok s' \<and> pool s' = mset xs + pool s"
begin

lemma run_conserves:
  assumes "ok s" and "releases_held whole alloc_m free_m ops s used"
  shows "\<exists>s' used'. run_ops alloc_m free_m ops s used = Inr (s', used') \<and> ok s'
           \<and> pool s' + mset used' = pool s + mset used"
  using assms
proof (induction ops arbitrary: s used)
  case Nil
  then show ?case by simp
next
  case (Cons oper ops)
  show ?case
  proof (cases oper)
    case (Alloc n)
    from alloc_law [OF Cons.prems(1), of n] obtain r s' where
      r: "alloc_m n s = Inr (r, s')" "ok s'" "pool s = mset (case r of None \<Rightarrow> [] | Some xs \<Rightarrow> xs) + pool s'"
      by blast
    with Cons.prems(2) Alloc Cons.IH [OF r(2), of "used @ (case r of None \<Rightarrow> [] | Some xs \<Rightarrow> xs)"]
    show ?thesis by (auto simp: ac_simps)
  next
    case (Release xs)
    with Cons.prems have held: "mset xs \<subseteq># mset used" "whole xs" by auto
    from free_law [OF Cons.prems(1) held(2)] obtain s' where
      s': "free_m xs s = Inr s'" "ok s'" "pool s' = mset xs + pool s" by blast
    from held(1) obtain R where R: "mset used = mset xs + R"
      by (auto simp: mset_subset_eq_exists_conv)
    have "mset (fold remove1 xs used) = R" by (simp add: mset_fold_remove1 [OF held(1)] R)
    with Cons.prems(2) Release Cons.IH [OF s'(2), of "fold remove1 xs used"] s'(1,3) R
    show ?thesis by (simp add: ac_simps)
  qed
qed

lemma no_double_allocation:
  assumes "ok s" and "pool s = mset_set A" and "finite A"
    and "releases_held whole alloc_m free_m ops s []"
  shows "\<exists>s' used. run_ops alloc_m free_m ops s [] = Inr (s', used)
           \<and> distinct used \<and> set used \<subseteq> A \<and> pool s' = mset_set (A - set used)"
proof -
  from run_conserves [OF assms(1,4)] assms(2) obtain s' used where
    r: "run_ops alloc_m free_m ops s [] = Inr (s', used)" and eq: "pool s' + mset used = mset_set A"
    by auto
  have sub: "mset used \<subseteq># mset_set A" using eq by (metis mset_subset_eq_add_right)
  have d: "distinct used"
    unfolding distinct_count_atmost_1
  proof
    fix x
    have "count (mset used) x \<le> count (mset_set A) x" using sub by (rule mset_subset_eq_count)
    also have "\<dots> \<le> 1" using assms(3) by (cases "x \<in> A") simp_all
    finally show "count (mset used) x = (if x \<in> set used then 1 else 0)"
      by (cases "x \<in> set used") (auto simp: le_Suc_eq count_mset_0_iff)
  qed
  then have u: "mset used = mset_set (set used)" by (simp add: mset_set_set)
  have s: "set used \<subseteq> A" using set_mset_mono [OF sub] assms(3) by simp
  have "pool s' = mset_set A - mset_set (set used)" using eq u by (metis add_diff_cancel_right')
  also have "\<dots> = mset_set (A - set used)" using s assms(3) by (simp add: mset_set_Diff)
  finally show ?thesis using r d s by blast
qed

end

section \<open>The token allocator keeps the contract\<close>

definition tok_ok :: "kv_allocator \<Rightarrow> bool" where
  "tok_ok a \<longleftrightarrow> is_not_in_free_group a \<and> (need_sort a \<or> release_pages a = [])"

lemma tok_alloc_cases:
  obtains (none) a' where "tok_alloc n a = (None, a')" "pool_pages a' = pool_pages a"
      "n > length (free_pages a')" "a' = (if need_sort a then merge_and_sort_free a else a)"
      "n > length (free_pages a)"
  | (some) a' where "tok_alloc n a = (Some (take n (free_pages a')), a'\<lparr>free_pages := drop n (free_pages a')\<rparr>)"
      "pool_pages a' = pool_pages a" "n \<le> length (free_pages a')" "a' = a \<or> a' = merge_and_sort_free a"
  by (cases "need_sort a \<and> n > length (free_pages a)";
      cases "n > length (free_pages (if need_sort a \<and> n > length (free_pages a) then merge_and_sort_free a else a))")
     (auto simp: tok_alloc_def Let_def)

lemma pool_tok_free: "is_not_in_free_group a \<Longrightarrow> pool_pages (tok_free xs a) = mset xs + pool_pages a"
  by (simp add: tok_free_def pool_pages_def)

lemma tok_ok_free: "tok_ok a \<Longrightarrow> tok_ok (tok_free xs a)"
  by (auto simp: tok_free_def tok_ok_def)

lemma tok_ok_no_group: "tok_ok a \<Longrightarrow> is_not_in_free_group a"
  by (simp add: tok_ok_def)

interpretation tok: slot_allocator "\<lambda>n a. Inr (tok_alloc n a)" "\<lambda>xs a. Inr (tok_free xs a)"
  pool_pages tok_ok "\<lambda>_. True"
proof unfold_locales
  fix a n assume ok: "tok_ok a"
  show "\<exists>r a'. (Inr (tok_alloc n a) :: (int list option \<times> kv_allocator) res) = Inr (r, a') \<and> tok_ok a'
      \<and> pool_pages a = mset (case r of None \<Rightarrow> [] | Some xs \<Rightarrow> xs) + pool_pages a'"
  proof (cases rule: tok_alloc_cases [of n a])
    case (none a')
    with ok show ?thesis by (auto simp: tok_ok_def split: if_splits)
  next
    case (some a')
    with ok pool_pages_take [of a' n] show ?thesis by (auto simp: tok_ok_def)
  qed
next
  fix a xs assume "tok_ok a"
  then show "\<exists>a'. (Inr (tok_free xs a) :: kv_allocator res) = Inr a' \<and> tok_ok a'
      \<and> pool_pages a' = mset xs + pool_pages a"
    by (simp add: pool_tok_free tok_ok_free tok_ok_no_group)
qed

section \<open>Properties\<close>

text \<open>
  C21: A client that releases only slots it holds never makes the token allocator hand out a
  slot twice: the slots it holds are distinct, they lie in \<open>1 .. size\<close> (slot 0 is the
  padding slot), and the allocator holds exactly the other slots, whether or not freed slots
  are kept apart for sorting.
\<close>

theorem tok_no_double_allocation:
  assumes "releases_held (\<lambda>_. True) (\<lambda>n a. Inr (tok_alloc n a)) (\<lambda>xs a. Inr (tok_free xs a)) ops
             (tok_init n srt) []"
  shows "\<exists>a used. run_ops (\<lambda>n a. Inr (tok_alloc n a)) (\<lambda>xs a. Inr (tok_free xs a)) ops (tok_init n srt) []
                    = Inr (a, used)
           \<and> distinct used \<and> set used \<subseteq> {1..int n} \<and> pool_pages a = mset_set ({1..int n} - set used)"
proof (rule tok.no_double_allocation)
  show "tok_ok (tok_init n srt)" by (simp add: tok_ok_def tok_init_def tok_clear_def)
  have "mset [1..int n] = mset_set {1..int n}"
    by (simp add: mset_set_set [symmetric])
  then show "pool_pages (tok_init n srt) = mset_set {1..int n}"
    by (simp add: pool_pages_def tok_init_def tok_clear_def)
qed (simp_all add: assms)

theorem tok_no_double_allocation_witness:
  "releases_held (\<lambda>_. True) (\<lambda>n a. Inr (tok_alloc n a)) (\<lambda>xs a. Inr (tok_free xs a))
     [Alloc 2, Release [1], Alloc 3] (tok_init 5 True) []
   \<and> (\<exists>a used. run_ops (\<lambda>n a. Inr (tok_alloc n a)) (\<lambda>xs a. Inr (tok_free xs a))
                 [Alloc 2, Release [1], Alloc 3] (tok_init 5 True) [] = Inr (a, used)
        \<and> distinct used \<and> set used \<subseteq> {1..int 5} \<and> pool_pages a = mset_set ({1..int 5} - set used))"
proof -
  have h: "releases_held (\<lambda>_. True) (\<lambda>n a. Inr (tok_alloc n a)) (\<lambda>xs a. Inr (tok_free xs a))
     [Alloc 2, Release [1], Alloc 3] (tok_init 5 True) []"
    by code_simp
  from tok_no_double_allocation [OF h] h show ?thesis by simp
qed

end
