(* ===== verification/Paged_Kernels.thy ===== *)
theory Paged_Kernels
  imports Allocator
begin

text \<open>
  The two Triton kernels of \<^verbatim>\<open>mem_cache/allocator.py\<close>, \<^verbatim>\<open>alloc_extend_kernel\<close> and
  \<^verbatim>\<open>alloc_decode_kernel\<close>, and the page-table specification they are equivalent to.
  A kernel launch runs one program per request; a program is the list of stores it makes
  (address and value) and the return value of the last program. A masked lane of a load,
  and a load outside a buffer, yields the unspecified value \<open>other\<close>; a store outside the
  output buffer is dropped. Lengths and locations are integers, because the location
  before the first token of a request is \<open>- 1\<close>.
\<close>

unbundle bit_operations_syntax

section \<open>Triton loads and stores\<close>

definition tl_load :: "int \<Rightarrow> int list \<Rightarrow> int \<Rightarrow> bool \<Rightarrow> int" where
  "tl_load other ptr off msk =
     (if msk \<and> 0 \<le> off \<and> off < int (length ptr) then ptr ! nat off else other)"

definition tl_store :: "int \<times> int \<Rightarrow> int list \<Rightarrow> int list" where
  "tl_store w out =
     (if 0 \<le> fst w \<and> fst w < int (length out) then out[nat (fst w) := snd w] else out)"

definition tl_stores :: "(int \<times> int) list \<Rightarrow> int list \<Rightarrow> int list" where
  "tl_stores ws out = fold tl_store ws out"

definition cdiv_page :: "int \<Rightarrow> int \<Rightarrow> int" where
  "cdiv_page page_size x = (x + page_size - 1) div page_size"

section \<open>alloc\_extend\_kernel and alloc\_decode\_kernel\<close>

definition alloc_extend_program ::
  "int \<Rightarrow> int list \<Rightarrow> int list \<Rightarrow> int list \<Rightarrow> int list \<Rightarrow> nat \<Rightarrow> nat \<Rightarrow> nat \<Rightarrow> nat
     \<Rightarrow> (int \<times> int) list \<times> int" where
  "alloc_extend_program other pre_lens_ptr seq_lens_ptr last_loc_ptr free_page_ptr
       bs_upper page_size_c max_num_extend_tokens pid =
    (let page_size = int page_size_c;
         load_offset = [0..<bs_upper];
         seq_lens = map (\<lambda>off. tl_load other seq_lens_ptr (int off) (off \<le> pid)) load_offset;
         pre_lens = map (\<lambda>off. tl_load other pre_lens_ptr (int off) (off \<le> pid)) load_offset;
         extend_lens = map2 (-) seq_lens pre_lens;
         seq_len = tl_load other seq_lens_ptr (int pid) True;
         pre_len = tl_load other pre_lens_ptr (int pid) True;
         extend_len = seq_len - pre_len;
         sum_extend_lens = sum_list extend_lens;
         output_start_loc = sum_extend_lens - extend_len;
         num_pages_after = map (cdiv_page page_size) seq_lens;
         num_pages_before = map (cdiv_page page_size) pre_lens;
         num_new_pages = map2 (-) num_pages_after num_pages_before;
         num_page_start_loc_self = cdiv_page page_size seq_len - cdiv_page page_size pre_len;
         sum_num_new_pages = sum_list num_new_pages;
         new_page_start_loc = sum_num_new_pages - num_page_start_loc_self;
         merged_value = push_bit 32 sum_num_new_pages OR sum_extend_lens;
         last_loc = tl_load other last_loc_ptr (int pid) True;
         num_part1 = min seq_len (cdiv_page page_size pre_len * page_size) - pre_len;
         part1 = map (\<lambda>off. (output_start_loc + int off, last_loc + 1 + int off))
                   (filter (\<lambda>off. int off < num_part1) [0..<page_size_c])
     in if pre_len + num_part1 = seq_len then (part1, merged_value)
        else
          (let num_part2 = seq_len div page_size * page_size
                           - cdiv_page page_size pre_len * page_size;
               part2 = map (\<lambda>off.
                         (output_start_loc + num_part1 + int off,
                          tl_load other free_page_ptr
                            (new_page_start_loc + int off div page_size) True * page_size
                          + int off mod page_size))
                         (filter (\<lambda>off. int off < num_part2) [0..<max_num_extend_tokens])
           in if pre_len + num_part1 + num_part2 = seq_len then (part1 @ part2, merged_value)
              else
                (let num_part3 = seq_len - seq_len div page_size * page_size;
                     start_loc = tl_load other free_page_ptr
                       (new_page_start_loc + num_page_start_loc_self - 1) True;
                     part3 = map (\<lambda>off.
                         (output_start_loc + num_part1 + num_part2 + int off,
                          start_loc * page_size + int off))
                         (filter (\<lambda>off. int off < num_part3) [0..<page_size_c])
                 in (part1 @ part2 @ part3, merged_value))))"

definition alloc_extend_kernel ::
  "int \<Rightarrow> int list \<Rightarrow> int list \<Rightarrow> int list \<Rightarrow> int list \<Rightarrow> int list \<Rightarrow> int \<Rightarrow> nat \<Rightarrow> nat \<Rightarrow> nat
     \<Rightarrow> nat \<Rightarrow> int list \<times> int" where
  \<comment> \<open>the launch with \<open>num_programs\<close> programs: the filled output buffer and the return cell,
     which the last program sets\<close>
  "alloc_extend_kernel other pre_lens seq_lens last_loc free_page out_indices ret_values
       num_programs bs_upper page_size max_num_extend_tokens =
    (let run = alloc_extend_program other pre_lens seq_lens last_loc free_page
                 bs_upper page_size max_num_extend_tokens
     in (tl_stores (concat (map (\<lambda>pid. fst (run pid)) [0..<num_programs])) out_indices,
         (if num_programs = 0 then ret_values else snd (run (num_programs - 1)))))"

definition alloc_decode_program ::
  "int \<Rightarrow> int list \<Rightarrow> int list \<Rightarrow> int list \<Rightarrow> nat \<Rightarrow> nat \<Rightarrow> nat \<Rightarrow> (int \<times> int) \<times> int" where
  "alloc_decode_program other seq_lens_ptr last_loc_ptr free_page_ptr bs_upper page_size_c pid =
    (let page_size = int page_size_c;
         load_offset = [0..<bs_upper];
         seq_lens = map (\<lambda>off. tl_load other seq_lens_ptr (int off) (off \<le> pid)) load_offset;
         pre_lens = map2 (\<lambda>off s. if off \<le> pid then s - 1 else s) load_offset seq_lens;
         seq_len = tl_load other seq_lens_ptr (int pid) True;
         pre_len = seq_len - 1;
         num_pages_after = map (cdiv_page page_size) seq_lens;
         num_pages_before = map (cdiv_page page_size) pre_lens;
         num_new_pages = map2 (-) num_pages_after num_pages_before;
         num_page_start_loc_self = cdiv_page page_size seq_len - cdiv_page page_size pre_len;
         sum_num_new_pages = sum_list num_new_pages;
         new_page_start_loc = sum_num_new_pages - num_page_start_loc_self
     in (if num_page_start_loc_self = 0
         then ((int pid, tl_load other last_loc_ptr (int pid) True + 1), sum_num_new_pages)
         else ((int pid, tl_load other free_page_ptr new_page_start_loc True * page_size),
               sum_num_new_pages)))"

definition alloc_decode_kernel ::
  "int \<Rightarrow> int list \<Rightarrow> int list \<Rightarrow> int list \<Rightarrow> int list \<Rightarrow> int \<Rightarrow> nat \<Rightarrow> nat \<Rightarrow> nat
     \<Rightarrow> int list \<times> int" where
  "alloc_decode_kernel other seq_lens last_loc free_page out_indices ret_values
       num_programs bs_upper page_size =
    (let run = alloc_decode_program other seq_lens last_loc free_page bs_upper page_size
     in (tl_stores (map (\<lambda>pid. fst (run pid)) [0..<num_programs]) out_indices,
         (if num_programs = 0 then ret_values else snd (run (num_programs - 1)))))"

section \<open>The page-table specification\<close>

text \<open>
  Token \<open>t\<close> of a request with \<open>pre_len\<close> cached tokens is stored next to the last cached
  token while its page is the request's partly filled page, and otherwise at offset
  \<open>t mod page_size\<close> of the next fresh page; the fresh pages are handed out to the requests in
  order. \<open>extend_loc\<close> reads the fresh page in the free list, \<open>page_table_loc\<close> in the list of
  the pages that were taken.
\<close>

definition extend_loc :: "int \<Rightarrow> int \<Rightarrow> int \<Rightarrow> int \<Rightarrow> int list \<Rightarrow> int \<Rightarrow> int \<Rightarrow> int" where
  "extend_loc other page_size pre_len last_loc free_page start t =
     (if t < cdiv_page page_size pre_len * page_size then last_loc + 1 + (t - pre_len)
      else tl_load other free_page (start + (t div page_size - cdiv_page page_size pre_len)) True
             * page_size + t mod page_size)"

definition extend_writes ::
  "int \<Rightarrow> int \<Rightarrow> int \<Rightarrow> int \<Rightarrow> int \<Rightarrow> int list \<Rightarrow> int \<Rightarrow> int \<Rightarrow> (int \<times> int) list" where
  "extend_writes other ps pre_len seq_len last_loc free_page start base =
     map (\<lambda>k. (base + int k, extend_loc other ps pre_len last_loc free_page start (pre_len + int k)))
       [0..<nat (seq_len - pre_len)]"

definition page_table_loc :: "int \<Rightarrow> int \<Rightarrow> int \<Rightarrow> int list \<Rightarrow> int \<Rightarrow> int \<Rightarrow> int" where
  "page_table_loc page_size pre_len last_loc pages start t =
     (if t < cdiv_page page_size pre_len * page_size then last_loc + 1 + (t - pre_len)
      else pages ! nat (start + (t div page_size - cdiv_page page_size pre_len)) * page_size
           + t mod page_size)"

definition new_pages :: "int \<Rightarrow> int list \<Rightarrow> int list \<Rightarrow> nat \<Rightarrow> int" where
  \<comment> \<open>the number of fresh pages the first \<open>n\<close> requests take\<close>
  "new_pages page_size pre_lens seq_lens n =
     sum_list (map (\<lambda>i. cdiv_page page_size (seq_lens ! i) - cdiv_page page_size (pre_lens ! i)) [0..<n])"

definition new_tokens :: "int list \<Rightarrow> int list \<Rightarrow> nat \<Rightarrow> int" where
  "new_tokens pre_lens seq_lens n = sum_list (map (\<lambda>i. seq_lens ! i - pre_lens ! i) [0..<n])"

definition extend_table :: "int \<Rightarrow> int list \<Rightarrow> int list \<Rightarrow> int list \<Rightarrow> int list \<Rightarrow> int list list" where
  \<comment> \<open>request by request, the location of every new token\<close>
  "extend_table page_size pre_lens seq_lens last_loc pages =
     map (\<lambda>i. map (\<lambda>k. page_table_loc page_size (pre_lens ! i) (last_loc ! i) pages
                      (new_pages page_size pre_lens seq_lens i) (pre_lens ! i + int k))
                [0..<nat (seq_lens ! i - pre_lens ! i)]) [0..<length seq_lens]"

definition extend_args :: "int list \<Rightarrow> int list \<Rightarrow> int list \<Rightarrow> bool" where
  "extend_args pre_lens seq_lens last_loc \<longleftrightarrow>
     seq_lens \<noteq> [] \<and> length pre_lens = length seq_lens \<and> length last_loc = length seq_lens
     \<and> list_all2 (\<lambda>p s. 0 \<le> p \<and> p \<le> s) pre_lens seq_lens"

definition extend_page :: "int \<Rightarrow> int \<Rightarrow> int \<Rightarrow> int list \<Rightarrow> int \<Rightarrow> int \<Rightarrow> int" where
  "extend_page ps p l pages start t =
     (if t < cdiv_page ps p * ps then l div ps
      else pages ! nat (start + (t div ps - cdiv_page ps p)))"

definition decode_args :: "int list \<Rightarrow> int list \<Rightarrow> bool" where
  "decode_args seq_lens last_loc \<longleftrightarrow>
     seq_lens \<noteq> [] \<and> length last_loc = length seq_lens \<and> list_all (\<lambda>s. 1 \<le> s) seq_lens"


section \<open>One program of the extend kernel\<close>

lemma cdiv_page_bounds:
  assumes "0 < ps"
  shows "x \<le> cdiv_page ps x * ps" and "cdiv_page ps x * ps < x + ps"
proof -
  have "(x + ps - 1) div ps * ps = (x + ps - 1) - (x + ps - 1) mod ps"
    by (simp add: minus_mod_eq_div_mult)
  moreover have "0 \<le> (x + ps - 1) mod ps" "(x + ps - 1) mod ps < ps" using assms by auto
  ultimately show "x \<le> cdiv_page ps x * ps" "cdiv_page ps x * ps < x + ps"
    unfolding cdiv_page_def by linarith+
qed

lemma cdiv_page_mono: "0 < ps \<Longrightarrow> x \<le> y \<Longrightarrow> cdiv_page ps x \<le> cdiv_page ps y"
  unfolding cdiv_page_def by (rule zdiv_mono1) auto

lemma cdiv_page_nonneg: "0 < ps \<Longrightarrow> 0 \<le> x \<Longrightarrow> 0 \<le> cdiv_page ps x"
  unfolding cdiv_page_def by (simp add: pos_imp_zdiv_nonneg_iff)

lemma cdiv_page_dvd: "0 < ps \<Longrightarrow> ps dvd x \<Longrightarrow> cdiv_page ps x = x div ps"
  unfolding cdiv_page_def by (rule int_div_pos_eq [of _ _ _ "ps - 1"]) (simp_all add: dvd_mult_div_cancel)

lemma cdiv_page_not_dvd:
  assumes "0 < ps" "x mod ps \<noteq> 0" shows "cdiv_page ps x = x div ps + 1"
proof -
  have "x = x div ps * ps + x mod ps" by simp
  then have "x + ps - 1 = ps * (x div ps + 1) + (x mod ps - 1)" by (simp add: algebra_simps)
  moreover have "0 \<le> x mod ps - 1" "x mod ps - 1 < ps"
    using assms pos_mod_bound[of ps x] pos_mod_sign[of ps x] by linarith+
  ultimately show ?thesis unfolding cdiv_page_def by (rule int_div_pos_eq)
qed

lemma sum_lanes:
  assumes "length pre = length seq" and "pid < length seq" and "length seq \<le> u"
  shows "sum_list (map2 (-)
           (map F (map (\<lambda>k. tl_load other seq (int k) (k \<le> pid)) [0..<u]))
           (map F (map (\<lambda>k. tl_load other pre (int k) (k \<le> pid)) [0..<u])))
         = sum_list (map (\<lambda>i. F (seq ! i) - F (pre ! i) :: int) [0..<Suc pid])"
proof -
  have "sum_list (map (\<lambda>k. F (tl_load other seq (int k) (k \<le> pid))
            - F (tl_load other pre (int k) (k \<le> pid))) [0..<u])
        = sum_list (map (\<lambda>i. F (seq ! i) - F (pre ! i)) [0..<Suc pid])"
    by (rule sum_list_masked) (use assms in \<open>auto simp: tl_load_def\<close>)
  then show ?thesis by (simp add: map2_map_map o_def)
qed

lemma cdiv_le_div:
  assumes "0 < ps" and "cdiv_page ps p * ps \<le> s"
  shows "cdiv_page ps p \<le> s div ps"
  using assms zdiv_mono1 [of "cdiv_page ps p * ps" s ps] by simp

lemma extend_part2:
  assumes "0 < ps"
  shows "extend_loc other ps p l free st (cdiv_page ps p * ps + int k)
         = tl_load other free (st + int k div ps) True * ps + int k mod ps"
  using assms by (simp add: extend_loc_def add.commute)

lemma extend_part3:
  assumes "0 < ps" and "cdiv_page ps p * ps \<le> s" and "int k < s mod ps"
  shows "extend_loc other ps p l free st (s div ps * ps + int k)
         = tl_load other free (st + (s div ps - cdiv_page ps p)) True * ps + int k"
proof -
  have k: "0 \<le> int k" "int k < ps"
    using assms(3) pos_mod_bound [OF assms(1), of s] by auto
  have "cdiv_page ps p * ps \<le> s div ps * ps"
    using cdiv_le_div [OF assms(1,2)] assms(1) by simp
  then have "\<not> s div ps * ps + int k < cdiv_page ps p * ps" using k by linarith
  with k assms(1) show ?thesis
    unfolding extend_loc_def by (simp add: div_pos_pos_trivial mod_pos_pos_trivial)
qed

lemma extend_writes_case1:
  assumes "0 < ps" and "s \<le> cdiv_page ps p * ps"
  shows "extend_writes other ps p s l free st base
         = map (\<lambda>k. (base + int k, l + 1 + int k)) [0..<nat (s - p)]"
  unfolding extend_writes_def using assms by (auto simp: extend_loc_def)

lemma extend_writes_case2:
  assumes "0 < ps" and "p \<le> s" and "cdiv_page ps p * ps \<le> s"
  shows "extend_writes other ps p s l free st base
         = map (\<lambda>k. (base + int k, l + 1 + int k)) [0..<nat (cdiv_page ps p * ps - p)]
         @ map (\<lambda>k. (base + (cdiv_page ps p * ps - p) + int k,
                      tl_load other free (st + int k div ps) True * ps + int k mod ps))
             [0..<nat (s div ps * ps - cdiv_page ps p * ps)]
         @ map (\<lambda>k. (base + (cdiv_page ps p * ps - p) + (s div ps * ps - cdiv_page ps p * ps) + int k,
                      tl_load other free (st + (s div ps - cdiv_page ps p)) True * ps + int k))
             [0..<nat (s mod ps)]"
proof -
  let ?C = "cdiv_page ps p * ps" and ?D = "s div ps * ps"
  let ?f = "\<lambda>k. (base + int k, extend_loc other ps p l free st (p + int k))"
  have pC: "p \<le> ?C" using cdiv_page_bounds [OF assms(1)] by simp
  have CD: "?C \<le> ?D" using cdiv_le_div [OF assms(1,3)] assms(1) by simp
  have Ds: "?D + s mod ps = s" by simp
  have m0: "0 \<le> s mod ps" using assms(1) by simp
  have n: "nat (s - p) = nat (?C - p) + (nat (?D - ?C) + nat (s mod ps))"
    using pC CD Ds m0 by linarith
  have 1: "map ?f [0..<nat (?C - p)] = map (\<lambda>k. (base + int k, l + 1 + int k)) [0..<nat (?C - p)]"
    by (auto simp: extend_loc_def)
  have 2: "?f (nat (?C - p) + k)
      = (base + (?C - p) + int k, tl_load other free (st + int k div ps) True * ps + int k mod ps)" for k
  proof -
    have "p + int (nat (?C - p) + k) = ?C + int k" using pC by simp
    then show ?thesis using extend_part2 [OF assms(1)] pC by (simp del: of_nat_add)
  qed
  have 3: "?f (nat (?C - p) + (nat (?D - ?C) + k))
      = (base + (?C - p) + (?D - ?C) + int k,
         tl_load other free (st + (s div ps - cdiv_page ps p)) True * ps + int k)"
    if "k \<in> set [0..<nat (s mod ps)]" for k
  proof -
    have e: "p + int (nat (?C - p) + (nat (?D - ?C) + k)) = ?D + int k" using pC CD by simp
    have e': "base + int (nat (?C - p) + (nat (?D - ?C) + k)) = base + (?C - p) + (?D - ?C) + int k"
      using pC CD by simp
    have "int k < s mod ps" using that by auto
    from extend_part3 [OF assms(1,3) this] show ?thesis unfolding e e' by simp
  qed
  have m3: "map (\<lambda>k. ?f (nat (?C - p) + (nat (?D - ?C) + k))) [0..<nat (s mod ps)]
      = map (\<lambda>k. (base + (?C - p) + (?D - ?C) + int k,
         tl_load other free (st + (s div ps - cdiv_page ps p)) True * ps + int k)) [0..<nat (s mod ps)]"
    by (rule map_cong [OF refl 3])
  have m2: "map (\<lambda>k. ?f (nat (?C - p) + k)) [0..<nat (?D - ?C)]
      = map (\<lambda>k. (base + (?C - p) + int k,
          tl_load other free (st + int k div ps) True * ps + int k mod ps)) [0..<nat (?D - ?C)]"
    by (rule map_cong [OF refl 2])
  show ?thesis
    unfolding extend_writes_def n map_upt_split 1 m3 m2 ..
qed

lemma extend_program_spec:
  assumes "0 < ps" and "length pre = length seq" and "pid < length seq" and "length seq \<le> u"
    and "pre ! pid \<le> seq ! pid" and "seq ! pid - pre ! pid \<le> int mx" and "length lst = length seq"
  shows "alloc_extend_program other pre seq lst free u ps mx pid =
    (extend_writes other (int ps) (pre ! pid) (seq ! pid) (lst ! pid) free
       (sum_list (map (\<lambda>i. cdiv_page (int ps) (seq ! i) - cdiv_page (int ps) (pre ! i)) [0..<pid]))
       (sum_list (map (\<lambda>i. seq ! i - pre ! i) [0..<pid])),
     push_bit 32 (sum_list (map (\<lambda>i. cdiv_page (int ps) (seq ! i) - cdiv_page (int ps) (pre ! i))
                              [0..<Suc pid]))
       OR sum_list (map (\<lambda>i. seq ! i - pre ! i) [0..<Suc pid]))"
proof -
  let ?P = "int ps" and ?s = "seq ! pid" and ?p = "pre ! pid" and ?l = "lst ! pid"
  let ?C = "cdiv_page ?P ?p * ?P"
  let ?N = "\<lambda>n. sum_list (map (\<lambda>i. cdiv_page ?P (seq ! i) - cdiv_page ?P (pre ! i)) [0..<n])"
  let ?E = "\<lambda>n. sum_list (map (\<lambda>i. seq ! i - pre ! i) [0..<n])"
  have P: "0 < ?P" using assms(1) by simp
  have E: "sum_list (map2 (-) (map (\<lambda>k. tl_load other seq (int k) (k \<le> pid)) [0..<u])
             (map (\<lambda>k. tl_load other pre (int k) (k \<le> pid)) [0..<u])) = ?E (Suc pid)"
    using sum_lanes [OF assms(2-4), of "\<lambda>x. x"] by (simp only: map_ident)
  note N = sum_lanes [OF assms(2-4), of "cdiv_page ?P" other]
  have ld: "tl_load other seq (int pid) True = ?s" "tl_load other pre (int pid) True = ?p"
    "tl_load other lst (int pid) True = ?l" using assms(2,3,7) by (simp_all add: tl_load_def)
  have Es: "?E (Suc pid) - (?s - ?p) = ?E pid"
    and Ns: "?N (Suc pid) - (cdiv_page ?P ?s - cdiv_page ?P ?p) = ?N pid" by simp_all
  have pC: "?p \<le> ?C" "?C < ?p + ?P" using cdiv_page_bounds [OF P] by simp_all
  show ?thesis
  proof (cases "?s \<le> ?C")
    case True
    then have n1: "min ?s ?C - ?p = ?s - ?p" "min (nat (?s - ?p)) ps = nat (?s - ?p)"
      using pC by linarith+
    show ?thesis
      unfolding alloc_extend_program_def Let_def E N ld Es Ns n1 filter_less_upt
      by (simp add: extend_writes_case1 [OF P True])
  next
    case False
    then have le: "?C \<le> ?s" by simp
    have CD: "?C \<le> ?s div ?P * ?P" using cdiv_le_div [OF P le] P by simp
    have Ds: "?s div ?P * ?P + ?s mod ?P = ?s" by simp
    have m0: "0 \<le> ?s mod ?P" "?s mod ?P < ?P" using P by simp_all
    have n1: "min ?s ?C - ?p = ?C - ?p" "min (nat (?C - ?p)) ps = nat (?C - ?p)"
      using pC le by linarith+
    have n2: "min (nat (?s div ?P * ?P - ?C)) mx = nat (?s div ?P * ?P - ?C)"
      using assms(6) pC CD Ds m0 by linarith
    have n3: "?s - ?s div ?P * ?P = ?s mod ?P" "min (nat (?s mod ?P)) ps = nat (?s mod ?P)"
      using Ds m0 by linarith+
    have g1: "\<not> ?p + (?C - ?p) = ?s" using False by simp
    have g2: "(?p + (?C - ?p) + (?s div ?P * ?P - ?C) = ?s) = (?s mod ?P = 0)"
      using Ds by linarith
    have st: "?N pid + (cdiv_page ?P ?s - cdiv_page ?P ?p) - 1
                = ?N pid + (?s div ?P - cdiv_page ?P ?p)" if "?s mod ?P \<noteq> 0"
      using cdiv_page_not_dvd [OF P that] by simp
    show ?thesis
    proof (cases "?s mod ?P = 0")
      case True
      then show ?thesis
        unfolding alloc_extend_program_def Let_def E N ld Es Ns n1 filter_less_upt n2 n3 g2
          extend_writes_case2 [OF P assms(5) le] using g1 by simp
    next
      case nz: False
      show ?thesis
        unfolding alloc_extend_program_def Let_def E N ld Es Ns n1 filter_less_upt n2 n3 g2
          extend_writes_case2 [OF P assms(5) le] st [OF nz] using g1 nz by simp
    qed
  qed
qed

section \<open>The launch of the extend kernel\<close>

lemma tl_stores_contiguous:
  assumes "map fst ws = map int [b..<b + length ws]" and "b + length ws \<le> length out"
  shows "tl_stores ws out = take b out @ map snd ws @ drop (b + length ws) out"
  using assms
proof (induction ws arbitrary: b out)
  case Nil
  then show ?case by (simp add: tl_stores_def)
next
  case (Cons w ws)
  have "[b..<b + length (w # ws)] = b # [Suc b..<Suc b + length ws]"
    by (simp add: upt_rec)
  with Cons.prems(1) have "fst w # map fst ws = int b # map int [Suc b..<Suc b + length ws]"
    by (simp only: list.map)
  then have fw: "fst w = int b" and ws: "map fst ws = map int [Suc b..<Suc b + length ws]"
    by (simp_all only: list.inject)
  have st: "tl_store w out = out[b := snd w]"
    using fw Cons.prems(2) by (simp add: tl_store_def)
  have "tl_stores (w # ws) out = tl_stores ws (out[b := snd w])"
    by (simp add: tl_stores_def st)
  also have "\<dots> = take (Suc b) (out[b := snd w]) @ map snd ws
                  @ drop (Suc b + length ws) (out[b := snd w])"
    using Cons.prems(2) by (intro Cons.IH [OF ws]) simp
  also have "take (Suc b) (out[b := snd w]) = take b out @ [snd w]"
    using Cons.prems(2) by (simp add: take_Suc_conv_app_nth)
  finally show ?case using Cons.prems(2) by simp
qed

lemma fst_extend_writes:
  "0 \<le> base \<Longrightarrow> map fst (extend_writes other ps p s l free st base)
     = map int [nat base..<nat base + nat (s - p)]"
proof -
  assume "0 \<le> base"
  have "[nat base..<nat base + nat (s - p)] = map (\<lambda>k. nat base + k) [0..<nat (s - p)]"
    using map_add_upt [of "nat base" "nat (s - p)"] by (simp add: add.commute)
  with \<open>0 \<le> base\<close> show ?thesis by (simp add: extend_writes_def)
qed

lemma concat_extend_writes_fst:
  assumes "\<And>i. i < n \<Longrightarrow> pre ! i \<le> seq ! i"
  shows "map fst (concat (map (\<lambda>i. extend_writes other ps (pre ! i) (seq ! i) (lst ! i) free (st i)
            (sum_list (map (\<lambda>i. seq ! i - pre ! i) [0..<i]))) [0..<n]))
         = map int [0..<nat (sum_list (map (\<lambda>i. seq ! i - pre ! i) [0..<n]))]"
  using assms
proof (induction n)
  case (Suc n)
  let ?E = "\<lambda>n. sum_list (map (\<lambda>i. seq ! i - pre ! i) [0..<n])"
  have E0: "0 \<le> ?E n" by (rule sum_list_upt_nonneg) (use Suc.prems in auto)
  have d: "0 \<le> seq ! n - pre ! n" using Suc.prems by simp
  have e: "nat (?E (Suc n)) = nat (?E n) + nat (seq ! n - pre ! n)" using E0 d by simp
  have u: "[0..<nat (?E (Suc n))] = [0..<nat (?E n)] @ [nat (?E n)..<nat (?E n) + nat (seq ! n - pre ! n)]"
    unfolding e by (rule upt_add_eq_append) simp
  have IH: "map fst (concat (map (\<lambda>i. extend_writes other ps (pre ! i) (seq ! i) (lst ! i) free (st i)
            (?E i)) [0..<n])) = map int [0..<nat (?E n)]"
    using Suc.prems by (intro Suc.IH) simp
  note w = fst_extend_writes [OF E0, of other ps "pre ! n" "seq ! n" "lst ! n" free "st n"]
  have n: "[0..<Suc n] = [0..<n] @ [n]" by simp
  show ?case unfolding u unfolding n map_append concat_append IH by (simp add: w)
qed simp

lemma alloc_extend_kernel_spec:
  assumes "0 < ps" and "length pre = length seq" and "length lst = length seq" and "seq \<noteq> []"
    and "length seq \<le> u"
    and "\<And>i. i < length seq \<Longrightarrow> pre ! i \<le> seq ! i"
    and "\<And>i. i < length seq \<Longrightarrow> seq ! i - pre ! i \<le> int mx"
    and "int (length out) = sum_list (map (\<lambda>i. seq ! i - pre ! i) [0..<length seq])"
  shows "alloc_extend_kernel other pre seq lst free out ret (length seq) u ps mx =
    (concat (map (\<lambda>i. map (\<lambda>k. extend_loc other (int ps) (pre ! i) (lst ! i) free
           (sum_list (map (\<lambda>j. cdiv_page (int ps) (seq ! j) - cdiv_page (int ps) (pre ! j)) [0..<i]))
           (pre ! i + int k)) [0..<nat (seq ! i - pre ! i)]) [0..<length seq]),
     push_bit 32 (sum_list (map (\<lambda>j. cdiv_page (int ps) (seq ! j) - cdiv_page (int ps) (pre ! j))
                              [0..<length seq]))
       OR sum_list (map (\<lambda>j. seq ! j - pre ! j) [0..<length seq]))"
proof -
  let ?run = "alloc_extend_program other pre seq lst free u ps mx"
  let ?N = "\<lambda>n. sum_list (map (\<lambda>j. cdiv_page (int ps) (seq ! j) - cdiv_page (int ps) (pre ! j)) [0..<n])"
  let ?E = "\<lambda>n. sum_list (map (\<lambda>j. seq ! j - pre ! j) [0..<n])"
  let ?w = "\<lambda>i. extend_writes other (int ps) (pre ! i) (seq ! i) (lst ! i) free (?N i) (?E i)"
  have run: "?run i = (?w i, push_bit 32 (?N (Suc i)) OR ?E (Suc i))" if "i < length seq" for i
    by (rule extend_program_spec) (use assms that in auto)
  let ?ws = "concat (map ?w [0..<length seq])"
  have f: "map fst ?ws = map int [0..<nat (?E (length seq))]"
    by (rule concat_extend_writes_fst) (use assms(6) in auto)
  have El: "nat (?E (length seq)) = length out" using assms(8) by (metis nat_int)
  have len: "length ?ws = length out"
    using arg_cong [OF f, of length] El by (simp only: length_map length_upt diff_zero)
  have "map (\<lambda>pid. fst (?run pid)) [0..<length seq] = map ?w [0..<length seq]"
    by (rule map_cong) (auto simp: run)
  moreover have "tl_stores ?ws out = map snd ?ws"
  proof -
    have "map fst ?ws = map int [0..<0 + length ?ws]" unfolding f len El by simp
    from tl_stores_contiguous [OF this] show ?thesis
      unfolding len by (simp only: take_0 append_Nil add_0 drop_all order_refl append_Nil2)
  qed
  moreover have "map snd ?ws = concat (map (\<lambda>i. map snd (?w i)) [0..<length seq])"
    by (simp add: map_concat o_def)
  moreover have "?run (length seq - 1) = (?w (length seq - 1), push_bit 32 (?N (length seq)) OR ?E (length seq))"
    using run [of "length seq - 1"] assms(4) by (cases seq) auto
  moreover have "map snd (?w i) = map (\<lambda>k. extend_loc other (int ps) (pre ! i) (lst ! i) free (?N i)
      (pre ! i + int k)) [0..<nat (seq ! i - pre ! i)]" for i
    by (simp add: extend_writes_def)
  moreover have "length seq \<noteq> 0" using assms(4) by simp
  ultimately show ?thesis
    by (simp only: alloc_extend_kernel_def Let_def if_False snd_conv)
qed

section \<open>Fresh pages\<close>

lemma merged_value_pages:
  assumes "0 \<le> e" and "e < 2 ^ 32"
  shows "drop_bit 32 (push_bit 32 p OR e) = (p :: int)"
proof -
  have "drop_bit 32 (push_bit 32 p) = p" unfolding drop_bit_eq_div push_bit_eq_mult by simp
  moreover have "drop_bit 32 e = 0" using assms by (simp add: drop_bit_eq_div)
  ultimately show ?thesis by simp
qed

lemma extend_args_nth:
  "extend_args pre seq lst \<Longrightarrow> i < length seq \<Longrightarrow> 0 \<le> pre ! i \<and> pre ! i \<le> seq ! i"
  by (auto simp: extend_args_def list_all2_conv_all_nth)

lemma new_pages_step:
  assumes "0 < ps" and "extend_args pre seq lst" and "i < length seq"
  shows "0 \<le> cdiv_page ps (seq ! i) - cdiv_page ps (pre ! i)"
  using cdiv_page_mono [OF assms(1)] extend_args_nth [OF assms(2,3)] by simp

lemma new_pages_mono:
  assumes "0 < ps" and "extend_args pre seq lst" and "i \<le> j" and "j \<le> length seq"
  shows "new_pages ps pre seq i \<le> new_pages ps pre seq j"
  unfolding new_pages_def
  by (rule sum_list_upt_mono) (use new_pages_step [OF assms(1,2)] assms(3,4) in auto)

lemma new_pages_nonneg:
  assumes "0 < ps" and "extend_args pre seq lst" and "j \<le> length seq"
  shows "0 \<le> new_pages ps pre seq j"
  using new_pages_mono [OF assms(1,2) _ assms(3), of 0] by (simp add: new_pages_def)

lemma new_tokens_bound:
  assumes "extend_args pre seq lst" and "i < length seq"
  shows "seq ! i - pre ! i \<le> new_tokens pre seq (length seq)" and "0 \<le> new_tokens pre seq (length seq)"
proof -
  have nn: "0 \<le> seq ! j - pre ! j" if "j < length seq" for j
    using extend_args_nth [OF assms(1) that] by simp
  have "0 \<le> sum_list (map (\<lambda>i. seq ! i - pre ! i) [0..<i])"
    by (rule sum_list_upt_nonneg) (use nn assms(2) in auto)
  then have "seq ! i - pre ! i \<le> sum_list (map (\<lambda>i. seq ! i - pre ! i) [0..<Suc i])" by simp
  also have "\<dots> \<le> new_tokens pre seq (length seq)"
    unfolding new_tokens_def by (rule sum_list_upt_mono) (use nn assms(2) in auto)
  finally show "seq ! i - pre ! i \<le> new_tokens pre seq (length seq)" .
  then show "0 \<le> new_tokens pre seq (length seq)" using nn [OF assms(2)] by simp
qed

lemma page_index_bounds:
  assumes "0 < ps" and "extend_args pre seq lst" and "i < length seq"
    and "pre ! i \<le> t" and "t < seq ! i" and "cdiv_page ps (pre ! i) * ps \<le> t"
  shows "new_pages ps pre seq i \<le> new_pages ps pre seq i + (t div ps - cdiv_page ps (pre ! i))"
    and "new_pages ps pre seq i + (t div ps - cdiv_page ps (pre ! i)) < new_pages ps pre seq (Suc i)"
proof -
  have "cdiv_page ps (pre ! i) \<le> t div ps" by (rule cdiv_le_div [OF assms(1,6)])
  then show "new_pages ps pre seq i \<le> new_pages ps pre seq i + (t div ps - cdiv_page ps (pre ! i))"
    by simp
  have "t < cdiv_page ps (seq ! i) * ps"
    using cdiv_page_bounds(1) [OF assms(1), of "seq ! i"] assms(5) by linarith
  then have "t div ps < cdiv_page ps (seq ! i)" by (rule div_less_of_less_mult [OF assms(1)])
  then show "new_pages ps pre seq i + (t div ps - cdiv_page ps (pre ! i)) < new_pages ps pre seq (Suc i)"
    by (simp add: new_pages_def)
qed

lemma extend_loc_page_table:
  assumes "0 < ps" and "extend_args pre seq lst" and "i < length seq" and "k < nat (seq ! i - pre ! i)"
    and "new_pages ps pre seq (length seq) \<le> int (length free)"
  shows "extend_loc other ps (pre ! i) (lst ! i) free (new_pages ps pre seq i) (pre ! i + int k)
    = page_table_loc ps (pre ! i) (lst ! i) (take (nat (new_pages ps pre seq (length seq))) free)
        (new_pages ps pre seq i) (pre ! i + int k)"
proof (cases "pre ! i + int k < cdiv_page ps (pre ! i) * ps")
  case False
  let ?j = "new_pages ps pre seq i + ((pre ! i + int k) div ps - cdiv_page ps (pre ! i))"
  have t: "pre ! i \<le> pre ! i + int k" "pre ! i + int k < seq ! i" using assms(4) by linarith+
  note b = page_index_bounds [OF assms(1-3) t]
  have "?j < new_pages ps pre seq (length seq)"
    using b(2) False new_pages_mono [OF assms(1,2), of "Suc i" "length seq"] assms(3) by linarith
  moreover have "0 \<le> ?j"
    using b(1) False new_pages_nonneg [OF assms(1,2), of i] assms(3) by linarith
  ultimately show ?thesis using False assms(5)
    by (simp add: extend_loc_def page_table_loc_def tl_load_def nat_less_eq_zless)
qed (simp add: extend_loc_def page_table_loc_def)

lemma kernel_extend_table:
  assumes "0 < ps" and "extend_args pre seq lst" and "length seq \<le> u"
    and "new_tokens pre seq (length seq) \<le> int mx"
    and "int (length out) = new_tokens pre seq (length seq)"
  shows "snd (alloc_extend_kernel other pre seq lst free out ret (length seq) u ps mx)
           = (push_bit 32 (new_pages (int ps) pre seq (length seq)) OR new_tokens pre seq (length seq))"
    and "new_pages (int ps) pre seq (length seq) \<le> int (length free) \<Longrightarrow>
         fst (alloc_extend_kernel other pre seq lst free out ret (length seq) u ps mx)
           = concat (extend_table (int ps) pre seq lst
                 (take (nat (new_pages (int ps) pre seq (length seq))) free))"
proof -
  have P: "0 < int ps" using assms(1) by simp
  have len: "length pre = length seq" "length lst = length seq" "seq \<noteq> []"
    using assms(2) by (auto simp: extend_args_def)
  have mx: "seq ! i - pre ! i \<le> int mx" if "i < length seq" for i
    using new_tokens_bound(1) [OF assms(2) that] assms(4) by linarith
  have le: "pre ! i \<le> seq ! i" if "i < length seq" for i
    using extend_args_nth [OF assms(2) that] by simp
  have eq: "alloc_extend_kernel other pre seq lst free out ret (length seq) u ps mx =
    (concat (map (\<lambda>i. map (\<lambda>k. extend_loc other (int ps) (pre ! i) (lst ! i) free
           (new_pages (int ps) pre seq i) (pre ! i + int k)) [0..<nat (seq ! i - pre ! i)]) [0..<length seq]),
     push_bit 32 (new_pages (int ps) pre seq (length seq)) OR new_tokens pre seq (length seq))"
    unfolding new_pages_def new_tokens_def
    by (rule alloc_extend_kernel_spec [OF assms(1) len assms(3)])
       (use mx le assms(5) in \<open>auto simp: new_tokens_def\<close>)
  show "snd (alloc_extend_kernel other pre seq lst free out ret (length seq) u ps mx)
           = (push_bit 32 (new_pages (int ps) pre seq (length seq)) OR new_tokens pre seq (length seq))"
    unfolding eq by simp
  assume N: "new_pages (int ps) pre seq (length seq) \<le> int (length free)"
  have "map (\<lambda>i. map (\<lambda>k. extend_loc other (int ps) (pre ! i) (lst ! i) free
           (new_pages (int ps) pre seq i) (pre ! i + int k)) [0..<nat (seq ! i - pre ! i)]) [0..<length seq]
     = extend_table (int ps) pre seq lst (take (nat (new_pages (int ps) pre seq (length seq))) free)"
    unfolding extend_table_def
    by (intro map_cong refl extend_loc_page_table [OF P assms(2)]) (use N in auto)
  then show "fst (alloc_extend_kernel other pre seq lst free out ret (length seq) u ps mx)
           = concat (extend_table (int ps) pre seq lst
                 (take (nat (new_pages (int ps) pre seq (length seq))) free))"
    unfolding eq by simp
qed

lemma cdiv_diff_le:
  assumes "0 < (ps::int)" and "p \<le> s"
  shows "cdiv_page ps s - cdiv_page ps p \<le> (s - p) div ps + 1"
proof -
  have "cdiv_page ps s * ps < s + ps" "p \<le> cdiv_page ps p * ps"
    using cdiv_page_bounds [OF assms(1)] by auto
  then have "(cdiv_page ps s - cdiv_page ps p) * ps < (s - p) + ps" by (simp add: algebra_simps)
  moreover have "s - p < ((s - p) div ps + 1) * ps"
    using assms(1) by (metis add.commute distrib_right mod_div_mult_eq mult_1 pos_mod_bound add_less_cancel_left)
  ultimately have "(cdiv_page ps s - cdiv_page ps p) * ps < ((s - p) div ps + 1 + 1) * ps"
    by (simp add: distrib_right)
  then have "cdiv_page ps s - cdiv_page ps p < (s - p) div ps + 1 + 1"
    using assms(1) mult_less_cancel_right_pos by blast
  then show ?thesis by simp
qed

lemma new_pages_estimate:
  assumes "0 < ps" and "\<And>i. i < n \<Longrightarrow> pre ! i \<le> seq ! i"
  shows "new_pages ps pre seq n \<le> new_tokens pre seq n div ps + int n"
  using assms(2)
proof (induction n)
  case (Suc n)
  then have IH: "new_pages ps pre seq n \<le> new_tokens pre seq n div ps + int n" by simp
  have "new_pages ps pre seq (Suc n)
        = new_pages ps pre seq n + (cdiv_page ps (seq ! n) - cdiv_page ps (pre ! n))"
    by (simp add: new_pages_def)
  also have "\<dots> \<le> new_tokens pre seq n div ps + int n + ((seq ! n - pre ! n) div ps + 1)"
    using IH cdiv_diff_le [OF assms(1), of "pre ! n" "seq ! n"] Suc.prems [of n] by linarith
  also have "\<dots> \<le> (new_tokens pre seq n + (seq ! n - pre ! n)) div ps + int (Suc n)"
    using div_add_le_int [OF assms(1), of "new_tokens pre seq n" "seq ! n - pre ! n"] by simp
  finally show ?case by (simp add: new_tokens_def)
qed (simp add: new_pages_def new_tokens_def)


section \<open>The launch of the decode kernel\<close>

lemma decode_extend_args:
  "decode_args seq lst \<Longrightarrow> extend_args (map (\<lambda>s. s - 1) seq) seq lst"
  by (auto simp: decode_args_def extend_args_def list_all2_conv_all_nth list_all_length)

lemma cdiv_pred_le:
  assumes "0 < ps"
  shows "cdiv_page ps s \<le> cdiv_page ps (s - 1) + 1"
proof (rule ccontr)
  assume "\<not> ?thesis"
  then have "(cdiv_page ps (s - 1) + 2) * ps \<le> cdiv_page ps s * ps" using assms by simp
  then show False
    using cdiv_page_bounds(2) [OF assms, of s] cdiv_page_bounds(1) [OF assms, of "s - 1"] assms
    by (simp add: algebra_simps)
qed

lemma decode_program_spec:
  assumes "0 < ps" and "decode_args seq lst" and "pid < length seq" and "length seq \<le> u"
  shows "alloc_decode_program other seq lst free u ps pid =
    ((int pid, extend_loc other (int ps) (seq ! pid - 1) (lst ! pid) free
        (new_pages (int ps) (map (\<lambda>s. s - 1) seq) seq pid) (seq ! pid - 1)),
     new_pages (int ps) (map (\<lambda>s. s - 1) seq) seq (Suc pid))"
proof -
  let ?P = "int ps" and ?s = "seq ! pid" and ?pre = "map (\<lambda>s. s - 1) seq"
  let ?C = "cdiv_page ?P (?s - 1)" and ?C' = "cdiv_page ?P ?s"
  let ?ld = "\<lambda>k. tl_load other seq (int k) (k \<le> pid)"
  have P: "0 < ?P" using assms(1) by simp
  have "sum_list (map (\<lambda>k. cdiv_page ?P (?ld k) - cdiv_page ?P (if k \<le> pid then ?ld k - 1 else ?ld k)) [0..<u])
      = sum_list (map (\<lambda>i. cdiv_page ?P (seq ! i) - cdiv_page ?P (?pre ! i)) [0..<Suc pid])"
    by (rule sum_list_masked) (use assms(3,4) in \<open>auto simp: tl_load_def\<close>)
  then have N: "sum_list (map2 (-) (map (cdiv_page ?P) (map ?ld [0..<u]))
        (map (cdiv_page ?P) (map2 (\<lambda>k s. if k \<le> pid then s - 1 else s) [0..<u] (map ?ld [0..<u]))))
      = new_pages ?P ?pre seq (Suc pid)"
    by (simp only: new_pages_def map2_self_map map_map map2_map_map o_def)
  have ld: "tl_load other seq (int pid) True = ?s" "tl_load other lst (int pid) True = lst ! pid"
    using assms(2,3) by (simp_all add: tl_load_def decode_args_def)
  have Ns: "new_pages ?P ?pre seq (Suc pid) - (?C' - ?C) = new_pages ?P ?pre seq pid"
    using assms(3) by (simp add: new_pages_def)
  have b: "?s - 1 \<le> ?C * ?P" "?s \<le> ?C' * ?P" "?C' * ?P < ?s + ?P" "?C * ?P < ?s - 1 + ?P"
    using cdiv_page_bounds [OF P, of ?s] cdiv_page_bounds [OF P, of "?s - 1"] by auto
  show ?thesis
  proof (cases "?C' - ?C = 0")
    case True
    then have "?s - 1 < ?C * ?P" using b by simp
    with True show ?thesis
      unfolding alloc_decode_program_def Let_def N ld Ns by (simp add: extend_loc_def)
  next
    case False
    have ge: "\<not> ?s - 1 < ?C * ?P"
    proof
      assume "?s - 1 < ?C * ?P"
      then have "?C' * ?P < (?C + 1) * ?P" using b by (simp add: algebra_simps)
      then have "?C' \<le> ?C" using P by (simp add: mult_less_cancel_right_pos)
      with False show False using cdiv_page_mono [OF P, of "?s - 1" ?s] by simp
    qed
    then have t: "?s - 1 = ?C * ?P" using b by simp
    then have "(?s - 1) div ?P = ?C" "(?s - 1) mod ?P = 0"
      using P by (metis nonzero_mult_div_cancel_right less_irrefl, metis mod_mult_self2_is_0)
    with False ge show ?thesis
      unfolding alloc_decode_program_def Let_def N ld Ns by (simp add: extend_loc_def)
  qed
qed


section \<open>Distinct locations\<close>

lemma partial_page:
  assumes "0 < ps" and "p \<le> t" and "t < cdiv_page ps p * ps"
  shows "p mod ps \<noteq> 0" and "t div ps = p div ps"
proof -
  show nz: "p mod ps \<noteq> 0"
  proof
    assume "p mod ps = 0"
    then have "cdiv_page ps p = p div ps" using cdiv_page_dvd [OF assms(1), of p] by auto
    with \<open>p mod ps = 0\<close> assms(2,3) show False
      by (simp add: minus_mod_eq_div_mult [symmetric])
  qed
  have "t < (p div ps + 1) * ps" using cdiv_page_not_dvd [OF assms(1) nz] assms(3) by simp
  then have "t div ps < p div ps + 1" by (rule div_less_of_less_mult [OF assms(1)])
  moreover have "p div ps \<le> t div ps" using assms(1,2) by (rule zdiv_mono1 [rotated])
  ultimately show "t div ps = p div ps" by simp
qed

lemma page_table_loc_page:
  assumes "0 < ps" and "p \<le> t" and "(l + 1) mod ps = p mod ps"
  shows "page_table_loc ps p l pages st t = extend_page ps p l pages st t * ps + t mod ps"
proof (cases "t < cdiv_page ps p * ps")
  case True
  note pp = partial_page [OF assms(1,2) True]
  have "(l + 1) mod ps \<noteq> 0" using pp(1) assms(3) by simp
  then have "l mod ps + 1 = p mod ps"
    using assms(1,3) by (metis mod_add_left_eq mod_pos_pos_trivial mod_self
        pos_mod_bound pos_mod_sign zless_imp_add1_zle order_le_less add_nonneg_nonneg zero_le_one)
  moreover have "t = t div ps * ps + t mod ps" "p = p div ps * ps + p mod ps"
    "l = l div ps * ps + l mod ps" by simp_all
  ultimately have "l + 1 + (t - p) = l div ps * ps + t mod ps"
    unfolding pp(2) by linarith
  with True show ?thesis by (simp add: page_table_loc_def extend_page_def)
qed (simp add: page_table_loc_def extend_page_def)

lemma fresh_page_index:
  assumes "0 < ps" and "extend_args pre seq lst" and "n < length seq"
    and "int (length pages) = new_pages ps pre seq (length seq)"
    and "pre ! n \<le> t" and "t < seq ! n" and "\<not> t < cdiv_page ps (pre ! n) * ps"
  obtains x where "extend_page ps (pre ! n) (lst ! n) pages (new_pages ps pre seq n) t = pages ! nat x"
    and "x = new_pages ps pre seq n + (t div ps - cdiv_page ps (pre ! n))"
    and "new_pages ps pre seq n \<le> x" and "x < new_pages ps pre seq (Suc n)"
    and "0 \<le> x" and "nat x < length pages"
proof -
  from assms(7) have "cdiv_page ps (pre ! n) * ps \<le> t" by simp
  note b = page_index_bounds [OF assms(1-3,5,6) this]
  have "0 \<le> new_pages ps pre seq n" using new_pages_nonneg [OF assms(1,2)] assms(3) by simp
  moreover have "new_pages ps pre seq (Suc n) \<le> int (length pages)"
    unfolding assms(4) using assms(3) by (intro new_pages_mono [OF assms(1,2)]) auto
  ultimately show ?thesis using b assms(7)
    by (intro that [of "new_pages ps pre seq n + (t div ps - cdiv_page ps (pre ! n))"])
       (auto simp: extend_page_def)
qed

lemma old_page:
  assumes "0 < ps" and "p \<le> t" and "t < cdiv_page ps p * ps"
  shows "extend_page ps p l pages st t = l div ps" and "p mod ps \<noteq> 0" and "t div ps = p div ps"
  using assms partial_page [OF assms] by (simp_all add: extend_page_def)

definition separate_pages :: "int \<Rightarrow> int list \<Rightarrow> int list \<Rightarrow> int list \<Rightarrow> bool" where
  \<comment> \<open>the partly filled pages differ from request to request and from the fresh pages\<close>
  "separate_pages ps pre_lens last_loc pages \<longleftrightarrow>
     (\<forall>i < length pre_lens. pre_lens ! i mod ps \<noteq> 0 \<longrightarrow> last_loc ! i div ps \<notin> set pages)
     \<and> (\<forall>i < length pre_lens. \<forall>j < length pre_lens. pre_lens ! i mod ps \<noteq> 0 \<longrightarrow> pre_lens ! j mod ps \<noteq> 0
          \<longrightarrow> last_loc ! i div ps = last_loc ! j div ps \<longrightarrow> i = j)"

lemma extend_page_inj:
  assumes "0 < ps" and args: "extend_args pre seq lst" and "distinct pages"
    and len: "int (length pages) = new_pages ps pre seq (length seq)"
    and sep: "separate_pages ps pre lst pages"
    and i: "i < length seq" and j: "j < length seq"
    and ti: "pre ! i \<le> t" "t < seq ! i" and tj: "pre ! j \<le> t'" "t' < seq ! j"
    and pg: "extend_page ps (pre ! i) (lst ! i) pages (new_pages ps pre seq i) t
             = extend_page ps (pre ! j) (lst ! j) pages (new_pages ps pre seq j) t'"
  shows "i = j \<and> t div ps = t' div ps"
proof (cases "t < cdiv_page ps (pre ! i) * ps"; cases "t' < cdiv_page ps (pre ! j) * ps")
  have [simp]: "length pre = length seq" using args by (simp add: extend_args_def)
  note old = old_page [OF assms(1)] and fresh = fresh_page_index [OF assms(1,2) _ len]
  {
    assume a: "t < cdiv_page ps (pre ! i) * ps" and b: "t' < cdiv_page ps (pre ! j) * ps"
    have "i = j" using old(1,2) [OF ti(1) a] old(1,2) [OF tj(1) b] pg sep i j
      by (simp add: separate_pages_def)
    then show ?thesis using old(3) [OF ti(1) a] old(3) [OF tj(1) b] by simp
  next
    assume a: "t < cdiv_page ps (pre ! i) * ps" and b: "\<not> t' < cdiv_page ps (pre ! j) * ps"
    show ?thesis using fresh [OF j tj b] old(1,2) [OF ti(1) a] pg sep i
      by (metis nth_mem separate_pages_def \<open>length pre = length seq\<close>)
  next
    assume a: "\<not> t < cdiv_page ps (pre ! i) * ps" and b: "t' < cdiv_page ps (pre ! j) * ps"
    show ?thesis using fresh [OF i ti a] old(1,2) [OF tj(1) b] pg sep j
      by (metis nth_mem separate_pages_def \<open>length pre = length seq\<close>)
  next
    assume a: "\<not> t < cdiv_page ps (pre ! i) * ps" and b: "\<not> t' < cdiv_page ps (pre ! j) * ps"
    from fresh [OF i ti a] obtain x where x: "extend_page ps (pre ! i) (lst ! i) pages (new_pages ps pre seq i) t = pages ! nat x"
      "x = new_pages ps pre seq i + (t div ps - cdiv_page ps (pre ! i))"
      "new_pages ps pre seq i \<le> x" "x < new_pages ps pre seq (Suc i)" "0 \<le> x" "nat x < length pages" .
    from fresh [OF j tj b] obtain y where y: "extend_page ps (pre ! j) (lst ! j) pages (new_pages ps pre seq j) t' = pages ! nat y"
      "y = new_pages ps pre seq j + (t' div ps - cdiv_page ps (pre ! j))"
      "new_pages ps pre seq j \<le> y" "y < new_pages ps pre seq (Suc j)" "0 \<le> y" "nat y < length pages" .
    have "nat x = nat y" using pg x(1,6) y(1,6) assms(3) by (simp add: nth_eq_iff_index_eq)
    then have xy: "x = y" using x(5) y(5) by simp
    have "i = j"
    proof (rule ccontr)
      assume "i \<noteq> j"
      then consider "Suc i \<le> j" | "Suc j \<le> i" by linarith
      then show False
        using new_pages_mono [OF assms(1,2), of "Suc i" j] new_pages_mono [OF assms(1,2), of "Suc j" i]
          x(3,4) y(3,4) xy i j by cases linarith+
    qed
    then show ?thesis using x(2) y(2) xy by simp
  }
qed

lemma extend_table_distinct:
  assumes "0 < ps" and "extend_args pre seq lst" and "distinct pages"
    and "int (length pages) = new_pages ps pre seq (length seq)"
    and mods: "list_all2 (\<lambda>l p. (l + 1) mod ps = p mod ps) lst pre"
    and "separate_pages ps pre lst pages"
  shows "distinct (concat (extend_table ps pre seq lst pages))"
  unfolding extend_table_def
proof (rule distinct_concat_rows)
  fix i j k k'
  let ?g = "\<lambda>i t. page_table_loc ps (pre ! i) (lst ! i) pages (new_pages ps pre seq i) t"
  let ?pg = "\<lambda>i t. extend_page ps (pre ! i) (lst ! i) pages (new_pages ps pre seq i) t"
  assume i: "i < length seq" and j: "j < length seq" and k: "k < nat (seq ! i - pre ! i)"
    and k': "k' < nat (seq ! j - pre ! j)" and eq: "?g i (pre ! i + int k) = ?g j (pre ! j + int k')"
  let ?t = "pre ! i + int k" and ?t' = "pre ! j + int k'"
  have len: "length pre = length seq" "length lst = length seq" using assms(2) by (simp_all add: extend_args_def)
  have ti: "pre ! i \<le> ?t" "?t < seq ! i" and tj: "pre ! j \<le> ?t'" "?t' < seq ! j"
    using k k' by linarith+
  have m: "(lst ! i + 1) mod ps = pre ! i mod ps" "(lst ! j + 1) mod ps = pre ! j mod ps"
    using mods i j len by (auto simp: list_all2_conv_all_nth)
  have e: "?pg i ?t * ps + ?t mod ps = ?pg j ?t' * ps + ?t' mod ps"
    using eq page_table_loc_page [OF assms(1) ti(1) m(1)] page_table_loc_page [OF assms(1) tj(1) m(2)] by simp
  have pg: "?pg i ?t = ?pg j ?t'"
    using arg_cong [OF e, of "\<lambda>x. x div ps"] assms(1) by (simp add: div_pos_pos_trivial)
  with e have "?t mod ps = ?t' mod ps" by simp
  moreover have ij: "i = j \<and> ?t div ps = ?t' div ps"
    by (rule extend_page_inj [OF assms(1-4,6) i j ti tj pg])
  ultimately have "?t = ?t'" by (metis mult_div_mod_eq)
  with ij show "i = j \<and> k = k'" by auto
qed

lemma extend_table_pages:
  \<comment> \<open>a location is in a fresh page, or in the partly filled page of a request behind its last token\<close>
  assumes "0 < ps" and "extend_args pre seq lst" and "int (length pages) = new_pages ps pre seq (length seq)"
    and mods: "list_all2 (\<lambda>l p. (l + 1) mod ps = p mod ps) lst pre" and x: "x \<in> set (concat (extend_table ps pre seq lst pages))"
  shows "x div ps \<in> set pages \<or> (\<exists>i < length pre. pre ! i mod ps \<noteq> 0 \<and> x div ps = lst ! i div ps \<and> lst ! i < x)"
proof -
  have len: "length pre = length seq" "length lst = length seq" using assms(2) by (simp_all add: extend_args_def)
  obtain i k where i: "i < length seq" and k: "k < nat (seq ! i - pre ! i)"
    and xe: "x = page_table_loc ps (pre ! i) (lst ! i) pages (new_pages ps pre seq i) (pre ! i + int k)"
    using x by (auto simp: extend_table_def)
  let ?t = "pre ! i + int k"
  have t: "pre ! i \<le> ?t" "?t < seq ! i" using k by linarith+
  have m: "(lst ! i + 1) mod ps = pre ! i mod ps" using mods i len by (auto simp: list_all2_conv_all_nth)
  have d: "x div ps = extend_page ps (pre ! i) (lst ! i) pages (new_pages ps pre seq i) ?t"
    unfolding xe page_table_loc_page [OF assms(1) t(1) m] using assms(1) by (simp add: div_pos_pos_trivial)
  show ?thesis
  proof (cases "?t < cdiv_page ps (pre ! i) * ps")
    case True
    have "lst ! i < x" unfolding xe page_table_loc_def using True by simp
    then show ?thesis using d old_page [OF assms(1) t(1) True] i len by (intro disjI2 exI [of _ i]) simp
  next
    case False
    from fresh_page_index [OF assms(1,2) i assms(3) t False] d show ?thesis by (metis nth_mem)
  qed
qed

lemma extend_table_length:
  assumes "extend_args pre seq lst"
  shows "int (length (concat (extend_table ps pre seq lst pages))) = new_tokens pre seq (length seq)"
proof -
  have "int (sum_list (map (\<lambda>i. nat (f i)) xs)) = sum_list (map f xs)" if "\<forall>i\<in>set xs. 0 \<le> f i" for f :: "nat \<Rightarrow> int" and xs
    using that by (induction xs) auto
  note s = this [of "[0..<length seq]" "\<lambda>i. seq ! i - pre ! i"]
  have "0 \<le> seq ! i - pre ! i" if "i < length seq" for i
    using assms that by (simp add: extend_args_def list_all2_conv_all_nth)
  then show ?thesis using s by (simp add: extend_table_def length_concat o_def new_tokens_def)
qed

end
