(* ===== verification/Paged_Allocator.thy ===== *)
theory Paged_Allocator
  imports Paged_Kernels
begin

text \<open>
  The paged allocator of \<^verbatim>\<open>mem_cache/allocator.py\<close>, on top of its kernels: its methods, the
  proof that it keeps the allocator contract slot by slot, and what the two kernel-backed
  allocations return.
\<close>

unbundle bit_operations_syntax

section \<open>PagedTokenToKVPoolAllocator\<close>

record paged_allocator = kv_allocator +
  num_pages :: nat
  debug_mode :: bool
  ret_values :: int
  seen_max_num_extend_tokens_next_power_of_2 :: nat

definition paged_clear :: "paged_allocator \<Rightarrow> paged_allocator" where
  "paged_clear a = a\<lparr>free_pages := [1..int (num_pages a)], is_not_in_free_group := True,
                     free_group := [], release_pages := []\<rparr>"

definition paged_init :: "nat \<Rightarrow> nat \<Rightarrow> bool \<Rightarrow> bool \<Rightarrow> int \<Rightarrow> paged_allocator" where
  \<comment> \<open>\<open>debug\<close> is the environment variable, \<open>ret\<close> the content of the fresh return cell\<close>
  "paged_init n ps srt debug ret = paged_clear
     \<lparr>al_size = n, al_page_size = ps, need_sort = srt, free_pages = [], release_pages = [],
      is_not_in_free_group = True, free_group = [], num_pages = n div ps, debug_mode = debug,
      ret_values = ret, seen_max_num_extend_tokens_next_power_of_2 = 1\<rparr>"

definition page_slots :: "int \<Rightarrow> int \<Rightarrow> int list" where
  "page_slots page_size p = map (\<lambda>off. p * page_size + off) [0..page_size - 1]"

definition paged_alloc ::
  "nat \<Rightarrow> paged_allocator \<Rightarrow> (int list option \<times> paged_allocator) res" where
  "paged_alloc need_size a =
     res_bind (py_assert (\<not> debug_mode a \<or> need_size mod al_page_size a = 0)) (\<lambda>_.
       let n = need_size div al_page_size a;
           a1 = (if need_sort a \<and> n > length (free_pages a) then merge_and_sort_free a else a)
       in if n > length (free_pages a1) then Inr (None, a1)
          else Inr (Some (concat (map (page_slots (int (al_page_size a))) (take n (free_pages a1)))),
                    a1\<lparr>free_pages := drop n (free_pages a1)\<rparr>))"

definition extend_prepared :: "nat \<Rightarrow> nat \<Rightarrow> paged_allocator \<Rightarrow> paged_allocator" where
  \<comment> \<open>the allocator as the extend kernel sees it\<close>
  "extend_prepared n bs a =
     (let a1 = a\<lparr>seen_max_num_extend_tokens_next_power_of_2 :=
                  max (seen_max_num_extend_tokens_next_power_of_2 a) (next_power_of_2 (int n))\<rparr>
      in if need_sort a1 \<and> n div al_page_size a1 + bs + 1 > length (free_pages a1)
         then merge_and_sort_free a1 else a1)"

definition paged_alloc_extend ::
  "int \<Rightarrow> int list \<Rightarrow> int list \<Rightarrow> int list \<Rightarrow> nat \<Rightarrow> paged_allocator
     \<Rightarrow> (int list option \<times> paged_allocator) res" where
  "paged_alloc_extend other prefix_lens seq_lens last_loc extend_num_tokens a =
     res_bind (py_assert (\<not> debug_mode a \<or>
         list_all2 (\<lambda>l p. (l + 1) mod int (al_page_size a) = p mod int (al_page_size a))
           last_loc prefix_lens)) (\<lambda>_.
       let bs = length prefix_lens;
           a2 = extend_prepared extend_num_tokens bs a
       in (case alloc_extend_kernel other prefix_lens seq_lens last_loc (free_pages a2)
                  (replicate extend_num_tokens other) (ret_values a2) bs
                  (next_power_of_2 (int bs)) (al_page_size a2)
                  (seen_max_num_extend_tokens_next_power_of_2 a2) of
             (out_indices, merged_value) \<Rightarrow>
               let a3 = a2\<lparr>ret_values := merged_value\<rparr>;
                   num_new_pages = drop_bit 32 merged_value
               in res_bind (py_assert (\<not> debug_mode a
                      \<or> length (torch_unique out_indices) = length out_indices)) (\<lambda>_.
                    if num_new_pages > int (length (free_pages a3)) then Inr (None, a3)
                    else Inr (Some out_indices,
                              a3\<lparr>free_pages := py_drop num_new_pages (free_pages a3)\<rparr>))))"

definition paged_alloc_decode ::
  "int \<Rightarrow> int list \<Rightarrow> int list \<Rightarrow> paged_allocator
     \<Rightarrow> (int list option \<times> paged_allocator) res" where
  "paged_alloc_decode other seq_lens last_loc a =
     res_bind (py_assert (\<not> debug_mode a \<or>
         list_all2 (\<lambda>l s. (l + 2) mod int (al_page_size a) = s mod int (al_page_size a))
           last_loc seq_lens)) (\<lambda>_.
       let bs = length seq_lens;
           a1 = (if need_sort a \<and> bs > length (free_pages a) then merge_and_sort_free a else a)
       in (case alloc_decode_kernel other seq_lens last_loc (free_pages a1)
                  (replicate bs other) (ret_values a1) bs
                  (next_power_of_2 (int bs)) (al_page_size a1) of
             (out_indices, num_new_pages) \<Rightarrow>
               let a2 = a1\<lparr>ret_values := num_new_pages\<rparr>
               in res_bind (py_assert (\<not> debug_mode a
                      \<or> length (torch_unique out_indices) = length out_indices)) (\<lambda>_.
                    if num_new_pages > int (length (free_pages a2)) then Inr (None, a2)
                    else Inr (Some out_indices,
                              a2\<lparr>free_pages := py_drop num_new_pages (free_pages a2)\<rparr>))))"

definition paged_free :: "int list \<Rightarrow> paged_allocator \<Rightarrow> paged_allocator res" where
  "paged_free free_index a =
     (if free_index = [] then Inr a
      else
        let free_page_indices = torch_unique (map (\<lambda>i. i div int (al_page_size a)) free_index);
            a' = (if is_not_in_free_group a then
                    (if need_sort a
                     then a\<lparr>release_pages := free_page_indices @ release_pages a\<rparr>
                     else a\<lparr>free_pages := free_page_indices @ free_pages a\<rparr>)
                  else a\<lparr>free_group := free_group a @ [free_index]\<rparr>)
        in res_bind (py_assert (\<not> debug_mode a
               \<or> length (torch_unique (free_pages a')) = length (free_pages a')))
             (\<lambda>_. Inr a'))"

definition paged_free_group_end :: "paged_allocator \<Rightarrow> paged_allocator res" where
  "paged_free_group_end = free_group_end paged_free"


section \<open>Page-wise allocation keeps the contract\<close>

definition paged_pool :: "nat \<Rightarrow> paged_allocator \<Rightarrow> int multiset" where
  \<comment> \<open>the slots of the pages the allocator holds\<close>
  "paged_pool ps a = mset (concat (map (page_slots (int ps)) (free_pages a @ release_pages a)))"

definition paged_ok :: "nat \<Rightarrow> paged_allocator \<Rightarrow> bool" where
  "paged_ok ps a \<longleftrightarrow> al_page_size a = ps \<and> 0 < ps \<and> \<not> debug_mode a \<and> is_not_in_free_group a
     \<and> (need_sort a \<or> release_pages a = [])"

definition whole_pages :: "nat \<Rightarrow> int list \<Rightarrow> bool" where
  "whole_pages ps xs \<longleftrightarrow>
     mset xs = mset (concat (map (page_slots (int ps)) (torch_unique (map (\<lambda>i. i div int ps) xs))))"

lemma merge_paged_frame [simp]:
  "seen_max_num_extend_tokens_next_power_of_2 (merge_and_sort_free a)
     = seen_max_num_extend_tokens_next_power_of_2 a"
  "debug_mode (merge_and_sort_free a) = debug_mode a"
  "num_pages (merge_and_sort_free a) = num_pages a"
  by (simp_all add: merge_and_sort_free_def)

lemma mset_concat_pages: "mset (concat (map f xs)) = sum_mset (image_mset (\<lambda>x. mset (f x)) (mset xs))"
  by (induction xs) auto

lemma paged_pool_pages:
  "paged_pool ps a = sum_mset (image_mset (\<lambda>p. mset (page_slots (int ps) p)) (pool_pages a))"
  by (simp only: paged_pool_def mset_concat_pages pool_pages_def mset_append)

lemma paged_pool_take:
  "paged_pool ps a = mset (concat (map (page_slots (int ps)) (take n (free_pages a))))
     + paged_pool ps (a\<lparr>free_pages := drop n (free_pages a)\<rparr>)"
  unfolding paged_pool_pages by (subst pool_pages_take [of a n]) (simp add: mset_concat_pages)

lemma paged_alloc_law:
  assumes "paged_ok ps a"
  shows "\<exists>r a'. paged_alloc n a = Inr (r, a') \<and> paged_ok ps a'
    \<and> paged_pool ps a = mset (case r of None \<Rightarrow> [] | Some xs \<Rightarrow> xs) + paged_pool ps a'"
proof -
  let ?n = "n div al_page_size a"
  define a1 where "a1 = (if need_sort a \<and> ?n > length (free_pages a) then merge_and_sort_free a else a)"
  have ok1: "paged_ok ps a1" and pool1: "paged_pool ps a1 = paged_pool ps a"
    using assms by (auto simp: a1_def paged_ok_def paged_pool_pages)
  have run: "paged_alloc n a = (if ?n > length (free_pages a1) then Inr (None, a1)
      else Inr (Some (concat (map (page_slots (int ps)) (take ?n (free_pages a1)))),
                a1\<lparr>free_pages := drop ?n (free_pages a1)\<rparr>))"
    using assms unfolding paged_alloc_def Let_def a1_def [symmetric] by (simp add: paged_ok_def)
  show ?thesis
  proof (cases "?n > length (free_pages a1)")
    case True
    with run ok1 pool1 show ?thesis by simp
  next
    case False
    have "paged_ok ps (a1\<lparr>free_pages := drop ?n (free_pages a1)\<rparr>)" using ok1 by (simp add: paged_ok_def)
    with run False pool1 paged_pool_take [of ps a1 ?n] show ?thesis by simp
  qed
qed

lemma paged_free_law:
  assumes "paged_ok ps a" and "whole_pages ps xs"
  shows "\<exists>a'. paged_free xs a = Inr a' \<and> paged_ok ps a' \<and> paged_pool ps a' = mset xs + paged_pool ps a"
proof (cases "xs = []")
  case True
  with assms show ?thesis by (simp add: paged_free_def)
next
  case False
  let ?u = "torch_unique (map (\<lambda>i. i div int ps) xs)"
  have xs: "mset xs = sum_mset (image_mset (\<lambda>p. mset (page_slots (int ps) p)) (mset ?u))"
    using assms(2) by (simp add: whole_pages_def mset_concat_pages)
  show ?thesis
    using assms(1) False unfolding xs
    by (auto simp: paged_free_def Let_def paged_ok_def paged_pool_pages pool_pages_def)
qed

interpretation paged: slot_allocator paged_alloc paged_free "paged_pool ps" "paged_ok ps" "whole_pages ps"
  for ps :: nat
  by unfold_locales (rule paged_alloc_law paged_free_law; assumption)+

lemma paged_init_ok: "0 < ps \<Longrightarrow> paged_ok ps (paged_init n ps srt False r)"
  by (simp add: paged_init_def paged_clear_def paged_ok_def)

lemma mset_page_slots: "0 < ps \<Longrightarrow> mset (page_slots ps p) = mset_set {p * ps..<p * ps + ps}"
proof -
  assume "0 < ps"
  have "distinct (page_slots ps p)" by (simp add: page_slots_def distinct_map)
  moreover have "set (page_slots ps p) = {p * ps..<p * ps + ps}"
    by (auto simp: page_slots_def image_iff intro!: bexI [of _ "_ - p * ps"])
  ultimately show ?thesis by (metis mset_set_set)
qed

lemma mset_pages_range:
  "0 < ps \<Longrightarrow> mset (concat (map (page_slots (int ps)) [1..int n])) = mset_set {int ps..<(int n + 1) * int ps}"
proof (induction n)
  case (Suc n)
  have u: "[1..int (Suc n)] = [1..int n] @ [int (Suc n)]" by (simp add: upto_rec2)
  let ?l = "int ps" and ?m = "(int n + 1) * int ps" and ?r = "(int n + 2) * int ps"
  have "?l \<le> ?m" "?m \<le> ?r" by (simp_all add: distrib_right)
  then have "{?l..<?r} = {?l..<?m} \<union> {?m..<?r}" "{?l..<?m} \<inter> {?m..<?r} = {}" by auto
  then have sp: "mset_set {?l..<?r} = mset_set {?l..<?m} + mset_set {?m..<?r}"
    by (simp add: mset_set_Union)
  have e: "(int (Suc n) + 1) * int ps = ?r" "int (Suc n) * int ps = ?m" "?m + int ps = ?r"
    by (simp_all add: algebra_simps)
  have "mset (concat (map (page_slots (int ps)) [1..int (Suc n)]))
      = mset_set {?l..<?m} + mset_set {int (Suc n) * int ps..<int (Suc n) * int ps + int ps}"
    using Suc by (simp add: u mset_page_slots del: of_nat_Suc)
  then show ?case unfolding e sp .
qed simp

lemma paged_init_pool:
  "0 < ps \<Longrightarrow> paged_pool ps (paged_init n ps srt False r) = mset_set {int ps..<(int (n div ps) + 1) * int ps}"
  by (simp add: paged_pool_def paged_init_def paged_clear_def mset_pages_range)

section \<open>Kernel-backed allocation\<close>

lemma extend_prepared_simps:
  "al_page_size (extend_prepared n bs a) = al_page_size a"
  "pool_pages (extend_prepared n bs a) = pool_pages a"
  "int n \<le> int (seen_max_num_extend_tokens_next_power_of_2 (extend_prepared n bs a))"
  using next_power_of_2_ge [of "int n"]
  by (auto simp: extend_prepared_def Let_def pool_pages_def merge_and_sort_free_def le_max_iff_disj)

lemma extend_prepared_enough:
  assumes "need_sort a \<or> release_pages a = []" and "k \<le> n div al_page_size a + bs"
    and "k > length (free_pages (extend_prepared n bs a))"
  shows "length (free_pages (extend_prepared n bs a)) = size (pool_pages a)"
  using assms by (auto simp: extend_prepared_def Let_def size_pool_pages split: if_splits)

lemma paged_alloc_extend_run:
  assumes "0 < al_page_size a" and "\<not> debug_mode a"
    and "extend_args pre seq lst" and "int n = new_tokens pre seq (length seq)" and "n < 2 ^ 32"
    and N: "N = new_pages (int (al_page_size a)) pre seq (length seq)"
    and b: "b = extend_prepared n (length seq) a"
  shows "\<exists>ret. paged_alloc_extend other pre seq lst n a =
      (if N > int (length (free_pages b)) then Inr (None, b\<lparr>ret_values := ret\<rparr>)
       else Inr (Some (concat (extend_table (int (al_page_size a)) pre seq lst (take (nat N) (free_pages b)))),
                 b\<lparr>ret_values := ret, free_pages := drop (nat N) (free_pages b)\<rparr>))"
proof -
  let ?ps = "al_page_size a" and ?bs = "length seq"
  let ?K = "alloc_extend_kernel other pre seq lst (free_pages b) (replicate n other) (ret_values b)
     ?bs (next_power_of_2 (int ?bs)) ?ps (seen_max_num_extend_tokens_next_power_of_2 b)"
  have len: "length pre = ?bs" using assms(3) by (simp add: extend_args_def)
  have u: "?bs \<le> next_power_of_2 (int ?bs)" using next_power_of_2_ge [of "int ?bs"] by simp
  note bs = extend_prepared_simps [of n ?bs a, folded b]
  note k = kernel_extend_table [OF assms(1,3) u, where out = "replicate n other" and other = other
      and mx = "seen_max_num_extend_tokens_next_power_of_2 b" and free = "free_pages b" and ret = "ret_values b",
      folded N]
  have "int n < 2 ^ 32" using assms(5) by simp
  then have "drop_bit 32 (snd ?K) = N"
    using k(1) bs(3) assms(4) merged_value_pages [of "new_tokens pre seq ?bs" N] by simp
  moreover have "0 \<le> N"
    unfolding N using assms(1) by (intro new_pages_nonneg [OF _ assms(3)]) simp_all
  ultimately have "paged_alloc_extend other pre seq lst n a =
      (if N > int (length (free_pages b)) then Inr (None, b\<lparr>ret_values := snd ?K\<rparr>)
       else Inr (Some (fst ?K), b\<lparr>ret_values := snd ?K, free_pages := drop (nat N) (free_pages b)\<rparr>))"
    using assms(2) len bs(1) unfolding b
    by (simp add: paged_alloc_extend_def Let_def case_prod_beta py_drop_nat)
  moreover have "fst ?K = concat (extend_table (int ?ps) pre seq lst (take (nat N) (free_pages b)))"
    if "\<not> N > int (length (free_pages b))"
    using k(2) bs(3) assms(4) that by simp
  ultimately show ?thesis by auto
qed

lemma alloc_result_SomeI:
  assumes "int (length pages) = N" and "held = mset pages + pool_pages b"
    and "run = Inr (Some (concat (table pages)), b)"
  shows "\<exists>r a'. run = Inr (r, a') \<and>
    (case r of None \<Rightarrow> N > int (size held) \<and> pool_pages a' = held
     | Some out \<Rightarrow> \<exists>pages. int (length pages) = N \<and> held = mset pages + pool_pages a' \<and> out = concat (table pages))"
  using assms by auto

lemma paged_alloc_extend_spec:
  assumes "0 < al_page_size a" and "\<not> debug_mode a" and "need_sort a \<or> release_pages a = []"
    and "extend_args pre seq lst" and "int n = new_tokens pre seq (length seq)" and "n < 2 ^ 32"
  shows "\<exists>r a'. paged_alloc_extend other pre seq lst n a = Inr (r, a') \<and>
    (case r of
       None \<Rightarrow> new_pages (int (al_page_size a)) pre seq (length seq) > int (size (pool_pages a))
               \<and> pool_pages a' = pool_pages a
     | Some out \<Rightarrow> \<exists>pages. int (length pages) = new_pages (int (al_page_size a)) pre seq (length seq)
               \<and> pool_pages a = mset pages + pool_pages a'
               \<and> out = concat (extend_table (int (al_page_size a)) pre seq lst pages))"
proof -
  let ?bs = "length seq"
  define N where "N = new_pages (int (al_page_size a)) pre seq ?bs"
  define b where "b = extend_prepared n ?bs a"
  note bs = extend_prepared_simps [of n ?bs a, folded b_def]
  have P: "0 < int (al_page_size a)" using assms(1) by simp
  have N0: "0 \<le> N" unfolding N_def by (rule new_pages_nonneg [OF P assms(4)]) simp
  have "N \<le> int (n div al_page_size a + ?bs)"
    using new_pages_estimate [OF P, of ?bs pre seq] extend_args_nth [OF assms(4)] assms(5)
    by (simp add: zdiv_int N_def)
  then have est: "nat N \<le> n div al_page_size a + ?bs" by linarith
  obtain ret where run:
    "paged_alloc_extend other pre seq lst n a =
      (if N > int (length (free_pages b)) then Inr (None, b\<lparr>ret_values := ret\<rparr>)
       else Inr (Some (concat (extend_table (int (al_page_size a)) pre seq lst (take (nat N) (free_pages b)))),
                 b\<lparr>ret_values := ret, free_pages := drop (nat N) (free_pages b)\<rparr>))"
    using paged_alloc_extend_run [OF assms(1,2,4-6) N_def b_def] by (rule exE)
  show ?thesis
  proof (cases "N > int (length (free_pages b))")
    case True
    then have "nat N > length (free_pages b)" by linarith
    from extend_prepared_enough [OF assms(3) est this [unfolded b_def], folded b_def]
    have "length (free_pages b) = size (pool_pages a)" .
    with True run bs(2) show ?thesis by (simp add: pool_pages_def N_def)
  next
    case False
    let ?pages = "take (nat N) (free_pages b)"
    let ?b = "b\<lparr>ret_values := ret, free_pages := drop (nat N) (free_pages b)\<rparr>"
    have l: "int (length ?pages) = N" using False N0 by simp
    have p: "pool_pages a = mset ?pages + pool_pages ?b"
      using pool_pages_take [of b "nat N"] bs(2) by (simp add: pool_pages_def add.assoc)
    have "paged_alloc_extend other pre seq lst n a
        = Inr (Some (concat (extend_table (int (al_page_size a)) pre seq lst ?pages)), ?b)"
      unfolding run using False by (rule if_not_P)
    with l p show ?thesis unfolding N_def by (rule alloc_result_SomeI)
  qed
qed

lemma alloc_decode_kernel_spec:
  assumes "0 < ps" and "decode_args seq lst"
    and "new_pages (int ps) (map (\<lambda>s. s - 1) seq) seq (length seq) = N"
  shows "snd (alloc_decode_kernel other seq lst free (replicate (length seq) other) ret (length seq)
                (next_power_of_2 (int (length seq))) ps) = N"
    and "N \<le> int (length free) \<Longrightarrow>
         fst (alloc_decode_kernel other seq lst free (replicate (length seq) other) ret (length seq)
                (next_power_of_2 (int (length seq))) ps)
           = concat (extend_table (int ps) (map (\<lambda>s. s - 1) seq) seq lst (take (nat N) free))"
proof -
  let ?bs = "length seq" and ?pre = "map (\<lambda>s. s - 1) seq"
  let ?N = "new_pages (int ps) ?pre seq"
  let ?run = "alloc_decode_program other seq lst free (next_power_of_2 (int ?bs)) ps"
  let ?loc = "\<lambda>i. extend_loc other (int ps) (seq ! i - 1) (lst ! i) free (?N i) (seq ! i - 1)"
  have P: "0 < int ps" using assms(1) by simp
  have ne: "seq \<noteq> []" using assms(2) by (simp add: decode_args_def)
  have u: "?bs \<le> next_power_of_2 (int ?bs)" using next_power_of_2_ge [of "int ?bs"] by simp
  have run: "?run i = ((int i, ?loc i), ?N (Suc i))" if "i < ?bs" for i
    by (rule decode_program_spec [OF assms(1,2) that u])
  let ?ws = "map (\<lambda>i. (int i, ?loc i)) [0..<?bs]"
  have ws: "map (\<lambda>pid. fst (?run pid)) [0..<?bs] = ?ws" by (rule map_cong) (auto simp: run)
  have "tl_stores ?ws (replicate ?bs other) = map ?loc [0..<?bs]"
    using tl_stores_contiguous [of ?ws 0 "replicate ?bs other"] by (simp add: o_def)
  then have k: "alloc_decode_kernel other seq lst free (replicate ?bs other) ret ?bs
      (next_power_of_2 (int ?bs)) ps = (map ?loc [0..<?bs], N)"
    using ne run [of "?bs - 1"] assms(3) by (simp add: alloc_decode_kernel_def Let_def ws)
  then show "snd (alloc_decode_kernel other seq lst free (replicate ?bs other) ret ?bs
                (next_power_of_2 (int ?bs)) ps) = N" by simp
  assume le: "N \<le> int (length free)"
  have row: "[?loc i] = map (\<lambda>k. page_table_loc (int ps) (?pre ! i) (lst ! i) (take (nat N) free) (?N i)
      (?pre ! i + int k)) [0..<nat (seq ! i - ?pre ! i)]" if "i < ?bs" for i
    using extend_loc_page_table [OF P decode_extend_args [OF assms(2)] that, of 0 free other] le that assms(3)
    by simp
  have "map ?loc [0..<?bs] = concat (map (\<lambda>i. [?loc i]) [0..<?bs])" by (simp add: concat_map_singleton)
  also have "map (\<lambda>i. [?loc i]) [0..<?bs] = extend_table (int ps) ?pre seq lst (take (nat N) free)"
    unfolding extend_table_def by (rule map_cong [OF refl row]) simp
  finally show "fst (alloc_decode_kernel other seq lst free (replicate ?bs other) ret ?bs
      (next_power_of_2 (int ?bs)) ps) = concat (extend_table (int ps) ?pre seq lst (take (nat N) free))"
    using k by simp
qed

lemma new_pages_decode: "0 < ps \<Longrightarrow> n \<le> length seq \<Longrightarrow> new_pages ps (map (\<lambda>s. s - 1) seq) seq n \<le> int n"
proof (induction n)
  case (Suc n)
  then show ?case using cdiv_pred_le [of ps "seq ! n"] by (simp add: new_pages_def)
qed (simp add: new_pages_def)

lemma paged_alloc_decode_spec:
  assumes "0 < al_page_size a" and "\<not> debug_mode a" and "need_sort a \<or> release_pages a = []"
    and "decode_args seq lst" and pre: "pre = map (\<lambda>s. s - 1) seq"
  shows "\<exists>r a'. paged_alloc_decode other seq lst a = Inr (r, a') \<and>
    (case r of
       None \<Rightarrow> new_pages (int (al_page_size a)) pre seq (length seq) > int (size (pool_pages a))
               \<and> pool_pages a' = pool_pages a
     | Some out \<Rightarrow> \<exists>pages. int (length pages) = new_pages (int (al_page_size a)) pre seq (length seq)
               \<and> pool_pages a = mset pages + pool_pages a'
               \<and> out = concat (extend_table (int (al_page_size a)) pre seq lst pages))"
proof -
  let ?ps = "al_page_size a" and ?bs = "length seq"
  define N where "N = new_pages (int ?ps) pre seq ?bs"
  define b where "b = (if need_sort a \<and> ?bs > length (free_pages a) then merge_and_sort_free a else a)"
  have b: "al_page_size b = ?ps" "pool_pages b = pool_pages a" by (simp_all add: b_def)
  have P: "0 < int ?ps" using assms(1) by simp
  note k = alloc_decode_kernel_spec [OF assms(1,4) N_def [symmetric, unfolded pre],
      where other = other and free = "free_pages b" and ret = "ret_values b", folded pre]
  have N0: "0 \<le> N"
    unfolding N_def pre by (rule new_pages_nonneg [OF P decode_extend_args [OF assms(4)]]) simp
  have est: "N \<le> int ?bs" unfolding N_def pre by (rule new_pages_decode [OF P]) simp
  have run: "paged_alloc_decode other seq lst a =
      (if N > int (length (free_pages b)) then Inr (None, b\<lparr>ret_values := N\<rparr>)
       else Inr (Some (concat (extend_table (int ?ps) pre seq lst (take (nat N) (free_pages b)))),
                 b\<lparr>ret_values := N, free_pages := drop (nat N) (free_pages b)\<rparr>))"
    using assms(2) N0 k unfolding paged_alloc_decode_def Let_def b_def [symmetric] b(1)
    by (simp add: case_prod_beta py_drop_nat)
  show ?thesis
  proof (cases "N > int (length (free_pages b))")
    case True
    have "length (free_pages b) = size (pool_pages a)"
      using True est assms(3) by (auto simp: b_def size_pool_pages split: if_splits)
    with True run b(2) show ?thesis by (simp add: pool_pages_def N_def)
  next
    case False
    let ?pages = "take (nat N) (free_pages b)"
    let ?b = "b\<lparr>ret_values := N, free_pages := drop (nat N) (free_pages b)\<rparr>"
    have l: "int (length ?pages) = N" using False N0 by simp
    have p: "pool_pages a = mset ?pages + pool_pages ?b"
      using pool_pages_take [of b "nat N"] b(2) by (simp add: pool_pages_def add.assoc)
    have "paged_alloc_decode other seq lst a
        = Inr (Some (concat (extend_table (int ?ps) pre seq lst ?pages)), ?b)"
      unfolding run using False by (rule if_not_P)
    with l p show ?thesis unfolding N_def by (rule alloc_result_SomeI)
  qed
qed

lemma split_pool_distinct:
  assumes "distinct xs" "mset xs = mset ys + M"
  shows "distinct ys" "\<forall>y\<in>set ys. y \<notin># M" "set ys \<subseteq> set xs" "set_mset M \<subseteq> set xs"
proof -
  obtain zs where M: "M = mset zs" using ex_mset by metis
  then have e: "mset xs = mset (ys @ zs)" using assms(2) by simp
  then have "distinct (ys @ zs)" "set xs = set (ys @ zs)" using assms(1) mset_eq_imp_distinct_iff mset_eq_setD by blast+
  then show "distinct ys" "\<forall>y\<in>set ys. y \<notin># M" "set ys \<subseteq> set xs" "set_mset M \<subseteq> set xs" using M by auto
qed

section \<open>Properties\<close>

text \<open>
  C22: A client that allocates page by page and releases whole pages that it holds never
  sees an error from the paged allocator; the slots it holds are pairwise distinct, they are
  slots of the pages \<open>1 .. num_pages\<close> (page 0 is the padding page), and the allocator holds
  exactly the other slots.
\<close>

theorem paged_no_double_allocation:
  assumes "0 < ps"
    and "releases_held (whole_pages ps) paged_alloc paged_free ops (paged_init n ps srt False r) []"
  shows "\<exists>a used. run_ops paged_alloc paged_free ops (paged_init n ps srt False r) [] = Inr (a, used)
           \<and> distinct used \<and> set used \<subseteq> {int ps..<(int (n div ps) + 1) * int ps}
           \<and> paged_pool ps a = mset_set ({int ps..<(int (n div ps) + 1) * int ps} - set used)"
  by (rule paged.no_double_allocation [OF paged_init_ok [OF assms(1)] paged_init_pool [OF assms(1)] _ assms(2)])
     simp

theorem paged_no_double_allocation_witness:
  "releases_held (whole_pages 2) paged_alloc paged_free [Alloc 4, Release [2, 3], Alloc 2]
     (paged_init 9 2 True False 0) []
   \<and> (\<exists>a used. run_ops paged_alloc paged_free [Alloc 4, Release [2, 3], Alloc 2]
                 (paged_init 9 2 True False 0) [] = Inr (a, used)
        \<and> distinct used \<and> set used \<subseteq> {int 2..<(int (9 div 2) + 1) * int 2}
        \<and> paged_pool 2 a = mset_set ({int 2..<(int (9 div 2) + 1) * int 2} - set used))"
proof -
  have h: "releases_held (whole_pages 2) paged_alloc paged_free [Alloc 4, Release [2, 3], Alloc 2]
     (paged_init 9 2 True False 0) []"
    by code_simp
  from paged_no_double_allocation [OF _ h] h show ?thesis by simp
qed

text \<open>
  C13: \<open>alloc_extend\<close> is total on well-formed requests, and equivalent to the page-table
  specification: either the fresh pages that the requests need exceed all the pages the
  allocator holds, and then it returns \<open>None\<close> and loses no page, or it takes exactly that
  many pages from its pool and the output is, request by request, the location of every new
  token: the slots after the last cached token up to the end of its page, and then slot
  \<open>t mod page_size\<close> of the page for token \<open>t\<close>. The 64-bit return value that merges two counts
  loses nothing while the number of new tokens stays below \<open>2 ^ 32\<close>.
\<close>

theorem paged_alloc_extend_correct:
  assumes "0 < al_page_size a" and "\<not> debug_mode a" and "need_sort a \<or> release_pages a = []"
    and "extend_args pre seq lst" and "int n = new_tokens pre seq (length seq)" and "n < 2 ^ 32"
  shows "\<exists>r a'. paged_alloc_extend other pre seq lst n a = Inr (r, a') \<and>
    (case r of
       None \<Rightarrow> new_pages (int (al_page_size a)) pre seq (length seq) > int (size (pool_pages a))
               \<and> pool_pages a' = pool_pages a
     | Some out \<Rightarrow> \<exists>pages. int (length pages) = new_pages (int (al_page_size a)) pre seq (length seq)
               \<and> pool_pages a = mset pages + pool_pages a'
               \<and> out = concat (extend_table (int (al_page_size a)) pre seq lst pages))"
  by (rule paged_alloc_extend_spec [OF assms])

theorem paged_alloc_extend_correct_witness:
  "extend_args [2, 0] [7, 3] [9, -1] \<and> int 8 = new_tokens [2, 0] [7, 3] (length [7, 3 :: int]) \<and>
   (\<exists>r a'. paged_alloc_extend 0 [2, 0] [7, 3] [9, -1] 8 (paged_init 64 4 True False 0) = Inr (r, a') \<and>
    (case r of
       None \<Rightarrow> new_pages (int (al_page_size (paged_init 64 4 True False 0))) [2, 0] [7, 3] (length [7, 3 :: int])
                 > int (size (pool_pages (paged_init 64 4 True False 0)))
               \<and> pool_pages a' = pool_pages (paged_init 64 4 True False 0)
     | Some out \<Rightarrow> \<exists>pages. int (length pages)
                 = new_pages (int (al_page_size (paged_init 64 4 True False 0))) [2, 0] [7, 3] (length [7, 3 :: int])
               \<and> pool_pages (paged_init 64 4 True False 0) = mset pages + pool_pages a'
               \<and> out = concat (extend_table (int (al_page_size (paged_init 64 4 True False 0)))
                          [2, 0] [7, 3] [9, -1] pages)))"
proof -
  have a: "0 < al_page_size (paged_init 64 4 True False 0)" "\<not> debug_mode (paged_init 64 4 True False 0)"
    "need_sort (paged_init 64 4 True False 0) \<or> release_pages (paged_init 64 4 True False 0) = []"
    by (simp_all add: paged_init_def paged_clear_def)
  have h: "extend_args [2, 0] [7, 3] [9, -1]" "int 8 = new_tokens [2, 0] [7, 3] (length [7, 3 :: int])"
    by (simp_all add: extend_args_def new_tokens_def)
  show ?thesis
    using paged_alloc_extend_correct [OF a h, of 0] h by simp
qed

text \<open>
  C23: \<open>alloc_decode\<close> is the special case of one new token per request: it agrees with the
  page-table specification for prefixes that are one shorter than the sequences.
\<close>

theorem paged_alloc_decode_correct:
  assumes "0 < al_page_size a" and "\<not> debug_mode a" and "need_sort a \<or> release_pages a = []"
    and "decode_args seq lst" and "pre = map (\<lambda>s. s - 1) seq"
  shows "\<exists>r a'. paged_alloc_decode other seq lst a = Inr (r, a') \<and>
    (case r of
       None \<Rightarrow> new_pages (int (al_page_size a)) pre seq (length seq) > int (size (pool_pages a))
               \<and> pool_pages a' = pool_pages a
     | Some out \<Rightarrow> \<exists>pages. int (length pages) = new_pages (int (al_page_size a)) pre seq (length seq)
               \<and> pool_pages a = mset pages + pool_pages a'
               \<and> out = concat (extend_table (int (al_page_size a)) pre seq lst pages))"
  by (rule paged_alloc_decode_spec [OF assms])

theorem paged_alloc_decode_correct_witness:
  "decode_args [5, 7] [11, 17] \<and>
   (\<exists>r a'. paged_alloc_decode 0 [5, 7] [11, 17] (paged_init 64 4 True False 0) = Inr (r, a') \<and>
    (case r of
       None \<Rightarrow> new_pages (int (al_page_size (paged_init 64 4 True False 0))) [4, 6] [5, 7] (length [5, 7 :: int])
                 > int (size (pool_pages (paged_init 64 4 True False 0)))
               \<and> pool_pages a' = pool_pages (paged_init 64 4 True False 0)
     | Some out \<Rightarrow> \<exists>pages. int (length pages)
                 = new_pages (int (al_page_size (paged_init 64 4 True False 0))) [4, 6] [5, 7] (length [5, 7 :: int])
               \<and> pool_pages (paged_init 64 4 True False 0) = mset pages + pool_pages a'
               \<and> out = concat (extend_table (int (al_page_size (paged_init 64 4 True False 0)))
                          [4, 6] [5, 7] [11, 17] pages)))"
proof -
  have a: "0 < al_page_size (paged_init 64 4 True False 0)" "\<not> debug_mode (paged_init 64 4 True False 0)"
    "need_sort (paged_init 64 4 True False 0) \<or> release_pages (paged_init 64 4 True False 0) = []"
    by (simp_all add: paged_init_def paged_clear_def)
  have h: "decode_args [5, 7] [11, 17]" and p: "[4, 6] = map (\<lambda>s. s - 1) [5, 7 :: int]"
    by (simp_all add: decode_args_def)
  show ?thesis using paged_alloc_decode_correct [OF a h p, of 0] h by simp
qed

text \<open>
  C24: \<open>alloc_extend\<close> never hands out a slot twice, nor one that it still has. The pages that the
  allocator holds are pairwise distinct; the last cached token of every request sits at the offset in its
  page that its position demands; and the partly filled pages of the requests are neither shared between
  them nor free. Then, if the pages suffice, one slot is returned for every new token, these slots are
  pairwise distinct, none of them is in a page that the allocator keeps, and each is in a page that was
  free or in the partly filled page of a request, behind its last token.
\<close>

theorem alloc_extend_no_alias:
  assumes "0 < al_page_size a" and "\<not> debug_mode a" and "need_sort a \<or> release_pages a = []"
    and "extend_args pre seq lst" and "int n = new_tokens pre seq (length seq)" and "n < 2 ^ 32"
    and ps: "ps = int (al_page_size a)" and dist: "distinct (free_pages a @ release_pages a)"
    and mods: "list_all2 (\<lambda>l p. (l + 1) mod ps = p mod ps) lst pre"
    and sep: "separate_pages ps pre lst (free_pages a @ release_pages a)"
    and enough: "new_pages ps pre seq (length seq) \<le> int (size (pool_pages a))"
  shows "\<exists>out a'. paged_alloc_extend other pre seq lst n a = Inr (Some out, a') \<and> length out = n \<and> distinct out
    \<and> (\<forall>x\<in>set out. x div ps \<notin># pool_pages a'
        \<and> (x div ps \<in># pool_pages a \<or> (\<exists>i < length pre. pre ! i mod ps \<noteq> 0 \<and> x div ps = lst ! i div ps \<and> lst ! i < x)))"
proof -
  obtain out a' pages where run: "paged_alloc_extend other pre seq lst n a = Inr (Some out, a')"
    and pages: "int (length pages) = new_pages ps pre seq (length seq)" "pool_pages a = mset pages + pool_pages a'"
    and out: "out = concat (extend_table ps pre seq lst pages)"
    using paged_alloc_extend_spec [OF assms(1-6), of other] enough unfolding ps by (auto split: option.splits)
  have "mset (free_pages a @ release_pages a) = mset pages + pool_pages a'" using pages(2) by (simp add: pool_pages_def)
  note d = split_pool_distinct [OF dist this]
  have P: "0 < ps" using assms(1) ps by simp
  have "separate_pages ps pre lst pages" using sep d(3) by (auto simp: separate_pages_def)
  then have "distinct out" unfolding out by (rule extend_table_distinct [OF P assms(4) d(1) pages(1) mods])
  moreover have "length out = n" using extend_table_length [OF assms(4), of ps pages] assms(5) out by simp
  moreover have "x div ps \<notin># pool_pages a' \<and> (x div ps \<in># pool_pages a
      \<or> (\<exists>i < length pre. pre ! i mod ps \<noteq> 0 \<and> x div ps = lst ! i div ps \<and> lst ! i < x))" if "x \<in> set out" for x
    using extend_table_pages [OF P assms(4) pages(1) mods, of x] that sep d(2,4) pages(2)
    unfolding out separate_pages_def by auto
  ultimately show ?thesis using run by blast
qed

theorem alloc_extend_no_alias_witness:
  "\<exists>out a'. paged_alloc_extend 0 [2, 0] [7, 3] [81, -1] 8 (paged_init 64 4 True False 0) = Inr (Some out, a')
     \<and> length out = 8 \<and> distinct out"
proof -
  let ?a = "paged_init 64 4 True False 0"
  have a: "0 < al_page_size ?a" "\<not> debug_mode ?a" "need_sort ?a \<or> release_pages ?a = []" "4 = int (al_page_size ?a)"
    "free_pages ?a @ release_pages ?a = [1..16]" by (simp_all add: paged_init_def paged_clear_def)
  have h: "extend_args [2, 0] [7, 3] [81, -1]" "int 8 = new_tokens [2, 0] [7, 3] (length [7, 3 :: int])" "(8 :: nat) < 2 ^ 32"
    by (simp_all add: extend_args_def new_tokens_def)
  have s: "list_all2 (\<lambda>l p. (l + 1) mod 4 = p mod 4) [81, -1] [2, 0 :: int]" "separate_pages 4 [2, 0] [81, -1] (free_pages ?a @ release_pages ?a)"
    unfolding a(5) by (auto simp: separate_pages_def nth_Cons less_Suc_eq split: nat.splits)
  have e: "distinct (free_pages ?a @ release_pages ?a)" "new_pages 4 [2, 0] [7, 3] (length [7, 3 :: int]) \<le> int (size (pool_pages ?a))"
    using a(5) by (simp_all add: pool_pages_def new_pages_def cdiv_page_def flip: mset_append)
  from alloc_extend_no_alias [OF a(1-3) h a(4) e(1) s e(2), of 0] show ?thesis by blast
qed

end
