(* ===== verification/Radix_Evict.thy ===== *)
theory Radix_Evict
  imports Radix_Locks Paged_Allocator
begin

text \<open>
  Traversals of the radix tree (\<open>collect_leaves\<close>, \<open>total_size\<close>) and eviction: which nodes
  \<open>evict\<close> removes, that it frees enough, and that the slots it removes from the tree are exactly
  those it returns to the KV allocator, for every allocator of the \<open>slot_allocator\<close> contract.
\<close>

section \<open>Traversals\<close>

definition below :: "nat set \<Rightarrow> (nat \<Rightarrow> int list) \<Rightarrow> nat set \<Rightarrow> nat set" where
  "below L K S = {m \<in> L. \<exists>a\<in>S. prefix (K a) (K m)}"

definition stack_ok :: "nat set \<Rightarrow> (nat \<Rightarrow> int list) \<Rightarrow> nat list \<Rightarrow> bool" where
  \<comment> \<open>no node of the stack lies below another\<close>
  "stack_ok L K xs \<longleftrightarrow> distinct xs \<and> set xs \<subseteq> L \<and> (\<forall>a\<in>set xs. \<forall>b\<in>set xs. prefix (K a) (K b) \<longrightarrow> a = b)"

lemma stack_ok_mset: "mset xs = mset ys \<Longrightarrow> stack_ok L K xs = stack_ok L K ys"
  unfolding stack_ok_def by (metis mset_eq_setD mset_eq_imp_distinct_iff)

lemma children_distinct:
  assumes wf: "tree_wf ps r N L K V" and n: "n \<in> L"
  shows "distinct (map snd (children (nd N n)))"
proof -
  have "inj_on snd (set (children (nd N n)))"
  proof (rule inj_onI)
    fix x y assume xy: "x \<in> set (children (nd N n))" "y \<in> set (children (nd N n))" "snd x = snd y"
    have "fst x = take ps (nkey (nd N (snd x)))" using tree_wf_child(3) [OF wf n, of "fst x" "snd x"] xy(1) by simp
    moreover have "fst y = take ps (nkey (nd N (snd y)))" using tree_wf_child(3) [OF wf n, of "fst y" "snd y"] xy(2) by simp
    ultimately show "x = y" using xy(3) by (simp add: prod_eq_iff)
  qed
  moreover have "distinct (children (nd N n))" using tree_wfD(10) [OF wf n] by (simp add: distinct_map)
  ultimately show ?thesis by (simp add: distinct_map)
qed

lemma child_edges:
  assumes wf: "tree_wf ps r N L K V" and n: "n \<in> L" and y: "y \<in> set (map snd (children (nd N n)))"
  shows "y \<in> L" "edge_ok ps N K V n y" "prefix (K n) (K y)" "\<not> prefix (K y) (K n)"
proof -
  have "child_of N n y" using y by (auto simp: child_of_def)
  then show "y \<in> L" and e: "edge_ok ps N K V n y" using child_of_edge [OF wf n] by simp_all
  show "prefix (K n) (K y)" using e by (simp add: edge_ok_def)
  show "\<not> prefix (K y) (K n)" using edge_ok_length [OF e] prefix_length_le [of "K y" "K n"] by linarith
qed

lemma stack_ok_step:
  assumes wf: "tree_wf ps r N L K V" and ok: "stack_ok L K (n # rest)"
  shows "stack_ok L K (map snd (children (nd N n)) @ rest)"
proof -
  let ?C = "set (map snd (children (nd N n)))"
  have n: "n \<in> L" "n \<notin> set rest" using ok by (auto simp: stack_ok_def)
  note C = child_edges [OF wf n(1)]
  have r: "\<not> prefix (K n) (K b)" "\<not> prefix (K b) (K n)" if "b \<in> set rest" for b
    using ok that n(2) by (auto simp: stack_ok_def)
  have cr1: "\<not> prefix (K y) (K b)" if y: "y \<in> ?C" and b: "b \<in> set rest" for y b
    using r(1) [OF b] prefix_order.trans [OF C(3) [OF y], of "K b"] by blast
  have cr2: "\<not> prefix (K b) (K y)" if y: "y \<in> ?C" and b: "b \<in> set rest" for y b
    using r [OF b] C(3) [OF y] prefix_same_cases [of "K b" "K y" "K n"] by blast
  note cr = cr1 cr2
  have cc: "y = z" if y: "y \<in> ?C" and z: "z \<in> ?C" and p: "prefix (K y) (K z)" for y z
  proof (rule edge_ok_unique [OF wf n(1) C(2) [OF y] C(2) [OF z]])
    show "take ps (nkey (nd N y)) = take ps (nkey (nd N z))"
      using edge_ok_page [OF C(2) [OF y] p] edge_ok_page [OF C(2) [OF z], of "K z"] by simp
  qed
  have "?C \<inter> set rest = {}" using cr1 by blast
  then have "distinct (map snd (children (nd N n)) @ rest)"
    using ok children_distinct [OF wf n(1)] by (simp add: stack_ok_def)
  moreover have "set (map snd (children (nd N n)) @ rest) \<subseteq> L"
    unfolding set_append using ok C(1) by (auto simp: stack_ok_def)
  moreover have "a = b" if ab: "a \<in> ?C \<union> set rest" "b \<in> ?C \<union> set rest" "prefix (K a) (K b)" for a b
  proof (cases "a \<in> ?C")
    case True
    then have "b \<in> ?C" using cr1 ab by blast
    then show ?thesis using cc True ab(3) by blast
  next
    case False
    then have "a \<in> set rest" "b \<in> set rest" using cr2 ab by blast+
    then show ?thesis using ok ab(3) by (simp add: stack_ok_def)
  qed
  ultimately show ?thesis unfolding stack_ok_def set_append by blast
qed

lemma below_step:
  assumes wf: "tree_wf ps r N L K V" and ok: "stack_ok L K (n # rest)"
  shows "below L K (set (map snd (children (nd N n)) @ rest)) = below L K (set (n # rest)) - {n}"
    "n \<in> below L K (set (n # rest))"
proof -
  have n: "n \<in> L" "n \<notin> set rest" using ok by (auto simp: stack_ok_def)
  note C = child_edges [OF wf n(1)]
  have "(\<exists>y\<in>set (map snd (children (nd N n))). prefix (K y) (K m)) \<longleftrightarrow> prefix (K n) (K m) \<and> m \<noteq> n" if m: "m \<in> L" for m
  proof
    assume "\<exists>y\<in>set (map snd (children (nd N n))). prefix (K y) (K m)"
    then obtain y where y: "y \<in> set (map snd (children (nd N n)))" "prefix (K y) (K m)" by blast
    then show "prefix (K n) (K m) \<and> m \<noteq> n" using prefix_order.trans [OF C(3) [OF y(1)] y(2)] C(4) [OF y(1)] by blast
  next
    assume a: "prefix (K n) (K m) \<and> m \<noteq> n"
    then obtain y where y: "child_of N n y" "(child_of N)\<^sup>*\<^sup>* y m"
      using prefix_descendant [OF wf n(1) m] by (auto elim: converse_rtranclpE)
    have "y \<in> L" using child_of_edge [OF wf n(1) y(1)] by simp
    then have "prefix (K y) (K m)" using descendant_prefix [OF y(2) wf] by simp
    then show "\<exists>y\<in>set (map snd (children (nd N n))). prefix (K y) (K m)" using y(1) by (auto simp: child_of_def)
  qed
  moreover have "\<not> prefix (K a) (K n)" if "a \<in> set rest" for a using ok that n(2) by (auto simp: stack_ok_def)
  ultimately show "below L K (set (map snd (children (nd N n)) @ rest)) = below L K (set (n # rest)) - {n}"
    unfolding below_def set_append list.set(2) by blast
  show "n \<in> below L K (set (n # rest))" using n by (auto simp: below_def)
qed

lemma stack_last:
  assumes wf: "tree_wf ps r N L K V" and ok: "stack_ok L K stack" and ne: "stack \<noteq> []"
  defines "n \<equiv> last stack"
  defines "rest \<equiv> butlast stack @ map snd (children (nd N n))"
  shows "n \<in> L" "stack_ok L K rest" "below L K (set rest) = below L K (set stack) - {n}" "n \<in> below L K (set stack)"
proof -
  have st: "mset (n # butlast stack) = mset stack" "set (n # butlast stack) = set stack"
    using append_butlast_last_id [OF ne] unfolding n_def
    by (metis append_Cons append_Nil mset.simps(2) mset_append union_commute, metis set_ConsD list.set_intros
        append_butlast_last_id ne rotate1.simps(2) set_rotate1)
  have ok': "stack_ok L K (n # butlast stack)" using ok stack_ok_mset [OF st(1)] by simp
  show "n \<in> L" using ok' by (simp add: stack_ok_def)
  have "mset (map snd (children (nd N n)) @ butlast stack) = mset rest" by (simp add: rest_def)
  then show "stack_ok L K rest" using stack_ok_step [OF wf ok'] stack_ok_mset by blast
  have "set rest = set (map snd (children (nd N n)) @ butlast stack)" by (auto simp: rest_def)
  then show "below L K (set rest) = below L K (set stack) - {n}" "n \<in> below L K (set stack)"
    using below_step [OF wf ok'] st(2) by simp_all
qed

lemma below_root:
  assumes "tree_wf ps r N L K V"
  shows "below L K {r} = L" "stack_ok L K [r]"
  using tree_wfD(3,5) [OF assms] by (auto simp: below_def stack_ok_def)

lemma finite_below: "tree_wf ps r N L K V \<Longrightarrow> finite (below L K S)"
  using tree_wfD(2) by (auto simp: below_def)

lemma collect_leaves_loop_spec:
  assumes wf: "tree_wf ps r (nodes c) L K V" and "stack_ok L K stack" "distinct ret" "set ret \<inter> below L K (set stack) = {}"
  shows "\<exists>ls. collect_leaves_loop stack ret c = Some ls \<and> distinct ls
     \<and> set ls = set ret \<union> {n \<in> below L K (set stack). children (nd (nodes c) n) = []}"
  using assms(2-)
proof (induction "card (below L K (set stack))" arbitrary: stack ret rule: less_induct)
  case less
  show ?case
  proof (cases "stack = []")
    case True
    then show ?thesis using less.prems by (subst collect_leaves_loop.simps) (simp add: below_def)
  next
    case False
    let ?n = "last stack"
    let ?rest = "butlast stack @ map snd (children (nd (nodes c) ?n))"
    note S = stack_last [OF wf less.prems(1) False]
    obtain x where x: "nodes c ?n = Some x" using tree_wfD(4) [OF wf S(1)] by blast
    have smaller: "card (below L K (set ?rest)) < card (below L K (set stack))"
      unfolding S(3) using finite_below [OF wf] S(4) by (rule card_Diff1_less)
    define ret' where "ret' = (if children x = [] then ret @ [?n] else ret)"
    have d: "distinct ret'" "set ret' \<inter> below L K (set ?rest) = {}"
      unfolding S(3) using less.prems(2,3) S(4) by (auto simp: ret'_def)
    have "collect_leaves_loop stack ret c = collect_leaves_loop ?rest ret' c"
      using False x by (subst collect_leaves_loop.simps) (simp add: ret'_def)
    moreover obtain ls where "collect_leaves_loop ?rest ret' c = Some ls" "distinct ls"
      "set ls = set ret' \<union> {n \<in> below L K (set ?rest). children (nd (nodes c) n) = []}"
      using less.hyps [OF smaller S(2) d] by blast
    ultimately show ?thesis unfolding S(3) using S(4) x by (auto simp: ret'_def)
  qed
qed

lemma collect_leaves_spec:
  assumes wf: "tree_wf ps (root_node c) (nodes c) L K V"
  shows "\<exists>ls. collect_leaves c = Some ls \<and> distinct ls \<and> set ls = {n \<in> L. children (nd (nodes c) n) = []}"
  using collect_leaves_loop_spec [OF wf below_root(2) [OF wf], of "[]"] below_root(1) [OF wf]
  by (simp add: collect_leaves_def)

lemma total_size_loop_spec:
  assumes wf: "tree_wf ps r (nodes c) L K V" and "stack_ok L K stack"
  shows "total_size_loop stack tot c = Some (tot + (\<Sum>n\<in>below L K (set stack). length (nvalue (nd (nodes c) n))))"
  using assms(2-)
proof (induction "card (below L K (set stack))" arbitrary: stack tot rule: less_induct)
  case less
  show ?case
  proof (cases "stack = []")
    case True
    then show ?thesis by (subst total_size_loop.simps) (simp add: below_def)
  next
    case False
    let ?n = "last stack"
    let ?rest = "butlast stack @ map snd (children (nd (nodes c) ?n))"
    note S = stack_last [OF wf less.prems(1) False]
    obtain x where x: "nodes c ?n = Some x" using tree_wfD(4) [OF wf S(1)] by blast
    have smaller: "card (below L K (set ?rest)) < card (below L K (set stack))"
      unfolding S(3) using finite_below [OF wf] S(4) by (rule card_Diff1_less)
    have "total_size_loop stack tot c = total_size_loop ?rest (tot + length (nvalue x)) c"
      using False x by (subst total_size_loop.simps) simp
    also have "\<dots> = Some (tot + length (nvalue x) + (\<Sum>n\<in>below L K (set ?rest). length (nvalue (nd (nodes c) n))))"
      by (rule less.hyps [OF smaller S(2)])
    finally show ?thesis
      using sum.remove [OF finite_below [OF wf] S(4), of "\<lambda>n. length (nvalue (nd (nodes c) n))"] x unfolding S(3) by simp
  qed
qed

section \<open>Removing a leaf\<close>

definition cut_store :: "nat \<Rightarrow> nat \<Rightarrow> nat \<Rightarrow> (nat \<Rightarrow> tree_node option) \<Rightarrow> nat \<Rightarrow> tree_node option" where
  "cut_store ps p x N = N(p \<mapsto> (nd N p)\<lparr>children := AList.delete (take ps (nkey (nd N x))) (children (nd N p))\<rparr>)"

lemma cut_store_fields:
  "N n \<noteq> None \<Longrightarrow> cut_store ps p x N n \<noteq> None"
  "nkey (nd (cut_store ps p x N) n) = nkey (nd N n)" "parent (nd (cut_store ps p x N) n) = parent (nd N n)"
  "nvalue (nd (cut_store ps p x N) n) = nvalue (nd N n)" "lock_ref (nd (cut_store ps p x N) n) = lock_ref (nd N n)"
  "children (nd (cut_store ps p x N) n) =
     (if n = p then AList.delete (take ps (nkey (nd N x))) (children (nd N p)) else children (nd N n))"
  by (auto simp: cut_store_def)

lemma cut_children:
  assumes wf: "tree_wf ps r N L K V" and p: "p \<in> L" and e: "edge_ok ps N K V p x"
  shows "set (children (nd (cut_store ps p x N) p)) = {e \<in> set (children (nd N p)). snd e \<noteq> x}"
proof -
  have "fst e \<noteq> take ps (nkey (nd N x)) \<longleftrightarrow> snd e \<noteq> x" if m: "e \<in> set (children (nd N p))" for e
  proof -
    have "(fst e, snd e) \<in> set (children (nd N p))" using m by simp
    from tree_wf_child(3,4) [OF wf p this]
    have k: "fst e = take ps (nkey (nd N (snd e)))" and ee: "edge_ok ps N K V p (snd e)" .
    then show ?thesis using edge_ok_unique [OF wf p ee e] by metis
  qed
  then show ?thesis by (auto simp: cut_store_fields(6) set_AList_delete)
qed

lemma cut_wf:
  assumes wf: "tree_wf ps r N L K V" and L: "p \<in> L" "x \<in> L" "x \<noteq> r" and e: "edge_ok ps N K V p x"
    and leaf: "children (nd N x) = []"
  shows "tree_wf ps r (cut_store ps p x N) (L - {x}) K V" (is "tree_wf ps r ?N ?L K V")
proof (rule tree_wfI)
  note D = tree_wfD [OF wf] and C = cut_children [OF wf L(1) e]
  show "\<exists>q\<in>?L. edge_ok ps ?N K V q n" if n: "n \<in> ?L" "n \<noteq> r" for n
  proof -
    obtain q where q: "q \<in> L" "edge_ok ps N K V q n" using tree_wf_parent [OF wf] n by blast
    then have "q \<noteq> x" using leaf by (auto simp: edge_ok_def)
    moreover have "edge_ok ps ?N K V q n"
      using q(2) n(1) C unfolding edge_ok_def cut_store_fields(2-5) by (cases "q = p") (auto simp: cut_store_fields(6))
    ultimately show ?thesis using q(1) by blast
  qed
  show "distinct (map fst (children (nd ?N q)))" if "q \<in> ?L" for q
    using D(10) [of q] that by (auto simp: cut_store_fields(6) intro: distinct_delete)
  show "n \<in> ?L \<and> n \<noteq> r \<and> parent (nd ?N n) = Some q \<and> k = take ps (nkey (nd ?N n))"
    if q: "q \<in> ?L" and kn: "(k, n) \<in> set (children (nd ?N q))" for q k n
  proof -
    have old: "(k, n) \<in> set (children (nd N q))" and "q = p \<longrightarrow> n \<noteq> x"
      using kn C by (cases "q = p"; simp add: cut_store_fields(6))+
    moreover have "n \<noteq> x" if "q \<noteq> p" using D(11) [of q k n] q old e that by (auto simp: edge_ok_def)
    ultimately show ?thesis using D(11) [of q k n] q unfolding cut_store_fields(2,3) by auto
  qed
  show "?N n \<noteq> None" if "n \<in> ?L" for n using D(4) [of n] that by (intro cut_store_fields(1)) auto
  show "parent (nd ?N r) = None" "nkey (nd ?N r) = []" "nvalue (nd ?N r) = []"
    unfolding cut_store_fields using D(7-9) by simp_all
qed (use tree_wfD(1-3,5,6) [OF wf] L in auto)

lemma cut_locks:
  assumes fin: "finite L" and x: "x \<in> L" "x \<noteq> r" "lock_ref (nd N x) = 0"
  shows "child_locks (cut_store ps p x N) (L - {x}) n = child_locks N L n"
    "size_where P r (cut_store ps p x N) (L - {x}) = size_where P r N L - (if P 0 then int (length (nvalue (nd N x))) else 0)"
    "lock_wf r N L \<Longrightarrow> lock_wf r (cut_store ps p x N) (L - {x})"
proof -
  have S: "{m \<in> L - {x}. parent (nd N m) = Some n} = {m \<in> L. parent (nd N m) = Some n} - {x}" for n by auto
  show cl: "child_locks (cut_store ps p x N) (L - {x}) n = child_locks N L n" for n
    unfolding child_locks_def cut_store_fields S using fin x(3)
    by (cases "parent (nd N x) = Some n") (auto simp: sum_diff1 x(1))
  have "L - {x} - {r} = (L - {r}) - {x}" by auto
  then show "size_where P r (cut_store ps p x N) (L - {x}) = size_where P r N L - (if P 0 then int (length (nvalue (nd N x))) else 0)"
    unfolding size_where_def cut_store_fields using fin x by (simp add: sum_diff1)
  show "lock_wf r (cut_store ps p x N) (L - {x})" if "lock_wf r N L"
    using that by (simp add: lock_wf_def cl cut_store_fields)
qed

lemma delete_leaf_spec:
  assumes inv: "radix_inv c L K V" and L: "p \<in> L" "x \<in> L" and e: "edge_ok (page_size c) (nodes c) K V p x"
  shows "delete_leaf x c = Some (c\<lparr>nodes := cut_store (page_size c) p x (nodes c),
     evictable_sz := evictable_sz c - int (length (nkey (nd (nodes c) x)))\<rparr>)"
proof -
  note wf = radix_invD(1) [OF inv]
  obtain xd pd where nx: "nodes c x = Some xd" and np: "nodes c p = Some pd" using tree_wfD(4) [OF wf] L by blast
  have par: "parent xd = Some p" and mem: "(take (page_size c) (nkey xd), x) \<in> set (children pd)"
    using e nx np by (auto simp: edge_ok_def)
  obtain k where k: "find (\<lambda>(k, v). v = x) (children pd) = Some (k, x)"
    using mem by (cases "find (\<lambda>(k, v). v = x) (children pd)") (auto simp: find_None_iff find_Some_iff)
  then have "(k, x) \<in> set (children (nd (nodes c) p))" using np by (metis find_Some_iff nth_mem option.sel)
  then have "k = take (page_size c) (nkey xd)" using tree_wf_child(3) [OF wf L(1)] nx by force
  then show ?thesis using nx np par k by (simp add: delete_leaf_def cut_store_def modify_node_def)
qed

lemma cut_inv:
  assumes inv: "radix_inv c L K V" and L: "p \<in> L" "x \<in> L" "x \<noteq> root_node c" and e: "edge_ok (page_size c) (nodes c) K V p x"
    and leaf: "children (nd (nodes c) x) = []" "lock_ref (nd (nodes c) x) = 0"
    and c': "core c' = core (c\<lparr>nodes := cut_store (page_size c) p x (nodes c),
       evictable_sz := evictable_sz c - int (length (nkey (nd (nodes c) x)))\<rparr>)"
  shows "radix_inv c' (L - {x}) K V"
proof -
  note wf = radix_invD(1) [OF inv]
  have f: "page_size c' = page_size c" "root_node c' = root_node c" "nodes c' = cut_store (page_size c) p x (nodes c)"
    "counter c' = counter c" "evictable_sz c' = evictable_sz c - int (length (nkey (nd (nodes c) x)))" "protected_sz c' = protected_sz c"
    using core_fields [OF c'] by simp_all
  have len: "length (nvalue (nd (nodes c) x)) = length (nkey (nd (nodes c) x))" using e by (simp add: edge_ok_def)
  have dom: "cut_store (page_size c) p x (nodes c) n = None" if "n \<ge> counter c" for n
  proof -
    have "nodes c n = None" using radix_invD(2) [OF inv] that by simp
    then show ?thesis using tree_wfD(4) [OF wf L(1)] by (auto simp: cut_store_def)
  qed
  note C = cut_locks [where N = "nodes c", OF tree_wfD(2) [OF wf] L(2,3) leaf(2)]
  show ?thesis
    unfolding radix_inv_def f C(2)
    using cut_wf [OF wf L e leaf(1)] dom C(3) [OF radix_invD(3) [OF inv]] radix_invD(4,5) [OF inv] len by simp
qed

section \<open>Eviction\<close>

lemma leaf_below:
  assumes wf: "tree_wf ps r N L K V" and n: "n \<in> L"
  obtains m where "m \<in> L" "(child_of N)\<^sup>*\<^sup>* n m" "children (nd N m) = []"
proof -
  let ?D = "{m \<in> L. (child_of N)\<^sup>*\<^sup>* n m}"
  have D: "finite ?D" "n \<in> ?D" using tree_wfD(2) [OF wf] n by auto
  have "Max ((\<lambda>m. length (K m)) ` ?D) \<in> (\<lambda>m. length (K m)) ` ?D" using D by (intro Max_in) auto
  then obtain m where m: "m \<in> ?D" "length (K m) = Max ((\<lambda>m. length (K m)) ` ?D)" by auto
  have max: "length (K y) \<le> length (K m)" if "y \<in> ?D" for y unfolding m(2) using D that by (intro Max_ge) auto
  have "children (nd N m) = []"
  proof (rule ccontr)
    assume "children (nd N m) \<noteq> []"
    then obtain y where y: "child_of N m y" unfolding child_of_def by (metis image_eqI list.set_intros(1) neq_Nil_conv)
    have e: "y \<in> L" "edge_ok ps N K V m y" using child_of_edge [OF wf _ y] m(1) by auto
    have "(child_of N)\<^sup>*\<^sup>* n y" using m(1) y by (blast intro: rtranclp.rtrancl_into_rtrancl)
    then show False using max [of y] e edge_ok_length [OF e(2)] by auto
  qed
  then show ?thesis using that m(1) by blast
qed

lemma no_unlocked_leaf:
  assumes inv: "radix_inv c L K V" and locked: "\<And>n. n \<in> L \<Longrightarrow> n \<noteq> root_node c \<Longrightarrow> children (nd (nodes c) n) = [] \<Longrightarrow> lock_ref (nd (nodes c) n) > 0"
  shows "evictable_sz c = 0"
proof -
  note wf = radix_invD(1) [OF inv]
  have "lock_ref (nd (nodes c) n) \<noteq> 0" if n: "n \<in> L - {root_node c}" for n
  proof -
    obtain m where m: "m \<in> L" "(child_of (nodes c))\<^sup>*\<^sup>* n m" "children (nd (nodes c) m) = []"
      using leaf_below [OF wf] n by blast
    have "m \<noteq> root_node c"
    proof
      assume "m = root_node c"
      then have "K n = K (root_node c)" using descendant_prefix [OF m(2) wf] n tree_wfD(5) [OF wf] by simp
      then show False using same_path_same_node [OF wf _ tree_wfD(3) [OF wf]] n by blast
    qed
    then show ?thesis using locked [OF m(1) _ m(3)] lock_mono [OF wf radix_invD(3) [OF inv] m(2)] n by fastforce
  qed
  then show ?thesis unfolding radix_invD(4) [OF inv] size_where_def by (intro sum.neutral) auto
qed

lemma heappop_node_props:
  assumes "leaves \<noteq> []" "heappop_node c leaves = (x, rest)"
  shows "x \<in> set leaves" "rest = remove1 x leaves" "\<forall>y\<in>set leaves. access_time c x \<le> access_time c y"
  using assms f_arg_min_list_f [of leaves "access_time c"]
  by (auto simp: heappop_node_def Let_def arg_min_list_in)

definition slots :: "(nat \<Rightarrow> tree_node option) \<Rightarrow> nat set \<Rightarrow> int multiset" where
  \<comment> \<open>the KV slots the tree holds\<close>
  "slots N L = (\<Sum>n\<in>L. mset (nvalue (nd N n)))"

lemma cut_slots:
  "finite L \<Longrightarrow> x \<in> L \<Longrightarrow> slots N L = mset (nvalue (nd N x)) + slots (cut_store ps p x N) (L - {x})"
  unfolding slots_def cut_store_fields by (rule sum.remove)

definition leaf_heap :: "radix_cache \<Rightarrow> nat set \<Rightarrow> nat list \<Rightarrow> bool" where
  \<comment> \<open>the heap holds leaves, and every unlocked one\<close>
  "leaf_heap c L leaves \<longleftrightarrow> distinct leaves \<and> set leaves \<subseteq> L
     \<and> (\<forall>n\<in>set leaves. children (nd (nodes c) n) = [])
     \<and> (\<forall>n\<in>L. children (nd (nodes c) n) = [] \<longrightarrow> n \<notin> set leaves \<longrightarrow> lock_ref (nd (nodes c) n) > 0)"

definition evicted :: "radix_cache \<Rightarrow> nat set \<Rightarrow> radix_cache \<Rightarrow> nat set \<Rightarrow> bool" where
  \<comment> \<open>the nodes that are gone were unlocked, the others are as before\<close>
  "evicted c L c' L' \<longleftrightarrow> page_size c' = page_size c \<and> disable c' = disable c \<and> root_node c' = root_node c \<and> L' \<subseteq> L
     \<and> protected_sz c' = protected_sz c \<and> evictable_sz c' \<le> evictable_sz c
     \<and> (\<forall>n\<in>L'. nvalue (nd (nodes c') n) = nvalue (nd (nodes c) n) \<and> lock_ref (nd (nodes c') n) = lock_ref (nd (nodes c) n))
     \<and> (\<forall>n\<in>L - L'. lock_ref (nd (nodes c) n) = 0)"

lemma evicted_trans: "evicted c L c1 L1 \<Longrightarrow> evicted c1 L1 c2 L2 \<Longrightarrow> evicted c L c2 L2"
  unfolding evicted_def by (auto; metis DiffI)

lemma evicted_refl: "evicted c L c L"
  by (simp add: evicted_def)

lemma only_root:
  assumes wf: "tree_wf ps r N L K V" and "children (nd N r) = []"
  shows "L = {r}"
proof -
  have "n = r" if "n \<in> L" for n
    using root_descendant [OF wf that] assms(2) by (auto simp: child_of_def elim: converse_rtranclpE)
  then show ?thesis using tree_wfD(3) [OF wf] by blast
qed

lemma length_remove1_less: "x \<in> set xs \<Longrightarrow> length (remove1 x xs) < length xs"
  by (induction xs) auto

lemma leaf_heap_skip:
  "leaf_heap c L leaves \<Longrightarrow> lock_ref (nd (nodes c) x) > 0 \<Longrightarrow> leaf_heap c L (remove1 x leaves)"
  by (auto simp: leaf_heap_def)

lemma leaf_heap_cut:
  assumes wf: "tree_wf ps r N L K V" and h: "leaf_heap c L leaves" and N: "nodes c = N" "nodes c' = cut_store ps p x N"
    and L: "p \<in> L" "x \<in> set leaves" and e: "edge_ok ps N K V p x"
  shows "leaf_heap c' (L - {x}) (if children (nd (nodes c') p) = [] then remove1 x leaves @ [p] else remove1 x leaves)"
proof -
  have p: "p \<noteq> x" using edge_ok_length [OF e] by auto
  have "children (nd N p) \<noteq> []" using e by (auto simp: edge_ok_def)
  then have pl: "p \<notin> set leaves" using h N by (auto simp: leaf_heap_def)
  have "children (nd (nodes c') n) = children (nd N n)" if "n \<noteq> p" for n using that by (simp add: N cut_store_fields)
  then show ?thesis
    using h pl p L unfolding leaf_heap_def N cut_store_fields(5) by (auto; metis)
qed

lemma evict_step:
  assumes inv: "radix_inv c L K V" and h: "leaf_heap c L leaves" and x: "x \<in> set leaves" "x \<noteq> root_node c"
    and lock: "lock_ref (nd (nodes c) x) = 0"
  obtains p c1 c2 pn where "parent (nd (nodes c) x) = Some p" "delete_leaf x c = Some c1" "nodes c1 p = Some pn"
    "record_remove_event x c1 = Some c2" "radix_inv c2 (L - {x}) K V" "evicted c L c2 (L - {x})"
    "slots (nodes c) L = mset (nvalue (nd (nodes c) x)) + slots (nodes c2) (L - {x})"
    "evictable_sz c2 = evictable_sz c - int (length (nvalue (nd (nodes c) x)))"
    "leaf_heap c2 (L - {x}) (if length (children pn) = 0 then remove1 x leaves @ [p] else remove1 x leaves)"
proof -
  note wf = radix_invD(1) [OF inv]
  have xL: "x \<in> L" and leaf: "children (nd (nodes c) x) = []" using h x by (auto simp: leaf_heap_def)
  obtain p where p: "p \<in> L" and e: "edge_ok (page_size c) (nodes c) K V p x" using tree_wf_parent [OF wf xL x(2)] by blast
  have par: "parent (nd (nodes c) x) = Some p" and len: "length (nvalue (nd (nodes c) x)) = length (nkey (nd (nodes c) x))"
    using e by (simp_all add: edge_ok_def)
  let ?N = "cut_store (page_size c) p x (nodes c)"
  define c1 where "c1 = c\<lparr>nodes := ?N, evictable_sz := evictable_sz c - int (length (nkey (nd (nodes c) x)))\<rparr>"
  have d: "delete_leaf x c = Some c1" using delete_leaf_spec [OF inv p xL e] by (simp add: c1_def)
  obtain xd pn where n1: "nodes c1 x = Some xd" "nodes c1 p = Some pn"
    using cut_store_fields(1) [of "nodes c"] tree_wfD(4) [OF wf] xL p unfolding c1_def by fastforce
  obtain c2 where c2: "record_remove_event x c1 = Some c2" "core c2 = core c1" using record_remove_event_core [OF n1(1)] by blast
  have f: "nodes c2 = ?N" "page_size c2 = page_size c" "disable c2 = disable c" "root_node c2 = root_node c"
    "evictable_sz c2 = evictable_sz c - int (length (nkey (nd (nodes c) x)))" "protected_sz c2 = protected_sz c"
    using core_fields [OF c2(2)] by (simp_all add: c1_def)
  have inv2: "radix_inv c2 (L - {x}) K V"
    by (rule cut_inv [OF inv p xL x(2) e leaf lock]) (use c2(2) in \<open>simp add: c1_def\<close>)
  have ev: "evicted c L c2 (L - {x})" using lock unfolding evicted_def f by (auto simp: cut_store_fields)
  have sl: "slots (nodes c) L = mset (nvalue (nd (nodes c) x)) + slots (nodes c2) (L - {x})"
    unfolding f by (rule cut_slots [OF tree_wfD(2) [OF wf] xL])
  have "pn = nd (nodes c2) p" using n1(2) by (simp add: c1_def f)
  then have "leaf_heap c2 (L - {x}) (if length (children pn) = 0 then remove1 x leaves @ [p] else remove1 x leaves)"
    using leaf_heap_cut [OF wf h refl f(1) p x(1) e] by simp
  then show ?thesis using that [OF par d n1(2) c2(1) inv2 ev sl] f(5) len by simp
qed

context slot_allocator
begin

lemma evict_loop_spec:
  assumes "radix_inv c L K V" "leaf_heap c L leaves" "ok a" "\<forall>n\<in>L. whole (nvalue (nd (nodes c) n))"
  shows "\<exists>c' a' L'. evict_loop free_m k e leaves c a = Some (c', a') \<and> radix_inv c' L' K V \<and> evicted c L c' L'
     \<and> ok a' \<and> pool a' + slots (nodes c') L' = pool a + slots (nodes c) L
     \<and> (k \<le> e + (evictable_sz c - evictable_sz c') \<or> evictable_sz c' = 0)"
  using assms
proof (induction "2 * card L + length leaves" arbitrary: e leaves c a L rule: less_induct)
  case less
  note inv = less.prems(1) and h = less.prems(2) and wf = radix_invD(1) [OF less.prems(1)]
  let ?goal = "\<lambda>r. \<exists>c' a' L'. r = Some (c', a') \<and> radix_inv c' L' K V \<and> evicted c L c' L'
     \<and> ok a' \<and> pool a' + slots (nodes c') L' = pool a + slots (nodes c) L
     \<and> (k \<le> e + (evictable_sz c - evictable_sz c') \<or> evictable_sz c' = 0)"
  have stop: "?goal (Some (c, a))" if "k \<le> e \<or> evictable_sz c = 0"
    using inv less.prems(3) evicted_refl that by auto
  show ?case
  proof (cases "e < k \<and> leaves \<noteq> []")
    case False
    have "k \<le> e \<or> evictable_sz c = 0"
      using no_unlocked_leaf [OF inv] h False by (auto simp: leaf_heap_def)
    moreover have "evict_loop free_m k e leaves c a = Some (c, a)"
      using False by (subst evict_loop.simps) auto
    ultimately show ?thesis using stop by simp
  next
    case True
    obtain x rest where pop: "heappop_node c leaves = (x, rest)" by fastforce
    note P = heappop_node_props [OF _ pop]
    have x: "x \<in> set leaves" "rest = remove1 x leaves" "x \<in> L" using P(1,2) True h by (auto simp: leaf_heap_def)
    obtain xd where xd: "nodes c x = Some xd" using tree_wfD(4) [OF wf x(3)] by blast
    have unf: "evict_loop free_m k e leaves c a = (if x = root_node c then Some (c, a)
       else if lock_ref xd > 0 then evict_loop free_m k e rest c a
       else Option.bind (res_option (free_m (nvalue xd) a)) (\<lambda>a'. Option.bind (delete_leaf x c) (\<lambda>c1. Option.bind (parent xd)
         (\<lambda>p. Option.bind (nodes c1 p) (\<lambda>pn. Option.bind (record_remove_event x c1) (\<lambda>c2.
           evict_loop free_m k (e + int (length (nvalue xd))) (if length (children pn) = 0 then rest @ [p] else rest) c2 a'))))))"
      using True xd by (subst evict_loop.simps) (simp add: pop cong: if_cong)
    consider (root) "x = root_node c" | (locked) "x \<noteq> root_node c" "lock_ref xd > 0" | (free) "x \<noteq> root_node c" "\<not> lock_ref xd > 0" by blast
    then show ?thesis
    proof cases
      case root
      then have "L = {root_node c}" using only_root [OF wf] h x(1) by (auto simp: leaf_heap_def)
      then have "evictable_sz c = 0" using radix_invD(4) [OF inv] by (simp add: size_where_def)
      then show ?thesis using unf root stop by simp
    next
      case locked
      have hs: "leaf_heap c L rest" unfolding x(2) using leaf_heap_skip [OF h] locked xd by simp
      have "length rest < length leaves" using length_remove1_less x by simp
      then show ?thesis using less.hyps [OF _ inv hs less.prems(3,4), of e] unf locked by simp
    next
      case free
      have lock: "lock_ref (nd (nodes c) x) = 0" using free(2) radix_invD(3) [OF inv] x(3) xd by (force simp: lock_wf_def)
      obtain p c1 c2 pn where st: "parent (nd (nodes c) x) = Some p" "delete_leaf x c = Some c1" "nodes c1 p = Some pn"
        "record_remove_event x c1 = Some c2" and inv2: "radix_inv c2 (L - {x}) K V" and ev: "evicted c L c2 (L - {x})"
        and sl: "slots (nodes c) L = mset (nvalue (nd (nodes c) x)) + slots (nodes c2) (L - {x})"
        and ez: "evictable_sz c2 = evictable_sz c - int (length (nvalue (nd (nodes c) x)))"
        and h2: "leaf_heap c2 (L - {x}) (if length (children pn) = 0 then remove1 x leaves @ [p] else remove1 x leaves)"
        using evict_step [OF inv h x(1) free(1) lock] .
      let ?ls = "if length (children pn) = 0 then rest @ [p] else rest"
      obtain a' where a': "free_m (nvalue xd) a = Inr a'" "ok a'" "pool a' = mset (nvalue xd) + pool a"
        using free_law [OF less.prems(3), of "nvalue xd"] less.prems(4) x(3) xd by force
      have w2: "\<forall>n\<in>L - {x}. whole (nvalue (nd (nodes c2) n))" using less.prems(4) ev by (simp add: evicted_def)
      have "card (L - {x}) < card L" using x(3) tree_wfD(2) [OF wf] by (intro card_Diff1_less)
      moreover have "length rest < length leaves" using length_remove1_less x by simp
      ultimately have sm: "2 * card (L - {x}) + length ?ls < 2 * card L + length leaves" by auto
      have "evict_loop free_m k e leaves c a = evict_loop free_m k (e + int (length (nvalue xd))) ?ls c2 a'"
        unfolding unf using free st a' xd by simp
      moreover obtain c' a'' L' where r: "evict_loop free_m k (e + int (length (nvalue xd))) ?ls c2 a' = Some (c', a'')"
        "radix_inv c' L' K V" "evicted c2 (L - {x}) c' L'" "ok a''"
        "pool a'' + slots (nodes c') L' = pool a' + slots (nodes c2) (L - {x})"
        "k \<le> e + int (length (nvalue xd)) + (evictable_sz c2 - evictable_sz c') \<or> evictable_sz c' = 0"
        using less.hyps [OF sm inv2 _ a'(2) w2, of "e + int (length (nvalue xd))"] h2 x(2) by auto
      moreover have "pool a'' + slots (nodes c') L' = pool a + slots (nodes c) L"
        unfolding r(5) a'(3) sl xd option.sel by (simp only: ac_simps)
      moreover have "k \<le> e + (evictable_sz c - evictable_sz c') \<or> evictable_sz c' = 0"
        using r(6) ez xd by simp
      ultimately show ?thesis using evicted_trans [OF ev r(3)] r(2,4)
        by (intro exI [of _ c'] exI [of _ a''] exI [of _ L'] conjI) simp_all
    qed
  qed
qed

lemma evict_frame_spec:
  assumes ok: "radix_ok c" "\<not> disable c" "ok a" and "\<forall>n\<in>live c. whole (nvalue (the (nodes c n)))"
  shows "\<exists>c' a'. evict free_m k c a = Some (c', a') \<and> radix_ok c' \<and> ok a'
     \<and> pool a' + slots (nodes c') (live c') = pool a + slots (nodes c) (live c)
     \<and> (k \<le> evictable_size c - evictable_size c' \<or> evictable_size c' = 0) \<and> protected_size c' = protected_size c
     \<and> (\<forall>n ks vs. path c n ks vs \<longrightarrow> 0 < lock_ref (the (nodes c n)) \<longrightarrow> path c' n ks vs)
     \<and> (\<forall>ks vs. cached c' ks vs \<longrightarrow> cached c ks vs)
     \<and> disable c' = disable c \<and> page_size c' = page_size c \<and> root_node c' = root_node c"
proof -
  obtain L K V where inv: "radix_inv c L K V" using ok(1) by (auto simp: radix_ok_def)
  note wf = radix_invD(1) [OF inv] and lv = live_eq [OF inv]
  obtain ls where ls: "collect_leaves c = Some ls" "distinct ls" "set ls = {n \<in> L. children (nd (nodes c) n) = []}"
    using collect_leaves_spec [OF wf] by blast
  have h: "leaf_heap c L ls" using ls by (auto simp: leaf_heap_def)
  have wh: "\<forall>n\<in>L. whole (nvalue (nd (nodes c) n))" using assms(4) unfolding lv .
  obtain c' a' L' where r: "evict_loop free_m k 0 ls c a = Some (c', a')" and inv': "radix_inv c' L' K V"
    and ev: "evicted c L c' L'" and a': "ok a'" "pool a' + slots (nodes c') L' = pool a + slots (nodes c) L"
    "k \<le> evictable_sz c - evictable_sz c' \<or> evictable_sz c' = 0"
    using evict_loop_spec [OF inv h ok(3) wh, of k 0] unfolding add_0 by (elim exE conjE)
  have "evict free_m k c a = Some (c', a')" using ok(2) ls(1) r by (simp add: evict_def)
  moreover have "radix_ok c'" using inv' by (auto simp: radix_ok_def)
  moreover note a'(1)
  moreover have "pool a' + slots (nodes c') (live c') = pool a + slots (nodes c) (live c)"
    unfolding lv live_eq [OF inv'] by (rule a'(2))
  moreover have "k \<le> evictable_size c - evictable_size c' \<or> evictable_size c' = 0"
    using a'(3) by (simp add: evictable_size_def)
  moreover have "protected_size c' = protected_size c" using ev by (simp add: evicted_def protected_size_def)
  moreover have "\<forall>n ks vs. path c n ks vs \<longrightarrow> 0 < lock_ref (nd (nodes c) n) \<longrightarrow> path c' n ks vs"
  proof (intro allI impI)
    fix n ks vs assume n: "path c n ks vs" "0 < lock_ref (nd (nodes c) n)"
    then have "n \<in> L" "ks = K n" "vs = V n" using path_iff [OF wf] by auto
    moreover from this have "n \<in> L'" using ev n(2) unfolding evicted_def by (metis DiffI less_irrefl)
    ultimately show "path c' n ks vs" using path_iff [OF radix_invD(1) [OF inv']] by simp
  qed
  moreover have "\<forall>ks vs. cached c' ks vs \<longrightarrow> cached c ks vs"
  proof (intro allI impI)
    fix ks vs assume "cached c' ks vs"
    then obtain n where "n \<in> L'" "covered (page_size c') ks vs (K n) (V n)" unfolding cached_covered [OF inv'] by blast
    moreover have "L' \<subseteq> L" "page_size c' = page_size c" using ev by (simp_all add: evicted_def)
    ultimately show "cached c ks vs" unfolding cached_covered [OF inv] by auto
  qed
  moreover have "disable c' = disable c" "page_size c' = page_size c" "root_node c' = root_node c" using ev by (simp_all add: evicted_def)
  ultimately show ?thesis by (intro exI [of _ c'] exI [of _ a'] conjI)
qed

lemma evict_spec:
  assumes ok: "radix_ok c" "\<not> disable c" "ok a" and "\<forall>n\<in>live c. whole (nvalue (the (nodes c n)))"
  shows "\<exists>c' a'. evict free_m k c a = Some (c', a') \<and> radix_ok c' \<and> ok a'
     \<and> pool a' + slots (nodes c') (live c') = pool a + slots (nodes c) (live c)
     \<and> (k \<le> evictable_size c - evictable_size c' \<or> evictable_size c' = 0) \<and> protected_size c' = protected_size c
     \<and> (\<forall>n ks vs. path c n ks vs \<longrightarrow> 0 < lock_ref (the (nodes c n)) \<longrightarrow> path c' n ks vs)
     \<and> (\<forall>ks vs. cached c' ks vs \<longrightarrow> cached c ks vs)"
  using evict_frame_spec [OF assms, of k] by (elim exE conjE) (intro exI conjI; assumption)

end

section \<open>Properties\<close>

lemma total_size_sum:
  assumes inv: "radix_inv c L K V"
  shows "total_size c = Some (\<Sum>n\<in>L. length (nvalue (nd (nodes c) n)))"
  using total_size_loop_spec [OF radix_invD(1) [OF inv] below_root(2) [OF radix_invD(1) [OF inv]], of 0]
    below_root(1) [OF radix_invD(1) [OF inv]] by (simp add: total_size_def)

lemma counters_sum:
  assumes inv: "radix_inv c L K V"
  shows "evictable_size c + protected_size c = int (\<Sum>n\<in>L. length (nvalue (nd (nodes c) n)))"
proof -
  note wf = radix_invD(1) [OF inv]
  have "(\<Sum>n\<in>L. length (nvalue (nd (nodes c) n))) = (\<Sum>n\<in>L - {root_node c}. length (nvalue (nd (nodes c) n)))"
    using tree_wfD(2,3,8) [OF wf] by (simp add: sum.remove [of L "root_node c"])
  moreover have "evictable_sz c + protected_sz c = (\<Sum>n\<in>L - {root_node c}. int (length (nvalue (nd (nodes c) n))))"
    unfolding radix_invD(4,5) [OF inv] size_where_def sum.distrib [symmetric] by (intro sum.cong) auto
  ultimately show ?thesis by (simp add: evictable_size_def protected_size_def)
qed

lemma size_slots: "finite L \<Longrightarrow> size (slots N L) = (\<Sum>n\<in>L. length (nvalue (nd N n)))"
  by (induction L rule: finite_induct) (simp_all add: slots_def)

lemma slots_counters: "radix_ok c \<Longrightarrow> int (size (slots (nodes c) (live c))) = evictable_size c + protected_size c"
  using counters_sum size_slots tree_wfD(2) [OF radix_invD(1)] live_eq unfolding radix_ok_def by metis

lemma page_example:
  "\<exists>c. radix_ok c \<and> \<not> disable c \<and> cached c [1, 2] [2, 3] \<and> (\<forall>n\<in>live c. nvalue (the (nodes c n)) \<in> {[], [2, 3]})"
proof -
  let ?c = "init_radix_cache 2 False True 0 int sum_list"
  have c: "radix_ok ?c" "\<not> disable ?c" "page_size ?c = 2" using radix_ok_init [of 2] by simp_all
  have e0: "cached ?c ks vs \<longleftrightarrow> ks = [] \<and> vs = []" for ks vs using radix_ok_init(4) [of 2] by simp
  have "page_size ?c dvd length [1, 2 :: int]" by (simp add: c(3))
  from insert_contract [OF c(1,2) this, of "[2, 3]"]
  obtain old c' where c': "radix_ok c'" "\<not> disable c'" "cached ?c (take (length old) [1, 2]) old"
    "\<forall>ks vs. cached c' ks vs \<longleftrightarrow> cached ?c ks vs \<or> (page_size ?c dvd length ks \<and> prefix ks [1, 2]
        \<and> vs = take (length ks) (old @ drop (length old) [2, 3]))"
    by (auto simp del: take_append)
  have "old = []" using c'(3) e0 by simp
  have ex: "cached c' ks vs \<longleftrightarrow> (ks = [] \<and> vs = []) \<or> (ks = [1, 2] \<and> vs = [2, 3])" for ks vs
  proof -
    have "even (length ks) \<and> prefix ks [1, 2] \<longleftrightarrow> ks = [] \<or> ks = [1, 2]"
      by (cases ks; cases "tl ks") auto
    then show ?thesis using \<open>old = []\<close> c'(4) [rule_format, of ks vs] unfolding c(3) e0 by auto
  qed
  obtain L K V where inv: "radix_inv c' L K V" using c'(1) by (auto simp: radix_ok_def)
  note wf = radix_invD(1) [OF inv]
  have node: "cached c' (K n) (V n)" if "n \<in> L" for n
    unfolding cached_covered [OF inv] using covered_self tree_wf_lengths [OF wf that] that by blast
  have "nvalue (nd (nodes c') n) \<in> {[], [2, 3]}" if n: "n \<in> L" for n
  proof (cases "n = root_node c'")
    case False
    then obtain p where p: "p \<in> L" "edge_ok (page_size c') (nodes c') K V p n" using tree_wf_parent [OF wf n] by blast
    then have "length (K p) < length (K n)" using edge_ok_length by blast
    then have "V p = []" "V n = [2, 3]" using node [OF n, unfolded ex] node [OF p(1), unfolded ex] by auto
    then show ?thesis using p(2) by (simp add: edge_ok_def)
  qed (use tree_wfD(8) [OF wf] in simp)
  then show ?thesis using c'(1,2) ex live_eq [OF inv] by (intro exI [of _ c']) simp
qed

text \<open>
  C20: the traversal that adds up the slots of all nodes returns, and its sum is the evictable
  size plus the protected size: the two counters, which the operations only ever adjust, count
  every slot of the tree exactly once.
\<close>

theorem total_size_is_counters:
  assumes "radix_ok c"
  shows "\<exists>t. total_size c = Some t \<and> int t = evictable_size c + protected_size c"
proof -
  obtain L K V where inv: "radix_inv c L K V" using assms by (auto simp: radix_ok_def)
  show ?thesis using total_size_sum [OF inv] counters_sum [OF inv] by simp
qed

theorem total_size_is_counters_witness:
  "\<exists>c t. cached c [1, 2, 3, 4] [11, 12, 13, 14] \<and> total_size c = Some t \<and> int t = evictable_size c + protected_size c"
proof -
  obtain c where c: "radix_ok c" and ex:
    "\<forall>ks vs. cached c ks vs \<longleftrightarrow> even (length ks) \<and> prefix ks [1, 2, 3, 4] \<and> vs = take (length ks) [11, 12, 13, 14]"
    using radix_example by blast
  then show ?thesis using total_size_is_counters [OF c] by (intro exI [of _ c]) auto
qed

text \<open>
  C8: evicting from an enabled cache over the token allocator returns. Either the requested
  number of tokens has been evicted or nothing evictable is left. The slots that leave the tree
  are exactly those that the allocator gains, so no slot is lost or freed twice. A node that is
  locked stays, with its path, and nothing that was not cached becomes cached.
\<close>

theorem evict_conserves_slots:
  assumes "radix_ok c" "\<not> disable c" "tok_ok a"
  shows "\<exists>c' a'. evict (\<lambda>xs a. Inr (tok_free xs a)) k c a = Some (c', a') \<and> radix_ok c' \<and> tok_ok a'
     \<and> pool_pages a' + slots (nodes c') (live c') = pool_pages a + slots (nodes c) (live c)
     \<and> (k \<le> evictable_size c - evictable_size c' \<or> evictable_size c' = 0) \<and> protected_size c' = protected_size c
     \<and> (\<forall>n ks vs. path c n ks vs \<longrightarrow> 0 < lock_ref (the (nodes c n)) \<longrightarrow> path c' n ks vs)
     \<and> (\<forall>ks vs. cached c' ks vs \<longrightarrow> cached c ks vs)"
  by (rule tok.evict_spec [OF assms]) simp

theorem evict_conserves_slots_witness:
  "\<exists>c c' a'. cached c [1, 2, 3, 4] [11, 12, 13, 14] \<and> radix_ok c'
     \<and> evict (\<lambda>xs a. Inr (tok_free xs a)) 2 c (tok_init 0 False) = Some (c', a')
     \<and> pool_pages a' + slots (nodes c') (live c') = slots (nodes c) (live c)"
proof -
  obtain c where c: "radix_ok c" "\<not> disable c" and ex:
    "\<forall>ks vs. cached c ks vs \<longleftrightarrow> even (length ks) \<and> prefix ks [1, 2, 3, 4] \<and> vs = take (length ks) [11, 12, 13, 14]"
    using radix_example by blast
  have a: "tok_ok (tok_init 0 False)" "pool_pages (tok_init 0 False) = {#}"
    by (simp_all add: tok_ok_def tok_init_def tok_clear_def pool_pages_def)
  have "cached c [1, 2, 3, 4] [11, 12, 13, 14]" using ex by simp
  then show ?thesis using evict_conserves_slots [OF c a(1), of 2] a(2) by (metis add_0)
qed

text \<open>
  C19: the same for the paged allocator, when the slots of every node are whole pages (as page-aligned
  keys give): the pages that leave the tree are those the allocator gains.
\<close>

theorem evict_conserves_pages:
  assumes "radix_ok c" "\<not> disable c" "paged_ok ps a" "\<forall>n\<in>live c. whole_pages ps (nvalue (the (nodes c n)))"
  shows "\<exists>c' a'. evict paged_free k c a = Some (c', a') \<and> radix_ok c' \<and> paged_ok ps a'
     \<and> paged_pool ps a' + slots (nodes c') (live c') = paged_pool ps a + slots (nodes c) (live c)
     \<and> (k \<le> evictable_size c - evictable_size c' \<or> evictable_size c' = 0) \<and> protected_size c' = protected_size c
     \<and> (\<forall>n ks vs. path c n ks vs \<longrightarrow> 0 < lock_ref (the (nodes c n)) \<longrightarrow> path c' n ks vs)
     \<and> (\<forall>ks vs. cached c' ks vs \<longrightarrow> cached c ks vs)"
  by (rule paged.evict_spec [OF assms])

theorem evict_conserves_pages_witness:
  "\<exists>c c' a'. cached c [1, 2] [2, 3] \<and> evict paged_free 2 c (paged_init 0 2 False False 0) = Some (c', a')
     \<and> paged_pool 2 a' + slots (nodes c') (live c') = slots (nodes c) (live c)"
proof -
  obtain c where c: "radix_ok c" "\<not> disable c" and ex: "cached c [1, 2] [2, 3]" "\<forall>n\<in>live c. nvalue (the (nodes c n)) \<in> {[], [2, 3]}"
    using page_example by blast
  have "whole_pages 2 []" "whole_pages 2 [2, 3]" by code_simp+
  then have w: "\<forall>n\<in>live c. whole_pages 2 (nvalue (the (nodes c n)))" using ex(2) by auto
  have a: "paged_ok 2 (paged_init 0 2 False False 0)" "paged_pool 2 (paged_init 0 2 False False 0) = {#}"
    by (simp_all add: paged_ok_def paged_pool_def paged_init_def paged_clear_def)
  show ?thesis using evict_conserves_pages [OF c a(1) w, of 2] a(2) ex(1) by (metis add_0)
qed

end
