(* ===== verification/Request_Cache.thy ===== *)
theory Request_Cache
  imports Request Memory_Pool Radix_Evict
begin

text \<open>
  What happens to the KV slots of a request: the request-level methods of the prefix caches.
  \<open>cache_finished_req\<close> and \<open>cache_unfinished_req\<close> of the radix cache (\<^verbatim>\<open>mem_cache/radix_cache.py\<close>) move
  the slots of a request into the tree and free those the tree already had; the \<open>ChunkCache\<close>
  (\<^verbatim>\<open>mem_cache/chunk_cache.py\<close>) caches nothing. The allocator is a parameter \<open>free_m\<close>, with the contract
  \<open>slot_allocator\<close>.
\<close>

section \<open>RadixCache: finished and unfinished requests\<close>

definition aligned_len :: "nat \<Rightarrow> int list \<Rightarrow> nat" where
  \<comment> \<open>\<open>page_aligned_len\<close>\<close>
  "aligned_len ps kv = (if ps \<noteq> 1 then length kv div ps * ps else length kv)"

definition cache_finished_req ::
  "(int list \<Rightarrow> 'a \<Rightarrow> 'a res) \<Rightarrow> req \<Rightarrow> radix_cache \<Rightarrow> req_to_token_pool \<Rightarrow> 'a
     \<Rightarrow> (radix_cache \<times> req_to_token_pool \<times> 'a) option" where
  "cache_finished_req free_m r c p a =
     (if disable c then do {
        i \<leftarrow> req_pool_idx r;
        kv_indices \<leftarrow> res_option (read_row i (int (length (origin_input_ids r) + length (output_ids r)) - 1) p);
        a1 \<leftarrow> res_option (free_m kv_indices a);
        Some (c, free_row i p, a1)
      } else do {
        let token_ids = py_take (- 1) (origin_input_ids r @ output_ids r);
        i \<leftarrow> req_pool_idx r;
        kv_indices \<leftarrow> res_option (read_row i (int (length token_ids)) p);
        let page_aligned_len = aligned_len (page_size c) kv_indices;
        let page_aligned_kv_indices = take page_aligned_len kv_indices;
        a1 \<leftarrow> (if page_size c \<noteq> 1 then res_option (free_m (drop page_aligned_len kv_indices) a) else Some a);
        (new_prefix_len, c1) \<leftarrow> insert_key (take page_aligned_len token_ids) (Some page_aligned_kv_indices) c;
        a2 \<leftarrow> res_option (free_m (slice (length (prefix_indices r)) new_prefix_len kv_indices) a1);
        let p1 = free_row i p;
        n \<leftarrow> last_node r;
        (_, c2) \<leftarrow> dec_lock_ref n c1;
        Some (c2, p1, a2)
      })"

definition cache_unfinished_req ::
  "(int list \<Rightarrow> 'a \<Rightarrow> 'a res) \<Rightarrow> req \<Rightarrow> radix_cache \<Rightarrow> req_to_token_pool \<Rightarrow> 'a
     \<Rightarrow> (req \<times> radix_cache \<times> req_to_token_pool \<times> 'a) option" where
  "cache_unfinished_req free_m r c p a =
     (if disable c then Some (r, c, p, a)
      else do {
        let token_ids = fill_ids r;
        i \<leftarrow> req_pool_idx r;
        kv_indices \<leftarrow> res_option (read_row i (int (length token_ids)) p);
        let page_aligned_len = aligned_len (page_size c) kv_indices;
        let page_aligned_kv_indices = take page_aligned_len kv_indices;
        let page_aligned_token_ids = take page_aligned_len token_ids;
        (new_prefix_len, c1) \<leftarrow> insert_key page_aligned_token_ids (Some page_aligned_kv_indices) c;
        a1 \<leftarrow> res_option (free_m (slice (length (prefix_indices r)) new_prefix_len kv_indices) a);
        (m, c2) \<leftarrow> match_prefix page_aligned_token_ids c1;
        let new_indices = device_indices m;
        p1 \<leftarrow> res_option (write_row i (int (length (prefix_indices r))) (int (length new_indices))
               (drop (length (prefix_indices r)) new_indices) p);
        n \<leftarrow> last_node r;
        (_, c3) \<leftarrow> dec_lock_ref n c2;
        (_, c4) \<leftarrow> inc_lock_ref (last_device_node m) c3;
        let pre = (if page_size c \<noteq> 1 then new_indices @ drop (length new_indices) kv_indices else new_indices);
        Some (r\<lparr>prefix_indices := pre, last_node := Some (last_device_node m)\<rparr>, c4, p1, a1)
      })"

section \<open>ChunkCache\<close>

record chunk_cache =
  chunk_page_size :: nat

definition chunk_reset :: "chunk_cache \<Rightarrow> chunk_cache" where
  "chunk_reset c = c"

definition chunk_match_prefix :: "int list \<Rightarrow> chunk_cache \<Rightarrow> int list \<times> nat option \<times> nat option" where
  \<comment> \<open>no indices and no nodes, whatever the key\<close>
  "chunk_match_prefix key c = ([], None, None)"

definition chunk_cache_finished_req ::
  "(int list \<Rightarrow> 'a \<Rightarrow> 'a res) \<Rightarrow> req \<Rightarrow> req_to_token_pool \<Rightarrow> 'a \<Rightarrow> (req_to_token_pool \<times> 'a) option" where
  "chunk_cache_finished_req free_m r p a = do {
     i \<leftarrow> req_pool_idx r;
     kv_indices \<leftarrow> res_option (read_row i (int (length (origin_input_ids r)) + max (int (length (output_ids r)) - 1) 0) p);
     let p1 = free_row i p;
     a1 \<leftarrow> res_option (free_m kv_indices a);
     Some (p1, a1)
   }"

definition chunk_cache_unfinished_req :: "req \<Rightarrow> req_to_token_pool \<Rightarrow> req option" where
  "chunk_cache_unfinished_req r p = do {
     i \<leftarrow> req_pool_idx r;
     kv_indices \<leftarrow> res_option (read_row i (int (length (fill_ids r))) p);
     Some (r\<lparr>prefix_indices := kv_indices\<rparr>)
   }"

definition chunk_evict :: "int \<Rightarrow> chunk_cache \<Rightarrow> chunk_cache" where
  "chunk_evict num_tokens c = c"

definition chunk_inc_lock_ref :: "nat option \<Rightarrow> chunk_cache \<Rightarrow> int \<times> chunk_cache" where
  "chunk_inc_lock_ref node c = (0, c)"

definition chunk_dec_lock_ref :: "nat option \<Rightarrow> chunk_cache \<Rightarrow> int \<times> chunk_cache" where
  "chunk_dec_lock_ref node c = (0, c)"

definition evict_swa :: "req \<Rightarrow> int \<Rightarrow> int \<Rightarrow> req_to_token_pool \<Rightarrow> swa_allocator \<Rightarrow> (req \<times> swa_allocator) option" where
  \<comment> \<open>\<open>SWAChunkCache.evict_swa\<close>: frees the window slots of the finished attention chunks\<close>
  "evict_swa r prelen attention_chunk_size p a =
     (if prelen \<ge> evicted_seqlen_local r + attention_chunk_size then do {
        (if attention_chunk_size = 0 then None else Some ());
        let new_len = attention_chunk_size * (prelen div attention_chunk_size);
        i \<leftarrow> req_pool_idx r;
        row \<leftarrow> res_option (read_row i new_len p);
        a1 \<leftarrow> res_option (swa_free_swa (py_drop (evicted_seqlen_local r) row) a);
        Some (r\<lparr>evicted_seqlen_local := new_len\<rparr>, a1)
      } else Some (r, a))"

section \<open>Requests that hold a part of the cache\<close>

definition holds_prefix :: "req \<Rightarrow> int list \<Rightarrow> req_to_token_pool \<Rightarrow> radix_cache \<Rightarrow> bool" where
  \<comment> \<open>the request owns a row in which the first slots are its cached prefix, and holds a lock on the
    node at the end of that prefix\<close>
  "holds_prefix r token_ids p c \<longleftrightarrow>
     (\<exists>i n. req_pool_idx r = Some i \<and> row_ok i p \<and> length token_ids \<le> length (pool_row i p)
        \<and> last_node r = Some n \<and> length (prefix_indices r) \<le> length token_ids
        \<and> path c n (take (length (prefix_indices r)) token_ids) (prefix_indices r)
        \<and> take (length (prefix_indices r)) (pool_row i p) = prefix_indices r
        \<and> (n = root_node c \<or> 1 \<le> own_locks c (live c) n))"

definition req_slots :: "req \<Rightarrow> int list \<Rightarrow> req_to_token_pool \<Rightarrow> int list" where
  \<comment> \<open>the slots of the tokens, as the row of the request has them\<close>
  "req_slots r token_ids p = take (length token_ids) (pool_row (the (req_pool_idx r)) p)"

lemma path_cached:
  assumes "radix_ok c" "path c n ks vs"
  shows "cached c ks vs" "page_size c dvd length ks"
proof -
  obtain L K V where inv: "radix_inv c L K V" using assms(1) by (auto simp: radix_ok_def)
  note wf = radix_invD(1) [OF inv]
  have n: "n \<in> L" "ks = K n" "vs = V n" using assms(2) path_iff [OF wf] by auto
  show "page_size c dvd length ks" using tree_wf_lengths [OF wf n(1)] n(2) by simp
  then show "cached c ks vs" using assms(2) tree_wf_lengths [OF wf n(1)] n
    unfolding cached_def by (intro exI [of _ n] exI [of _ ks] exI [of _ vs] exI [of _ "length ks"]) auto
qed

lemma insert_keeps_locks:
  assumes "radix_ok c" "\<not> disable c" "page_size c dvd length key" "length vls = length key"
    "insert_key key (Some vls) c = Some (m, c')"
  shows "root_node c' = root_node c" "live c \<subseteq> live c'" "locks_on c' = locks_on c"
proof -
  obtain L K V where inv: "radix_inv c L K V" using assms(1) by (auto simp: radix_ok_def)
  obtain L' K' V' w where post: "insert_post c L K V key vls m c' L' K' V' w"
    using insert_key_spec [OF inv assms(2-4)] assms(5) by (metis option.inject prod.inject)
  then have g: "radix_inv c' L' K' V'" "grows c L K V c' L' K' V'" by (auto simp: insert_post_def)
  then show "root_node c' = root_node c" "live c \<subseteq> live c'" "locks_on c' = locks_on c"
    unfolding locks_on_def fun_eq_iff live_eq [OF inv] live_eq [OF g(1)] by (auto simp: grows_def)
qed

lemma match_keeps_locks:
  assumes "radix_ok c" "\<not> disable c" "match_prefix key c = Some (r, c')"
  shows "root_node c' = root_node c" "live c \<subseteq> live c'" "locks_on c' = locks_on c"
proof -
  obtain L K V where inv: "radix_inv c L K V" using assms(1) by (auto simp: radix_ok_def)
  obtain vals where "match_post c L K V (aligned_key (page_size c) key) vals (last_device_node r) c'"
    using match_prefix_spec [OF inv assms(2)] assms(3) by (metis option.inject prod.inject)
  then obtain L' K' V' where g: "radix_inv c' L' K' V'" "grows c L K V c' L' K' V'"
    by (auto simp: match_post_def)
  then show "root_node c' = root_node c" "live c \<subseteq> live c'" "locks_on c' = locks_on c"
    unfolding locks_on_def fun_eq_iff live_eq [OF inv] live_eq [OF g(1)] by (auto simp: grows_def)
qed

lemma cached_path: "path c' = path c \<Longrightarrow> page_size c' = page_size c \<Longrightarrow> cached c' = cached c"
  by (simp add: cached_def fun_eq_iff)

lemma cached_take: "cached c ks vs \<Longrightarrow> page_size c dvd j \<Longrightarrow> cached c (take j ks) (take j vs)"
  unfolding cached_def
proof (elim exE conjE)
  fix n ks' vs' i
  assume a: "page_size c dvd j" "path c n ks' vs'" "page_size c dvd i" "i \<le> length ks'" "ks = take i ks'" "vs = take i vs'"
  show "\<exists>n ks' vs' i. path c n ks' vs' \<and> page_size c dvd i \<and> i \<le> length ks' \<and> take j ks = take i ks' \<and> take j vs = take i vs'"
    by (rule exI [of _ n], rule exI [of _ ks'], rule exI [of _ vs'], rule exI [of _ "min j i"])
      (use a in \<open>auto simp: min_def\<close>)
qed

lemma aligned_len_props: "0 < ps \<Longrightarrow> ps dvd aligned_len ps kv \<and> aligned_len ps kv \<le> length kv"
  by (auto simp: aligned_len_def)

lemma radix_ok_page: "radix_ok c \<Longrightarrow> 0 < page_size c"
  using radix_invD(1) tree_wfD(1) unfolding radix_ok_def by blast

lemma locked_after_inc:
  assumes "radix_ok c" "\<not> disable c" "path c n ks vs"
  shows "\<exists>d c'. inc_lock_ref n c = Some (d, c') \<and> radix_ok c' \<and> path c' = path c \<and> page_size c' = page_size c
     \<and> (n = root_node c' \<or> 1 \<le> own_locks c' (live c') n)
     \<and> (\<forall>q. q \<noteq> root_node c \<longrightarrow> locks_on c' q = locks_on c q + (if q = n then 1 else 0))"
proof -
  obtain d c' where c': "inc_lock_ref n c = Some (d, c')" "radix_ok c'" "path c' = path c"
    "\<forall>q\<in>live c. q \<noteq> root_node c \<longrightarrow> own_locks c' (live c') q = own_locks c (live c) q + (if q = n then 1 else 0)"
    "root_node c' = root_node c" "page_size c' = page_size c"
    using inc_lock_contract [OF assms] by (elim exE conjE) (rule that)
  obtain L K V where inv: "radix_inv c L K V" using assms(1) by (auto simp: radix_ok_def)
  have n: "n \<in> L" "n \<in> live c" using assms(3) path_iff [OF radix_invD(1) [OF inv]] live_eq [OF inv] by auto
  have "0 \<le> own_locks c (live c) n" if "n \<noteq> root_node c"
    using radix_invD(3) [OF inv] n that unfolding live_eq [OF inv] by (simp add: own_locks_def lock_wf_def)
  then have "n = root_node c' \<or> 1 \<le> own_locks c' (live c') n" using c'(4,5) n(2) by (cases "n = root_node c") auto
  then show ?thesis using c' locks_on_moved [OF c'(3) assms(3) c'(4)] by blast
qed

lemma unlocked_after_dec:
  assumes "radix_ok c" "\<not> disable c" "path c n ks vs" "n = root_node c \<or> 1 \<le> own_locks c (live c) n"
  shows "\<exists>d c'. dec_lock_ref n c = Some (d, c') \<and> radix_ok c' \<and> path c' = path c \<and> page_size c' = page_size c
     \<and> disable c' = disable c \<and> root_node c' = root_node c
     \<and> (\<forall>q. q \<noteq> root_node c \<longrightarrow> locks_on c' q = locks_on c q - (if q = n then 1 else 0))"
proof -
  obtain d c' where c': "dec_lock_ref n c = Some (d, c')" "radix_ok c'" "path c' = path c"
    "\<forall>q\<in>live c. q \<noteq> root_node c \<longrightarrow> own_locks c' (live c') q = own_locks c (live c) q - (if q = n then 1 else 0)"
    "disable c' = disable c" "root_node c' = root_node c" "page_size c' = page_size c"
    using dec_lock_contract [OF assms] by (elim exE conjE) (rule that)
  have "\<forall>q\<in>live c. q \<noteq> root_node c \<longrightarrow> own_locks c' (live c') q = own_locks c (live c) q + (if q = n then - 1 else 0)"
    using c'(4) by auto
  from locks_on_moved [OF c'(3) assms(3) this] show ?thesis using c' by auto
qed

lemma insert_aligned:
  assumes "radix_ok c" "\<not> disable c" "insert_key (take k ids) (Some vls) c = Some (m, c')"
    "page_size c dvd k" "k \<le> length ids" "length vls = k"
  shows "page_size c dvd m"
proof -
  obtain L K V where inv: "radix_inv c L K V" using assms(1) by (auto simp: radix_ok_def)
  have "page_size c dvd length (take k ids)" "length vls = length (take k ids)" using assms(4-) by (simp_all add: min.absorb2)
  from insert_key_spec [OF inv assms(2) this] show ?thesis
    using assms(3) unfolding insert_post_def by (metis option.inject prod.inject)
qed

lemma holds_prefix_inserted:
  assumes r: "radix_ok c" "\<not> disable c" and h: "holds_prefix r ids p c"
    and al: "page_size c dvd k" "k \<le> length ids" "length (prefix_indices r) \<le> k"
  shows "\<exists>old c1. insert_key (take k ids) (Some (take k (req_slots r ids p))) c = Some (length old, c1)
     \<and> radix_ok c1 \<and> \<not> disable c1 \<and> page_size c1 = page_size c \<and> length old \<le> k
     \<and> take (length (prefix_indices r)) old = prefix_indices r \<and> length (prefix_indices r) \<le> length old
     \<and> (\<forall>ks vs. cached c1 ks vs \<longleftrightarrow> cached c ks vs \<or> (page_size c dvd length ks \<and> prefix ks (take k ids)
          \<and> vs = take (length ks) (old @ slice (length old) k (req_slots r ids p))))
     \<and> cached c (take (length old) ids) old \<and> holds_prefix r ids p c1 \<and> root_node c1 = root_node c \<and> locks_on c1 = locks_on c"
proof -
  let ?kv = "req_slots r ids p" and ?pre = "prefix_indices r"
  obtain i n where i: "req_pool_idx r = Some i" "row_ok i p" "length ids \<le> length (pool_row i p)"
    "last_node r = Some n" "length ?pre \<le> length ids" "path c n (take (length ?pre) ids) ?pre"
    "take (length ?pre) (pool_row i p) = ?pre" "n = root_node c \<or> 1 \<le> own_locks c (live c) n"
    using h unfolding holds_prefix_def by (elim exE conjE) (rule that)
  have lkv: "length ?kv = length ids" using i(1,3) by (simp add: req_slots_def)
  have l: "page_size c dvd length (take k ids)" "length (take k ?kv) = length (take k ids)"
    using al lkv by (simp_all add: min.absorb2)
  obtain old c1 where ins: "insert_key (take k ids) (Some (take k ?kv)) c = Some (length old, c1)"
    "radix_ok c1" "\<not> disable c1" "page_size c1 = page_size c" "cached c (take (length old) (take k ids)) old"
    "\<forall>ks vs. cached c ks vs \<longrightarrow> prefix ks (take k ids) \<longrightarrow> length ks \<le> length old"
    "\<forall>ks vs. cached c1 ks vs \<longleftrightarrow> cached c ks vs \<or> (page_size c dvd length ks \<and> prefix ks (take k ids)
        \<and> vs = take (length ks) (old @ drop (length old) (take k ?kv)))" "\<forall>n ks vs. path c n ks vs \<longrightarrow> path c1 n ks vs"
    using insert_contract [OF r l] by (elim exE conjE) (rule that)
  have pc: "cached c (take (length ?pre) ids) ?pre" "page_size c dvd length (take (length ?pre) ids)"
    by (rule path_cached [OF r(1) i(6)])+
  have lold: "length old \<le> k" using cached_length [OF r(1) ins(5)] by simp
  have "prefix (take (length ?pre) ids) (take k ids)" using al(3) by (metis min.absorb1 take_is_prefix take_take)
  then have lp: "length ?pre \<le> length old" using ins(6) pc(1) i(5) by fastforce
  have "take (length ?pre) old = ?pre"
  proof -
    have "take (length ?pre) (take (length old) (take k ids)) = take (length ?pre) ids"
      using lp al(3) by (simp add: min.absorb1)
    moreover have "page_size c dvd length ?pre" using pc(2) i(5) by (simp add: min.absorb2)
    ultimately have "cached c (take (length ?pre) ids) (take (length ?pre) old)"
      using cached_take [OF ins(5)] by metis
    then show ?thesis using cached_functional [OF r(1) pc(1)] by metis
  qed
  moreover have nl: "n \<in> live c" using i(6) by (auto simp: live_def)
  moreover note k = insert_keeps_locks [OF r l ins(1)]
  moreover have "own_locks c1 (live c1) n = own_locks c (live c) n"
    using fun_cong [OF k(3), of n] nl k(2) by (simp add: locks_on_def subset_iff)
  then have "holds_prefix r ids p c1"
    using i ins(8) k(1) unfolding holds_prefix_def by metis
  moreover have "cached c (take (length old) ids) old" using ins(5) lold by (simp add: min.absorb1)
  ultimately show ?thesis using ins lold lp by (intro exI [of _ old] exI [of _ c1]) (simp add: slice_def drop_take)
qed

lemma holds_prefixD:
  assumes "holds_prefix r ids p c"
  obtains i n where "req_pool_idx r = Some i" "row_ok i p" "last_node r = Some n"
    "path c n (take (length (prefix_indices r)) ids) (prefix_indices r)" "n = root_node c \<or> 1 \<le> own_locks c (live c) n"
    "read_row i (int (length ids)) p = Inr (req_slots r ids p)" "length (req_slots r ids p) = length ids"
    "length ids \<le> length (pool_row i p)" "take (length (prefix_indices r)) (req_slots r ids p) = prefix_indices r"
    "length (prefix_indices r) \<le> length ids"
proof -
  obtain i n where i: "req_pool_idx r = Some i" "row_ok i p" "length ids \<le> length (pool_row i p)"
    "last_node r = Some n" "length (prefix_indices r) \<le> length ids"
    "path c n (take (length (prefix_indices r)) ids) (prefix_indices r)"
    "take (length (prefix_indices r)) (pool_row i p) = prefix_indices r" "n = root_node c \<or> 1 \<le> own_locks c (live c) n"
    using assms unfolding holds_prefix_def by (elim exE conjE) (rule that)
  have "read_row i (int (length ids)) p = Inr (req_slots r ids p)"
    using read_row_ok [OF i(2), of "int (length ids)"] i(1) by (simp add: req_slots_def)
  then show thesis using i by (intro that [of i n]) (simp_all add: req_slots_def)
qed

lemma prefix_aligned:
  assumes "radix_ok c" "holds_prefix r ids p c"
  shows "length (prefix_indices r) \<le> aligned_len (page_size c) (req_slots r ids p)"
proof -
  obtain i n where i: "path c n (take (length (prefix_indices r)) ids) (prefix_indices r)"
    "length (req_slots r ids p) = length ids" "length (prefix_indices r) \<le> length ids"
    using holds_prefixD [OF assms(2)] .
  have "page_size c dvd length (prefix_indices r)" using path_cached(2) [OF assms(1) i(1)] i(3) by (simp add: min.absorb2)
  then obtain q where q: "length (prefix_indices r) = page_size c * q" by (auto simp: dvd_def)
  have "q \<le> length ids div page_size c"
    using i(3) radix_ok_page [OF assms(1)] unfolding q by (simp add: less_eq_div_iff_mult_less_eq mult.commute)
  then show ?thesis using i(2,3) q by (auto simp: aligned_len_def mult.commute)
qed

context slot_allocator
begin

lemma finished_spec:
  assumes r: "radix_ok c" "\<not> disable c" and a: "ok a" and h: "holds_prefix r ids p c"
    and ids: "ids = butlast (origin_input_ids r @ output_ids r)" and kv: "kv = req_slots r ids p"
    and k: "k = aligned_len (page_size c) kv"
    and w: "whole (drop k kv)" "\<And>m. page_size c dvd m \<Longrightarrow> whole (slice (length (prefix_indices r)) m kv)"
  shows "\<exists>c' a' old. cache_finished_req free_m r c p a = Some (c', free_row (the (req_pool_idx r)) p, a')
     \<and> radix_ok c' \<and> ok a' \<and> take (length (prefix_indices r)) old = prefix_indices r
     \<and> length (prefix_indices r) \<le> length old \<and> length old \<le> k \<and> cached c (take (length old) ids) old
     \<and> pool a' = mset (slice (length (prefix_indices r)) (length old) kv) + mset (drop k kv) + pool a
     \<and> (\<forall>ks vs. cached c' ks vs \<longleftrightarrow> cached c ks vs \<or> (page_size c dvd length ks \<and> prefix ks (take k ids)
          \<and> vs = take (length ks) (old @ slice (length old) k kv)))
     \<and> (\<forall>q. q \<noteq> root_node c \<longrightarrow> locks_on c' q = locks_on c q - (if Some q = last_node r then 1 else 0))"
proof -
  let ?pre = "length (prefix_indices r)"
  obtain i n where i: "req_pool_idx r = Some i" "last_node r = Some n" "read_row i (int (length ids)) p = Inr kv"
    "length kv = length ids" using holds_prefixD [OF h] unfolding kv .
  have al: "page_size c dvd k" "k \<le> length ids" "?pre \<le> k"
    using aligned_len_props [OF radix_ok_page [OF r(1)], of kv] prefix_aligned [OF r(1) h] i(4) unfolding k kv by auto
  obtain old c1 where c1: "insert_key (take k ids) (Some (take k kv)) c = Some (length old, c1)"
    "radix_ok c1" "\<not> disable c1" "page_size c1 = page_size c" "length old \<le> k" "take ?pre old = prefix_indices r"
    "?pre \<le> length old" "\<forall>ks vs. cached c1 ks vs \<longleftrightarrow> cached c ks vs \<or> (page_size c dvd length ks \<and> prefix ks (take k ids)
          \<and> vs = take (length ks) (old @ slice (length old) k kv))" "cached c (take (length old) ids) old" "holds_prefix r ids p c1"
    "root_node c1 = root_node c" "locks_on c1 = locks_on c"
    using holds_prefix_inserted [OF r h al] unfolding kv [symmetric] by (elim exE conjE) (rule that)
  obtain a1 where a1: "(if page_size c \<noteq> 1 then res_option (free_m (drop k kv) a) else Some a) = Some a1"
    "ok a1" "pool a1 = mset (drop k kv) + pool a"
  proof (cases "page_size c = 1")
    case True
    then have "drop k kv = []" by (simp add: k aligned_len_def)
    then show ?thesis using that True a by simp
  next
    case False
    then show ?thesis using that free_law [OF a w(1)] by fastforce
  qed
  have pd: "page_size c dvd length old" by (rule insert_aligned [OF r c1(1) al(1,2)]) (use i(4) al(2) in simp)
  obtain a2 where a2: "free_m (slice ?pre (length old) kv) a1 = Inr a2" "ok a2"
    "pool a2 = mset (slice ?pre (length old) kv) + pool a1" using free_law [OF a1(2) w(2) [OF pd]] by blast
  obtain n' where n': "last_node r = Some n'" "path c1 n' (take ?pre ids) (prefix_indices r)"
    "n' = root_node c1 \<or> 1 \<le> own_locks c1 (live c1) n'" using holds_prefixD [OF c1(10)] .
  have "n' = n" using n'(1) i(2) by simp
  obtain d c2 where c2: "dec_lock_ref n c1 = Some (d, c2)" "radix_ok c2" "path c2 = path c1" "page_size c2 = page_size c1"
    "\<forall>q. q \<noteq> root_node c1 \<longrightarrow> locks_on c2 q = locks_on c1 q - (if q = n then 1 else 0)"
    using unlocked_after_dec [OF c1(2,3) n'(2,3)] unfolding \<open>n' = n\<close> by (elim exE conjE) (rule that)
  have lk: "\<forall>q. q \<noteq> root_node c \<longrightarrow> locks_on c2 q = locks_on c q - (if Some q = last_node r then 1 else 0)"
    using c2(5) c1(11,12) i(2) by simp
  have "cache_finished_req free_m r c p a = Some (c2, free_row i p, a2)"
    using r(2) i a1(1) a2(1) c1(1) c2(1)
    unfolding cache_finished_req_def py_take_butlast ids [symmetric] by (simp add: k [symmetric] Let_def split: if_splits)
  then show ?thesis
    using c1(2-10) c2(2-4) a1 a2 i(1) lk cached_path [OF c2(3,4)] by (intro exI [of _ c2] exI [of _ a2] exI [of _ old]) simp
qed

lemma unfinished_spec:
  assumes r: "radix_ok c" "\<not> disable c" and a: "ok a" and h: "holds_prefix r (fill_ids r) p c"
    and kv: "kv = req_slots r (fill_ids r) p" and k: "k = aligned_len (page_size c) kv"
    and w: "\<And>m. page_size c dvd m \<Longrightarrow> whole (slice (length (prefix_indices r)) m kv)"
  shows "\<exists>r' c' p' a' old new. cache_unfinished_req free_m r c p a = Some (r', c', p', a')
     \<and> radix_ok c' \<and> ok a' \<and> length (prefix_indices r) \<le> length old \<and> length old \<le> k
     \<and> cached c (take (length old) (fill_ids r)) old \<and> new = old @ slice (length old) k kv \<and> cached c' (take k (fill_ids r)) new
     \<and> pool a' = mset (slice (length (prefix_indices r)) (length old) kv) + pool a
     \<and> pool_row (the (req_pool_idx r)) p' = new @ drop k (pool_row (the (req_pool_idx r)) p)
     \<and> prefix_indices r' = new @ drop k kv \<and> (\<forall>ks vs. cached c ks vs \<longrightarrow> cached c' ks vs)
     \<and> (\<exists>n. last_node r' = Some n \<and> path c' n (take k (fill_ids r)) new \<and> (n = root_node c' \<or> 1 \<le> own_locks c' (live c') n))
     \<and> (\<forall>q. q \<noteq> root_node c \<longrightarrow> locks_on c' q = locks_on c q - (if Some q = last_node r then 1 else 0)
          + (if Some q = last_node r' then 1 else 0))"
proof -
  let ?pre = "length (prefix_indices r)" and ?ids = "fill_ids r"
  obtain i n where i: "req_pool_idx r = Some i" "row_ok i p" "last_node r = Some n" "read_row i (int (length ?ids)) p = Inr kv"
    "length kv = length ?ids" "length ?ids \<le> length (pool_row i p)" using holds_prefixD [OF h] unfolding kv .
  have al: "page_size c dvd k" "k \<le> length ?ids" "?pre \<le> k"
    using aligned_len_props [OF radix_ok_page [OF r(1)], of kv] prefix_aligned [OF r(1) h] i(5) unfolding k kv by auto
  obtain old c1 where c1: "insert_key (take k ?ids) (Some (take k kv)) c = Some (length old, c1)"
    "radix_ok c1" "\<not> disable c1" "page_size c1 = page_size c" "length old \<le> k" "take ?pre old = prefix_indices r"
    "?pre \<le> length old" "\<forall>ks vs. cached c1 ks vs \<longleftrightarrow> cached c ks vs \<or> (page_size c dvd length ks \<and> prefix ks (take k ?ids)
          \<and> vs = take (length ks) (old @ slice (length old) k kv))" "cached c (take (length old) ?ids) old" "holds_prefix r ?ids p c1"
    "root_node c1 = root_node c" "locks_on c1 = locks_on c"
    using holds_prefix_inserted [OF r h al] unfolding kv [symmetric] by (elim exE conjE) (rule that)
  define new where "new = old @ slice (length old) k kv"
  have ln: "length new = k" using c1(5) i(5) al(2) by (simp add: new_def)
  have new: "cached c1 (take k ?ids) new" using c1(8) al ln by (auto simp: new_def [symmetric] min.absorb2)
  have pd: "page_size c dvd length old" by (rule insert_aligned [OF r c1(1) al(1,2)]) (use i(5) al(2) in simp)
  obtain a1 where a1: "free_m (slice ?pre (length old) kv) a = Inr a1" "ok a1"
    "pool a1 = mset (slice ?pre (length old) kv) + pool a" using free_law [OF a w [OF pd]] by blast
  obtain m c2 where m: "match_prefix (take k ?ids) c1 = Some (m, c2)" "radix_ok c2" "\<not> disable c2" "cached c2 = cached c1"
    "cached c1 (take (length (device_indices m)) (take k ?ids)) (device_indices m)"
    "\<forall>ks vs. cached c1 ks vs \<longrightarrow> prefix ks (take k ?ids) \<longrightarrow> length ks \<le> length (device_indices m)"
    "path c2 (last_device_node m) (take (length (device_indices m)) (take k ?ids)) (device_indices m)"
    "\<forall>n ks vs. path c1 n ks vs \<longrightarrow> path c2 n ks vs"
    using match_prefix_contract [OF c1(2,3), of "take k ?ids"] by (elim exE conjE) (rule that)
  have "k \<le> length (device_indices m)" using m(6) new al(2) by fastforce
  then have dm: "device_indices m = new" using m(5) new cached_functional [OF c1(2)] by simp
  have pm: "path c2 (last_device_node m) (take k ?ids) new" using m(7) ln dm by simp
  obtain n' where n': "last_node r = Some n'" "path c1 n' (take ?pre ?ids) (prefix_indices r)"
    "n' = root_node c1 \<or> 1 \<le> own_locks c1 (live c1) n'" using holds_prefixD [OF c1(10)] .
  have nl: "n' \<in> live c1" using n'(2) by (auto simp: live_def)
  note mk = match_keeps_locks [OF c1(2,3) m(1)]
  have "own_locks c2 (live c2) n' = own_locks c1 (live c1) n'"
    using fun_cong [OF mk(3), of n'] nl mk(2) by (simp add: locks_on_def subset_iff)
  then have n2: "path c2 n (take ?pre ?ids) (prefix_indices r)" "n = root_node c2 \<or> 1 \<le> own_locks c2 (live c2) n"
    using mk(1) n' m(8) i(3) by auto
  obtain d c3 where c3: "dec_lock_ref n c2 = Some (d, c3)" "radix_ok c3" "path c3 = path c2" "page_size c3 = page_size c2" "disable c3 = disable c2"
    "root_node c3 = root_node c2" "\<forall>q. q \<noteq> root_node c2 \<longrightarrow> locks_on c3 q = locks_on c2 q - (if q = n then 1 else 0)"
    using unlocked_after_dec [OF m(2,3) n2] by (elim exE conjE) (rule that)
  obtain e c4 where c4: "inc_lock_ref (last_device_node m) c3 = Some (e, c4)" "radix_ok c4" "path c4 = path c3" "page_size c4 = page_size c3"
    "last_device_node m = root_node c4 \<or> 1 \<le> own_locks c4 (live c4) (last_device_node m)"
    "\<forall>q. q \<noteq> root_node c3 \<longrightarrow> locks_on c4 q = locks_on c3 q + (if q = last_device_node m then 1 else 0)"
    using locked_after_inc [OF c3(2) _ pm [folded c3(3)]] c3(5) m(3) by blast
  have wr: "write_row i (int ?pre) (int k) (drop ?pre new) p = Inr (p\<lparr>req_to_token := (req_to_token p)
      [nat i := take ?pre (pool_row i p) @ drop ?pre new @ drop k (pool_row i p)]\<rparr>)"
    by (rule write_row_ok [OF i(2)]) (use ln al i(6) in auto)
  have tp: "take ?pre (pool_row i p) = take ?pre new"
  proof -
    have "take ?pre (pool_row i p) = prefix_indices r" using h i(1) by (auto simp: holds_prefix_def)
    also have "\<dots> = take ?pre new" using c1(6,7) by (simp add: new_def)
    finally show ?thesis .
  qed
  let ?p = "p\<lparr>req_to_token := (req_to_token p)[nat i := new @ drop k (pool_row i p)]\<rparr>"
  let ?r = "r\<lparr>prefix_indices := new @ drop k kv, last_node := Some (last_device_node m)\<rparr>"
  have wr': "write_row i (int ?pre) (int k) (drop ?pre new) p = Inr ?p"
    unfolding wr tp append_assoc [symmetric] append_take_drop_id ..
  have one: "page_size c = 1 \<Longrightarrow> drop k kv = []" by (simp add: k aligned_len_def)
  have run: "cache_unfinished_req free_m r c p a = Some (?r, c4, ?p, a1)"
    using r(2) i a1(1) c1(1) m(1) c3(1) c4(1) dm ln wr' one
    unfolding cache_unfinished_req_def by (simp add: k [symmetric] Let_def)
  have row: "pool_row i ?p = new @ drop k (pool_row i p)" using i(2) by (simp add: pool_row_def row_ok_def nat_less_iff)
  have lk: "\<forall>q. q \<noteq> root_node c \<longrightarrow> locks_on c4 q = locks_on c q - (if Some q = last_node r then 1 else 0)
      + (if Some q = last_node ?r then 1 else 0)"
    using c4(6) c3(6,7) mk(1,3) c1(11,12) i(3) by simp
  have "cached c4 = cached c1" using cached_path [OF c4(3,4)] cached_path [OF c3(3,4)] m(4) by simp
  then show ?thesis
    using run row c1(5,7,8,9) c4(1-5) a1 i(1) new pm c3(3) lk
    by (intro exI [of _ ?r] exI [of _ c4] exI [of _ ?p] exI [of _ a1] exI [of _ old] exI [of _ new]) (simp add: new_def)
qed

end

section \<open>The chunk cache as a prefix cache\<close>

interpretation chunk: prefix_cache "\<lambda>_. True" "\<lambda>_ ks vs. ks = [] \<and> vs = []"
  "\<lambda>key (c :: chunk_cache). Some (fst (chunk_match_prefix key c), c)"
  by unfold_locales (auto simp: chunk_match_prefix_def)

section \<open>Properties\<close>

definition fresh_req :: req where
  "fresh_req = new_req [] [] [5, 6, 7] default_params False 0 False None None None None None
     \<lparr>output_ids := [8], fill_ids := [5, 6, 7, 8], req_pool_idx := Some 0, last_node := Some 0\<rparr>"

lemma fresh_req_holds:
  assumes "length ids \<le> 4"
  shows "holds_prefix fresh_req ids (init_req_pool 1 4) (init_radix_cache 2 False False 0 int sum_list)"
proof -
  have r: "root_node (init_radix_cache 2 False False 0 int sum_list) = 0"
    by (simp add: init_radix_cache_def reset_def create_node_def tick_def record_all_cleared_event_def)
  show ?thesis using path_root [of "init_radix_cache 2 False False 0 int sum_list"] assms unfolding r
    by (auto simp: holds_prefix_def fresh_req_def new_req_def row_ok_def init_req_pool_def pool_row_def r)
qed

lemma tok_init_ok: "tok_ok (tok_init n False)"
  by (simp add: tok_ok_def tok_init_def tok_clear_def)

text \<open>
  C4: a finished request that holds its prefix hands its slots over without loss. The call returns;
  of the slots of its tokens (the last token excluded) the cached prefix stays in the tree, those
  for tokens that the tree has meanwhile got at other slots are freed, the following ones enter
  the tree, and the unaligned rest is freed. The tree then holds exactly what it held and
  the aligned prefixes of the tokens, the row of the request is free, and exactly its lock on the node
  of its prefix is gone. Shown with the token allocator.
\<close>

theorem finished_req_slots:
  assumes "radix_ok c" "\<not> disable c" "tok_ok a" "ids = butlast (origin_input_ids r @ output_ids r)"
    "holds_prefix r ids p c" "kv = req_slots r ids p" "k = aligned_len (page_size c) kv"
  shows "\<exists>c' a' old. cache_finished_req (\<lambda>xs a. Inr (tok_free xs a)) r c p a = Some (c', free_row (the (req_pool_idx r)) p, a')
     \<and> radix_ok c' \<and> tok_ok a' \<and> take (length (prefix_indices r)) old = prefix_indices r
     \<and> length (prefix_indices r) \<le> length old \<and> length old \<le> k \<and> cached c (take (length old) ids) old
     \<and> pool_pages a' = mset (slice (length (prefix_indices r)) (length old) kv) + mset (drop k kv) + pool_pages a
     \<and> (\<forall>ks vs. cached c' ks vs \<longleftrightarrow> cached c ks vs \<or> (page_size c dvd length ks \<and> prefix ks (take k ids)
          \<and> vs = take (length ks) (old @ slice (length old) k kv)))
     \<and> (\<forall>q. q \<noteq> root_node c \<longrightarrow> locks_on c' q = locks_on c q - (if Some q = last_node r then 1 else 0))"
  by (rule tok.finished_spec [OF assms(1-3,5,4,6,7)]) simp_all

theorem finished_req_slots_witness:
  "\<exists>c' p' a'. cache_finished_req (\<lambda>xs a. Inr (tok_free xs a)) fresh_req
     (init_radix_cache 2 False False 0 int sum_list) (init_req_pool 1 4) (tok_init 0 False) = Some (c', p', a')
     \<and> cached c' [5, 6] [0, 0] \<and> pool_pages a' = {#0#}"
proof -
  let ?c = "init_radix_cache 2 False False 0 int sum_list" and ?p = "init_req_pool 1 4"
  have c: "radix_ok ?c" "\<not> disable ?c" "page_size ?c = 2" "cached ?c ks vs \<longleftrightarrow> ks = [] \<and> vs = []" for ks vs
    using radix_ok_init [of 2] by simp_all
  have ids: "[5, 6, 7] = butlast (origin_input_ids fresh_req @ output_ids fresh_req)"
    by (simp add: fresh_req_def new_req_def)
  have kv: "[0, 0, 0] = req_slots fresh_req [5, 6, 7] ?p"
    by (simp add: req_slots_def fresh_req_def new_req_def pool_row_def init_req_pool_def)
  have k: "2 = aligned_len (page_size ?c) [0, 0, 0 :: int]" by (simp add: aligned_len_def c(3))
  have pre: "prefix_indices fresh_req = []" by (simp add: fresh_req_def new_req_def)
  have h: "holds_prefix fresh_req [5, 6, 7] ?p ?c" by (rule fresh_req_holds) simp
  from finished_req_slots [OF c(1,2) tok_init_ok [of 0] ids h kv k, unfolded pre list.size]
  obtain c' a' old where f: "cache_finished_req (\<lambda>xs a. Inr (tok_free xs a)) fresh_req ?c ?p (tok_init 0 False)
      = Some (c', free_row (the (req_pool_idx fresh_req)) ?p, a')" "cached ?c (take (length old) [5, 6, 7]) old"
    "pool_pages a' = mset (slice 0 (length old) [0, 0, 0]) + mset (drop 2 [0, 0, 0]) + pool_pages (tok_init 0 False)"
    "\<forall>ks vs. cached c' ks vs \<longleftrightarrow> cached ?c ks vs \<or> (page_size ?c dvd length ks \<and> prefix ks (take 2 [5, 6, 7])
          \<and> vs = take (length ks) (old @ slice (length old) 2 [0, 0, 0]))"
    by (elim exE conjE) (rule that)
  have "old = []" using f(2) unfolding c(4) by simp
  then show ?thesis using f by (simp add: c(3) slice_def pool_pages_def tok_init_def tok_clear_def)
qed

text \<open>
  C5: caching an unfinished request keeps it consistent with the tree. The call returns; the row of
  the request, up to the page boundary, then has the slots that the tree holds for its tokens, the
  slots of its own that they replace are freed (and no others), the prefix indices are the slots of all its
  tokens. The lock of the request moves: there is one lock less on the node of its old prefix, one
  more on the node at the end of its aligned tokens, which is its new node, and the locks on all other
  nodes are as before. Nothing that was cached is lost. Shown with the token allocator.
\<close>

theorem unfinished_req_slots:
  assumes "radix_ok c" "\<not> disable c" "tok_ok a" "holds_prefix r (fill_ids r) p c"
    "kv = req_slots r (fill_ids r) p" "k = aligned_len (page_size c) kv"
  shows "\<exists>r' c' p' a' old new. cache_unfinished_req (\<lambda>xs a. Inr (tok_free xs a)) r c p a = Some (r', c', p', a')
     \<and> radix_ok c' \<and> tok_ok a' \<and> length (prefix_indices r) \<le> length old \<and> length old \<le> k
     \<and> cached c (take (length old) (fill_ids r)) old \<and> new = old @ slice (length old) k kv \<and> cached c' (take k (fill_ids r)) new
     \<and> pool_pages a' = mset (slice (length (prefix_indices r)) (length old) kv) + pool_pages a
     \<and> pool_row (the (req_pool_idx r)) p' = new @ drop k (pool_row (the (req_pool_idx r)) p)
     \<and> prefix_indices r' = new @ drop k kv \<and> (\<forall>ks vs. cached c ks vs \<longrightarrow> cached c' ks vs)
     \<and> (\<exists>n. last_node r' = Some n \<and> path c' n (take k (fill_ids r)) new \<and> (n = root_node c' \<or> 1 \<le> own_locks c' (live c') n))
     \<and> (\<forall>q. q \<noteq> root_node c \<longrightarrow> locks_on c' q = locks_on c q - (if Some q = last_node r then 1 else 0)
          + (if Some q = last_node r' then 1 else 0))"
  by (rule tok.unfinished_spec [OF assms]) simp

theorem unfinished_req_slots_witness:
  "\<exists>r' c' p' a'. cache_unfinished_req (\<lambda>xs a. Inr (tok_free xs a)) fresh_req
     (init_radix_cache 2 False False 0 int sum_list) (init_req_pool 1 4) (tok_init 0 False) = Some (r', c', p', a')
     \<and> cached c' [5, 6, 7, 8] [0, 0, 0, 0] \<and> prefix_indices r' = [0, 0, 0, 0]"
proof -
  let ?c = "init_radix_cache 2 False False 0 int sum_list" and ?p = "init_req_pool 1 4"
  have c: "radix_ok ?c" "\<not> disable ?c" "page_size ?c = 2" "cached ?c ks vs \<longleftrightarrow> ks = [] \<and> vs = []" for ks vs
    using radix_ok_init [of 2] by simp_all
  have r: "fill_ids fresh_req = [5, 6, 7, 8]" "prefix_indices fresh_req = []" by (simp_all add: fresh_req_def new_req_def)
  have kv: "[0, 0, 0, 0] = req_slots fresh_req (fill_ids fresh_req) ?p"
    by (simp add: req_slots_def fresh_req_def new_req_def pool_row_def init_req_pool_def)
  have k: "4 = aligned_len (page_size ?c) [0, 0, 0, 0 :: int]" by (simp add: aligned_len_def c(3))
  have h: "holds_prefix fresh_req (fill_ids fresh_req) ?p ?c" by (rule fresh_req_holds) (simp add: r)
  from unfinished_req_slots [OF c(1,2) tok_init_ok [of 0] h kv k, unfolded r]
  obtain r' c' p' a' old new where f: "cache_unfinished_req (\<lambda>xs a. Inr (tok_free xs a)) fresh_req ?c ?p (tok_init 0 False)
      = Some (r', c', p', a')" "cached ?c (take (length old) [5, 6, 7, 8]) old" "new = old @ slice (length old) 4 [0, 0, 0, 0]"
    "cached c' (take 4 [5, 6, 7, 8]) new" "prefix_indices r' = new @ drop 4 [0, 0, 0, 0]"
    by (elim exE conjE) (rule that)
  have "old = []" using f(2) unfolding c(4) by simp
  then show ?thesis using f by (simp add: slice_def)
qed

end
