(* ===== verification/Batch_Kernels.thy ===== *)
theory Batch_Kernels
  imports Paged_Kernels Memory_Pool Py_Text
begin

text \<open>
  The Triton kernels of \<^verbatim>\<open>managers/schedule_batch.py\<close> that read and write the table of token
  locations, and the torch code they replace. A kernel sees the table as one flat buffer with a
  row stride, and works in blocks of lanes.
\<close>

section \<open>The kernels\<close>

definition write_req_to_token_program ::
  "int \<Rightarrow> int list \<Rightarrow> int list \<Rightarrow> int list \<Rightarrow> int list \<Rightarrow> int list \<Rightarrow> int \<Rightarrow> nat \<Rightarrow> (int \<times> int) list" where
  "write_req_to_token_program other req_pool_indices pre_lens seq_lens extend_lens out_cache_loc stride pid =
     (let req_pool_index = tl_load other req_pool_indices (int pid) True;
          pre_len = tl_load other pre_lens (int pid) True;
          seq_len = tl_load other seq_lens (int pid) True;
          cumsum_start = sum_list (map (\<lambda>i. tl_load other extend_lens (int i) True) [0..<pid]);
          num_loop = nat (cdiv_page 512 (seq_len - pre_len))
      in concat (map (\<lambda>i. map (\<lambda>l.
           (let offset = int l + int i * 512
            in (req_pool_index * stride + offset + pre_len, tl_load other out_cache_loc (cumsum_start + offset) True)))
           (filter (\<lambda>l. int l + int i * 512 < seq_len - pre_len) [0..<512])) [0..<num_loop]))"

definition write_req_to_token_pool_triton ::
  "int \<Rightarrow> int list \<Rightarrow> int list \<Rightarrow> int list \<Rightarrow> int list \<Rightarrow> int list \<Rightarrow> int list \<Rightarrow> int \<Rightarrow> nat \<Rightarrow> int list" where
  "write_req_to_token_pool_triton other req_to_token_ptr req_pool_indices pre_lens seq_lens extend_lens out_cache_loc stride bs =
     tl_stores (concat (map (write_req_to_token_program other req_pool_indices pre_lens seq_lens extend_lens
       out_cache_loc stride) [0..<bs])) req_to_token_ptr"

primrec write_extend_loop ::
  "int list \<Rightarrow> int list \<Rightarrow> int list \<Rightarrow> int list \<Rightarrow> int list \<Rightarrow> req_to_token_pool \<Rightarrow> nat \<Rightarrow> (int \<times> req_to_token_pool) res" where
  \<comment> \<open>the torch code: the loop of \<open>prepare_for_extend\<close> after its first iterations\<close>
  "write_extend_loop req_pool_indices prefix_lens seq_lens extend_lens out_cache_loc p 0 = Inr (0, p)"
| "write_extend_loop req_pool_indices prefix_lens seq_lens extend_lens out_cache_loc p (Suc i) =
     res_bind (write_extend_loop req_pool_indices prefix_lens seq_lens extend_lens out_cache_loc p i) (\<lambda>(pt, p1).
     res_bind (write_row (req_pool_indices ! i) (prefix_lens ! i) (seq_lens ! i)
                 (py_drop pt (py_take (pt + extend_lens ! i) out_cache_loc)) p1)
       (\<lambda>p2. Inr (pt + extend_lens ! i, p2)))"

fun gather_cells :: "int list list \<Rightarrow> int list \<Rightarrow> int list \<Rightarrow> int list res" where
  \<comment> \<open>\<open>t[is, js]\<close>\<close>
  "gather_cells t (i # is) (j # js) =
     res_bind (py_get t i) (\<lambda>row. res_bind (py_get row j) (\<lambda>v. res_bind (gather_cells t is js) (\<lambda>vs. Inr (v # vs))))"
| "gather_cells t [] [] = Inr []"
| "gather_cells t _ _ = Inl IndexError"

definition get_last_loc_torch :: "int list list \<Rightarrow> int list \<Rightarrow> int list \<Rightarrow> int list res" where
  "get_last_loc_torch table req_pool_indices prefix_lens =
     res_bind (gather_cells table req_pool_indices (map (\<lambda>l. l - 1) prefix_lens))
       (\<lambda>vs. Inr (map2 (\<lambda>l v. if l > 0 then v else - 1) prefix_lens vs))"

definition get_last_loc_kernel ::
  "int list \<Rightarrow> int list \<Rightarrow> int list \<Rightarrow> nat \<Rightarrow> int \<Rightarrow> nat \<Rightarrow> nat \<Rightarrow> (int \<times> int) list" where
  "get_last_loc_kernel req_to_token_ptr req_pool_indices prefix_lens num_tokens stride block pid =
     map (\<lambda>l. (let offset = int l + int pid * int block;
                   pre = tl_load 0 prefix_lens offset True;
                   idx = tl_load 0 req_pool_indices offset True;
                   token_index = idx * stride + (pre - 1)
               in (offset, tl_load (- 1) req_to_token_ptr token_index (pre > 0))))
       (filter (\<lambda>l. int l + int pid * int block < int num_tokens) [0..<block])"

definition get_last_loc_triton :: "int \<Rightarrow> int list \<Rightarrow> int list \<Rightarrow> int list \<Rightarrow> int \<Rightarrow> int list" where
  \<comment> \<open>\<open>other\<close> is the content of the fresh result tensor\<close>
  "get_last_loc_triton other req_to_token_ptr req_pool_indices prefix_lens stride =
     (let num_tokens = length prefix_lens
      in tl_stores (concat (map (get_last_loc_kernel req_to_token_ptr req_pool_indices prefix_lens num_tokens stride 256)
           [0..<nat (cdiv_page 256 (int num_tokens))])) (replicate num_tokens other))"

definition get_last_loc :: "Py_Text.text \<Rightarrow> int \<Rightarrow> int list list \<Rightarrow> int \<Rightarrow> int list \<Rightarrow> int list \<Rightarrow> int list res" where
  "get_last_loc attention_backend other table stride req_pool_indices prefix_lens =
     (if attention_backend \<noteq> str ''ascend'' \<and> attention_backend \<noteq> str ''torch_native''
      then Inr (get_last_loc_triton other (concat table) req_pool_indices prefix_lens stride)
      else get_last_loc_torch table req_pool_indices prefix_lens)"

section \<open>Blocks of lanes\<close>

lemma filter_block: "filter (\<lambda>l. int l + int m * int B < n) [0..<B] = [0..<min B (nat (n - int m * int B))]"
  using filter_less_upt [of "n - int m * int B" B] by (simp add: less_diff_eq min.commute)

lemma block_prefix:
  "concat (map (\<lambda>i. map (\<lambda>l. f (int l + int i * int B)) (filter (\<lambda>l. int l + int i * int B < int n) [0..<B])) [0..<m])
   = map (\<lambda>k. f (int k)) [0..<min (m * B) n]"
proof (induction m)
  case (Suc m)
  have "min (Suc m * B) n = min (m * B) n + min B (n - m * B)" by auto
  moreover have "nat (int n - int m * int B) = n - m * B" by (simp add: nat_diff_distrib' flip: of_nat_mult)
  moreover have "map (\<lambda>l. f (int l + int m * int B)) [0..<min B (n - m * B)]
      = map (\<lambda>k. f (int (min (m * B) n + k))) [0..<min B (n - m * B)]"
    by (rule map_cong) (auto simp: min_def add.commute split: if_splits)
  ultimately show ?case
    using Suc by (simp only: upt_Suc_append map_append concat_append filter_block map_upt_split list.map concat.simps append_Nil2 le0)
qed simp

lemma blocks_all:
  assumes "0 < B"
  shows "concat (map (\<lambda>i. map (\<lambda>l. f (int l + int i * int B)) (filter (\<lambda>l. int l + int i * int B < int n) [0..<B]))
           [0..<nat (cdiv_page (int B) (int n))]) = map (\<lambda>k. f (int k)) [0..<n]"
proof -
  have "int n \<le> (int n + int B - 1) div int B * int B"
    using assms pos_mod_bound [of "int B" "int n + int B - 1"] div_mult_mod_eq [of "int n + int B - 1" "int B"] by linarith
  moreover have "0 \<le> (int n + int B - 1) div int B" using assms by (simp add: pos_imp_zdiv_nonneg_iff)
  ultimately have "int n \<le> int (nat (cdiv_page (int B) (int n)) * B)" by (simp add: cdiv_page_def)
  then have "min (nat (cdiv_page (int B) (int n)) * B) n = n" by linarith
  then show ?thesis unfolding block_prefix by simp
qed

section \<open>The flat table\<close>

definition rect :: "nat \<Rightarrow> 'a list list \<Rightarrow> bool" where
  "rect w t \<longleftrightarrow> (\<forall>row\<in>set t. length row = w)"

lemma length_concat_rect: "rect w t \<Longrightarrow> length (concat t) = length t * w"
  by (induction t) (auto simp: rect_def)

lemma concat_split:
  assumes "rect w t" "i < length t"
  shows "concat t = concat (take i t) @ t ! i @ concat (drop (Suc i) t)" "length (concat (take i t)) = i * w" "length (t ! i) = w"
proof -
  show "concat t = concat (take i t) @ t ! i @ concat (drop (Suc i) t)"
    using id_take_nth_drop [OF assms(2)] by (metis concat.simps(2) concat_append)
  have "rect w (take i t)" using assms(1) by (auto simp: rect_def dest: in_set_takeD)
  then show "length (concat (take i t)) = i * w" using assms(2) by (simp add: length_concat_rect)
  show "length (t ! i) = w" using assms by (simp add: rect_def)
qed

lemma concat_update_rect:
  assumes "rect w t" "i < length t" "a + length vs \<le> w"
  shows "take (i * w + a) (concat t) @ vs @ drop (i * w + a + length vs) (concat t)
    = concat (t[i := take a (t ! i) @ vs @ drop (a + length vs) (t ! i)])"
proof -
  note s = concat_split [OF assms(1,2)]
  have "concat (t[i := row]) = concat (take i t) @ row @ concat (drop (Suc i) t)" for row
    by (simp add: upd_conv_take_nth_drop assms(2))
  then show ?thesis using assms(3) s(2,3) by (subst (1 2) s(1)) (simp add: add.assoc)
qed

lemma rect_update: "rect w t \<Longrightarrow> length row = w \<Longrightarrow> rect w (t[i := row])"
  using set_update_subset_insert [of t i row] by (fastforce simp: rect_def)

lemma concat_nth_rect:
  assumes "rect w t" "i < length t" "j < w"
  shows "concat t ! (i * w + j) = t ! i ! j"
  using concat_split [OF assms(1,2)] assms(3) by (simp add: nth_append)

section \<open>Writing the rows of a batch\<close>

definition extend_lists_ok :: "req_to_token_pool \<Rightarrow> nat \<Rightarrow> int list \<Rightarrow> int list \<Rightarrow> int list \<Rightarrow> int list \<Rightarrow> int list \<Rightarrow> bool" where
  \<comment> \<open>the lists of an extend batch: rows of the table, lengths within a row, and one location per token\<close>
  "extend_lists_ok p w idx pre seq ext out \<longleftrightarrow> rect w (req_to_token p)
     \<and> length pre = length idx \<and> length seq = length idx \<and> length ext = length idx
     \<and> (\<forall>i<length idx. row_ok (idx ! i) p \<and> 0 \<le> pre ! i \<and> pre ! i \<le> seq ! i \<and> seq ! i \<le> int w \<and> ext ! i = seq ! i - pre ! i)
     \<and> int (length out) = sum_list ext"

lemma program_writes:
  assumes ok: "extend_lists_ok p w idx pre seq ext out" and i: "i < length idx"
  defines "n \<equiv> nat (seq ! i - pre ! i)" and "s \<equiv> nat (sum_list (take i ext))"
  shows "s + n \<le> length out" "int s = sum_list (take i ext)"
    "write_req_to_token_program other idx pre seq ext out (int w) i
     = map (\<lambda>k. (int (nat (idx ! i) * w + nat (pre ! i) + k), out ! (s + k))) [0..<n]"
proof -
  have L: "length pre = length idx" "length seq = length idx" "length ext = length idx"
    and e: "\<And>j. j < length idx \<Longrightarrow> 0 \<le> ext ! j" and io: "int (length out) = sum_list ext"
    and ii: "0 \<le> idx ! i" "0 \<le> pre ! i" "pre ! i \<le> seq ! i" "ext ! i = seq ! i - pre ! i"
    using ok i by (auto simp: extend_lists_ok_def row_ok_def)
  have nn: "0 \<le> sum_list (take i ext)" "0 \<le> sum_list (drop (Suc i) ext)"
    using e L(3) by (auto intro!: sum_list_nonneg simp: in_set_conv_nth)
  have "sum_list ext = sum_list (take i ext) + ext ! i + sum_list (drop (Suc i) ext)"
    using id_take_nth_drop [of i ext] i L(3) by (metis sum_list.Cons sum_list_append add.assoc)
  then show s: "s + n \<le> length out" "int s = sum_list (take i ext)"
    using nn io ii unfolding s_def n_def by linarith+
  have cum: "sum_list (map (\<lambda>j. tl_load other ext (int j) True) [0..<i]) = int s"
  proof -
    have "map (\<lambda>j. tl_load other ext (int j) True) [0..<i] = take i ext"
      using i L(3) by (auto simp: tl_load_def list_eq_iff_nth_eq)
    then show ?thesis using s(2) by simp
  qed
  have ld: "tl_load other idx (int i) True = idx ! i" "tl_load other pre (int i) True = pre ! i" "tl_load other seq (int i) True = seq ! i"
    using i L by (simp_all add: tl_load_def)
  have n: "seq ! i - pre ! i = int n" using ii by (simp add: n_def)
  have "write_req_to_token_program other idx pre seq ext out (int w) i
      = map (\<lambda>k. (idx ! i * int w + int k + pre ! i, tl_load other out (int s + int k) True)) [0..<n]"
    using blocks_all [of 512 "\<lambda>x. (idx ! i * int w + x + pre ! i, tl_load other out (int s + x) True)" n]
    unfolding write_req_to_token_program_def Let_def cum ld n by simp
  also have "\<dots> = map (\<lambda>k. (int (nat (idx ! i) * w + nat (pre ! i) + k), out ! (s + k))) [0..<n]"
    using ii s(1) by (intro map_cong) (auto simp: tl_load_def nat_add_distrib)
  finally show "write_req_to_token_program other idx pre seq ext out (int w) i
      = map (\<lambda>k. (int (nat (idx ! i) * w + nat (pre ! i) + k), out ! (s + k))) [0..<n]" .
qed

lemma write_step:
  assumes ok: "extend_lists_ok p w idx pre seq ext out" and i: "i < length idx"
    and p: "rect w (req_to_token p')" "length (req_to_token p') = length (req_to_token p)"
  defines "t \<equiv> (req_to_token p')[nat (idx ! i) := take (nat (pre ! i)) (pool_row (idx ! i) p')
    @ slice (nat (sum_list (take i ext))) (nat (sum_list (take (Suc i) ext))) out @ drop (nat (seq ! i)) (pool_row (idx ! i) p')]"
  shows "write_row (idx ! i) (pre ! i) (seq ! i) (py_drop (sum_list (take i ext))
      (py_take (sum_list (take i ext) + ext ! i) out)) p' = Inr (p'\<lparr>req_to_token := t\<rparr>)"
    and "tl_stores (write_req_to_token_program other idx pre seq ext out (int w) i) (concat (req_to_token p')) = concat t"
    and "rect w t" "length t = length (req_to_token p)"
proof -
  define n s where "n = nat (seq ! i - pre ! i)" and "s = nat (sum_list (take i ext))"
  note prog = program_writes [OF ok i, folded n_def s_def]
  have ii: "row_ok (idx ! i) p'" "0 \<le> pre ! i" "pre ! i \<le> seq ! i" "seq ! i \<le> int w" "ext ! i = seq ! i - pre ! i"
    "length ext = length idx" using ok i p(2) by (auto simp: extend_lists_ok_def row_ok_def)
  have r: "nat (idx ! i) < length (req_to_token p')" "pool_row (idx ! i) p' = req_to_token p' ! nat (idx ! i)"
    "length (pool_row (idx ! i) p') = w"
    using ii(1) p(1) by (auto simp: row_ok_def pool_row_def nat_less_iff rect_def)
  have sn: "nat (sum_list (take (Suc i) ext)) = s + n"
    using i ii prog(2) unfolding n_def by (simp add: take_Suc_conv_app_nth nat_add_distrib)
  let ?vs = "slice s (s + n) out"
  have lv: "length ?vs = n" using prog(1) by simp
  have "py_drop (sum_list (take i ext)) (py_take (sum_list (take i ext) + ext ! i) out) = ?vs"
    using ii(2-5) unfolding prog(2) [symmetric] n_def by (simp add: py_drop_nat py_take_nat slice_def drop_take nat_add_distrib)
  moreover have "nat (pre ! i) + length ?vs = nat (seq ! i)" "nat (seq ! i) \<le> length (pool_row (idx ! i) p')"
    using ii r(3) lv by (auto simp: n_def)
  ultimately show "write_row (idx ! i) (pre ! i) (seq ! i) (py_drop (sum_list (take i ext))
      (py_take (sum_list (take i ext) + ext ! i) out)) p' = Inr (p'\<lparr>req_to_token := t\<rparr>)"
    using write_row_ok [OF ii(1), of "nat (pre ! i)" ?vs "nat (seq ! i)"] ii(2,3) unfolding t_def sn s_def [symmetric] by simp
  have a: "nat (pre ! i) + n \<le> w" "nat (seq ! i) = nat (pre ! i) + n" using ii by (auto simp: n_def)
  let ?b = "nat (idx ! i) * w + nat (pre ! i)"
  have "?b + n \<le> length (concat (req_to_token p'))"
  proof -
    have "?b + n \<le> Suc (nat (idx ! i)) * w" using a by simp
    also have "\<dots> \<le> length (req_to_token p') * w" using r(1) by (intro mult_right_mono) simp_all
    finally show ?thesis using length_concat_rect [OF p(1)] by simp
  qed
  moreover have "map (\<lambda>k. out ! (s + k)) [0..<n] = ?vs"
    using prog(1) by (auto simp: slice_def list_eq_iff_nth_eq)
  moreover have "map fst (map (\<lambda>k. (int (?b + k), out ! (s + k))) [0..<n]) = map int [?b..<?b + n]"
    by (simp add: list_eq_iff_nth_eq)
  ultimately have "tl_stores (write_req_to_token_program other idx pre seq ext out (int w) i) (concat (req_to_token p'))
      = take ?b (concat (req_to_token p')) @ ?vs @ drop (?b + n) (concat (req_to_token p'))"
    unfolding prog(3) using tl_stores_contiguous [where b = ?b and ws = "map (\<lambda>k. (int (?b + k), out ! (s + k))) [0..<n]"]
    by (simp add: o_def)
  also have "\<dots> = concat t"
    unfolding t_def sn s_def [symmetric] r(2) a(2) using concat_update_rect [OF p(1) r(1), of "nat (pre ! i)" ?vs] a lv by simp
  finally show "tl_stores (write_req_to_token_program other idx pre seq ext out (int w) i) (concat (req_to_token p')) = concat t" .
  show "rect w t" unfolding t_def sn s_def [symmetric] by (rule rect_update [OF p(1)]) (use a lv r(3) in simp)
  show "length t = length (req_to_token p)" using p(2) by (simp add: t_def)
qed

definition extended_row :: "int list \<Rightarrow> int list \<Rightarrow> int list \<Rightarrow> int list \<Rightarrow> nat \<Rightarrow> int list \<Rightarrow> int list" where
  \<comment> \<open>a row in which the locations of the new tokens of request \<open>i\<close> follow its prefix\<close>
  "extended_row pre seq ext out i row = take (nat (pre ! i)) row
     @ slice (nat (sum_list (take i ext))) (nat (sum_list (take (Suc i) ext))) out @ drop (nat (seq ! i)) row"

lemma write_extend_loop_spec:
  assumes ok: "extend_lists_ok p w idx pre seq ext out" and n: "n \<le> length idx"
  shows "\<exists>p'. write_extend_loop idx pre seq ext out p n = Inr (sum_list (take n ext), p') \<and> rect w (req_to_token p')
     \<and> length (req_to_token p') = length (req_to_token p)
     \<and> write_req_to_token_pool_triton other (concat (req_to_token p)) idx pre seq ext out (int w) n = concat (req_to_token p')
     \<and> p' = p\<lparr>req_to_token := req_to_token p'\<rparr> \<and> (\<forall>j. 0 \<le> j \<longrightarrow> j \<notin> set (take n idx) \<longrightarrow> pool_row j p' = pool_row j p)
     \<and> (distinct idx \<longrightarrow> (\<forall>i<n. pool_row (idx ! i) p' = extended_row pre seq ext out i (pool_row (idx ! i) p)))"
  using n
proof (induction n)
  case 0
  then show ?case using ok by (simp add: write_req_to_token_pool_triton_def tl_stores_def extend_lists_ok_def)
next
  case (Suc n)
  then obtain p' where p': "write_extend_loop idx pre seq ext out p n = Inr (sum_list (take n ext), p')"
    "rect w (req_to_token p')" "length (req_to_token p') = length (req_to_token p)"
    "write_req_to_token_pool_triton other (concat (req_to_token p)) idx pre seq ext out (int w) n = concat (req_to_token p')"
    "p' = p\<lparr>req_to_token := req_to_token p'\<rparr>" "\<forall>j. 0 \<le> j \<longrightarrow> j \<notin> set (take n idx) \<longrightarrow> pool_row j p' = pool_row j p"
    "distinct idx \<longrightarrow> (\<forall>i<n. pool_row (idx ! i) p' = extended_row pre seq ext out i (pool_row (idx ! i) p))" by auto
  have i: "n < length idx" using Suc.prems by simp
  note st = write_step [OF ok i p'(2,3)]
  let ?t = "(req_to_token p')[nat (idx ! n) := extended_row pre seq ext out n (pool_row (idx ! n) p')]"
  let ?p = "p'\<lparr>req_to_token := ?t\<rparr>"
  have le: "length ext = length idx" and r: "\<And>i. i < length idx \<Longrightarrow> row_ok (idx ! i) p'"
    using ok p'(3) by (auto simp: extend_lists_ok_def row_ok_def)
  have row: "pool_row j ?p = (if j = idx ! n then extended_row pre seq ext out n (pool_row (idx ! n) p') else pool_row j p')"
    if "0 \<le> j" for j
    using r [OF i] that by (auto simp: pool_row_def row_ok_def nth_list_update nat_less_iff eq_nat_nat_iff)
  have other: "pool_row j ?p = pool_row j p" if j: "0 \<le> j" "j \<notin> set (take (Suc n) idx)" for j
    using j i p'(6) row [OF j(1)] by (simp add: take_Suc_conv_app_nth)
  have mine: "pool_row (idx ! k) ?p = extended_row pre seq ext out k (pool_row (idx ! k) p)" if d: "distinct idx" "k < Suc n" for k
  proof (cases "k = n")
    case True
    have "idx ! n \<notin> set (take n idx)" using d(1) i by (auto simp: in_set_conv_nth nth_eq_iff_index_eq)
    then have "pool_row (idx ! n) p' = pool_row (idx ! n) p" using p'(6) r [OF i] by (simp add: row_ok_def)
    then show ?thesis using True row [of "idx ! n"] r [OF i] by (simp add: row_ok_def)
  next
    case False
    then have k: "k < n" "k < length idx" using d(2) i by auto
    then have "idx ! k \<noteq> idx ! n" using d(1) i False by (simp add: nth_eq_iff_index_eq)
    then show ?thesis using row [of "idx ! k"] r [OF k(2)] p'(7) d(1) k(1) by (simp add: row_ok_def)
  qed
  have "write_extend_loop idx pre seq ext out p (Suc n) = Inr (sum_list (take (Suc n) ext), ?p)"
    using p'(1) st(1) i le by (simp add: take_Suc_conv_app_nth extended_row_def)
  moreover have "write_req_to_token_pool_triton other (concat (req_to_token p)) idx pre seq ext out (int w) (Suc n) = concat ?t"
    using p'(4) st(2) by (simp add: write_req_to_token_pool_triton_def tl_stores_def extended_row_def)
  moreover have "?p = p\<lparr>req_to_token := ?t\<rparr>" using p'(5) by (metis req_to_token_pool.update_convs(3) req_to_token_pool.fold_congs(3) req_to_token_pool.surjective)
  ultimately show ?case using st(3,4) other mine unfolding extended_row_def [symmetric] by (intro exI [of _ ?p]) simp
qed

lemma get_last_loc_blocks:
  assumes "rect w t" "length idx = length pre" "\<forall>i<length pre. 0 \<le> idx ! i \<and> idx ! i < int (length t) \<and> 0 \<le> pre ! i \<and> pre ! i \<le> int w"
  shows "get_last_loc_triton other (concat t) idx pre (int w)
    = map (\<lambda>i. if pre ! i > 0 then t ! nat (idx ! i) ! nat (pre ! i - 1) else - 1) [0..<length pre]"
proof -
  let ?f = "\<lambda>x. (x, tl_load (- 1) (concat t) (tl_load 0 idx x True * int w + (tl_load 0 pre x True - 1)) (tl_load 0 pre x True > 0))"
  let ?ws = "map (\<lambda>k. ?f (int k)) [0..<length pre]"
  have ws: "concat (map (get_last_loc_kernel (concat t) idx pre (length pre) (int w) 256)
      [0..<nat (cdiv_page 256 (int (length pre)))]) = ?ws"
    using blocks_all [of 256 ?f "length pre"] unfolding get_last_loc_kernel_def [abs_def] Let_def by simp
  have "get_last_loc_triton other (concat t) idx pre (int w) = map snd ?ws"
    using tl_stores_contiguous [of ?ws 0 "replicate (length pre) other"]
    by (simp add: get_last_loc_triton_def Let_def ws o_def)
  also have "\<dots> = map (\<lambda>i. if pre ! i > 0 then t ! nat (idx ! i) ! nat (pre ! i - 1) else - 1) [0..<length pre]"
  proof -
    have "snd (?f (int i)) = (if pre ! i > 0 then t ! nat (idx ! i) ! nat (pre ! i - 1) else - 1)" if i: "i < length pre" for i
    proof (cases "pre ! i > 0")
      case True
      let ?a = "nat (idx ! i)" and ?j = "nat (pre ! i - 1)"
      have b: "?a < length t" "?j < w" "idx ! i * int w + (pre ! i - 1) = int (?a * w + ?j)" using assms(3) i True by auto
      have "?a * w + ?j < Suc ?a * w" using b(2) by simp
      also have "\<dots> \<le> length t * w" using b(1) by (intro mult_right_mono) simp_all
      finally have l: "?a * w + ?j < length (concat t)" using length_concat_rect [OF assms(1)] by simp
      have "tl_load (- 1) (concat t) (int (?a * w + ?j)) True = t ! ?a ! ?j"
        using l concat_nth_rect [OF assms(1) b(1,2)] unfolding tl_load_def by (simp only: of_nat_less_iff nat_int of_nat_0_le_iff simp_thms if_True)
      then show ?thesis using True i assms(2) unfolding b(3) [symmetric] by (simp add: tl_load_def [of 0])
    next
      case False
      then show ?thesis using i by (simp add: tl_load_def)
    qed
    then show ?thesis by simp
  qed
  finally show ?thesis .
qed

lemma gather_cells_map:
  assumes "length js = length is"
    "\<forall>k<length is. 0 \<le> is ! k \<and> is ! k < int (length t) \<and> py_index (length (t ! nat (is ! k))) (js ! k) \<noteq> None"
  shows "gather_cells t is js = Inr (map (\<lambda>k. t ! nat (is ! k) ! the (py_index (length (t ! nat (is ! k))) (js ! k))) [0..<length is])"
  using assms
proof (induction t "is" js rule: gather_cells.induct)
  case (1 t i "is" j js)
  have "0 \<le> i" "i < int (length t)" and j: "py_index (length (t ! nat i)) j \<noteq> None" using "1.prems"(2) by (auto dest: spec [of _ 0])
  then have i: "py_get t i = Inr (t ! nat i)" by (simp add: py_get_def py_index_def)
  obtain y where y: "py_index (length (t ! nat i)) j = Some y" "py_get (t ! nat i) j = Inr (t ! nat i ! y)"
    using j by (auto simp: py_get_def)
  have "\<forall>k<length is. 0 \<le> is ! k \<and> is ! k < int (length t) \<and> py_index (length (t ! nat (is ! k))) (js ! k) \<noteq> None"
    using "1.prems"(2) by (auto dest: spec [of _ "Suc _"])
  from "1.IH" [OF _ this] "1.prems"(1) show ?case by (simp add: i y map_upt_Suc del: upt_Suc)
qed auto

lemma get_last_loc_same:
  assumes "rect w t" "0 < w" "length idx = length pre"
    "\<forall>i<length pre. 0 \<le> idx ! i \<and> idx ! i < int (length t) \<and> 0 \<le> pre ! i \<and> pre ! i \<le> int w"
  shows "get_last_loc_torch t idx pre = Inr (get_last_loc_triton other (concat t) idx pre (int w))"
proof -
  let ?js = "map (\<lambda>l. l - 1) pre"
  have j: "py_index (length (t ! nat (idx ! k))) (?js ! k) = Some (if pre ! k > 0 then nat (pre ! k - 1) else w - 1)"
    if "k < length idx" for k
  proof -
    have "nat (idx ! k) < length t" "0 \<le> pre ! k" "pre ! k \<le> int w" using that assms(3,4) by auto
    then have "length (t ! nat (idx ! k)) = w" using assms(1) by (simp add: rect_def)
    then show ?thesis using that assms(2,3) \<open>0 \<le> pre ! k\<close> \<open>pre ! k \<le> int w\<close> by (auto simp: py_index_def)
  qed
  have g: "gather_cells t idx ?js = Inr (map (\<lambda>k. t ! nat (idx ! k) ! (if pre ! k > 0 then nat (pre ! k - 1) else w - 1)) [0..<length idx])"
  proof -
    have l: "length ?js = length idx" by (simp add: assms(3))
    have "\<forall>k<length idx. 0 \<le> idx ! k \<and> idx ! k < int (length t) \<and> py_index (length (t ! nat (idx ! k))) (?js ! k) \<noteq> None"
    proof (intro allI impI conjI)
      fix k assume k: "k < length idx"
      then show "0 \<le> idx ! k" "idx ! k < int (length t)" using assms(3,4) by auto
      show "py_index (length (t ! nat (idx ! k))) (?js ! k) \<noteq> None" unfolding j [OF k] by simp
    qed
    note e = gather_cells_map [OF l this]
    show ?thesis unfolding e by (rule arg_cong [of _ _ Inr], rule map_cong [OF refl]) (simp only: j set_upt atLeastLessThan_iff option.sel)
  qed
  show ?thesis
    unfolding get_last_loc_torch_def g get_last_loc_blocks [OF assms(1,3,4)] assms(3) res_bind_simps
    by (rule arg_cong [of _ _ Inr], rule nth_equalityI) simp_all
qed

lemma get_last_loc_cells:
  assumes "rect w t" "0 < w" "length idx = length pre"
    "\<forall>i<length pre. 0 \<le> idx ! i \<and> idx ! i < int (length t) \<and> 0 \<le> pre ! i \<and> pre ! i \<le> int w"
  shows "get_last_loc backend other t (int w) idx pre
    = Inr (map (\<lambda>i. if pre ! i > 0 then t ! nat (idx ! i) ! nat (pre ! i - 1) else - 1) [0..<length pre])"
  using get_last_loc_same [OF assms, of other] get_last_loc_blocks [OF assms(1,3,4), of other] by (simp add: get_last_loc_def)

section \<open>Properties\<close>

text \<open>
  C31: the kernel that writes the locations of the new tokens of a batch into the table writes
  exactly what the torch loop writes. It processes the tokens of each request in blocks of 512
  lanes and finds the start of a request in the location tensor by a running sum; for a rectangular
  table, rows and lengths within the table and one location per new token, both end with the
  same table, and the loop raises nothing.
\<close>

theorem write_kernel_is_loop:
  assumes "extend_lists_ok p w idx pre seq ext out"
  shows "\<exists>p'. write_extend_loop idx pre seq ext out p (length idx) = Inr (sum_list ext, p')
     \<and> write_req_to_token_pool_triton other (concat (req_to_token p)) idx pre seq ext out (int w) (length idx)
       = concat (req_to_token p')"
  using write_extend_loop_spec [OF assms order_refl, where other = other] assms by (auto simp: extend_lists_ok_def)

theorem write_kernel_is_loop_witness:
  "write_req_to_token_pool_triton 0 (concat (req_to_token (init_req_pool 2 4))) [1, 0] [1, 0] [3, 2] [2, 2] [7, 8, 9, 10] 4 2
     = [9, 10, 0, 0, 0, 7, 8, 0]"
proof -
  have "extend_lists_ok (init_req_pool 2 4) 4 [1, 0] [1, 0] [3, 2] [2, 2] [7, 8, 9, 10]"
    by (auto simp: extend_lists_ok_def rect_def init_req_pool_def row_ok_def less_Suc_eq nth_Cons')
  from write_kernel_is_loop [OF this, of 0]
  obtain p' where "write_extend_loop [1, 0] [1, 0] [3, 2] [2, 2] [7, 8, 9, 10] (init_req_pool 2 4) 2 = Inr (4, p')"
    "write_req_to_token_pool_triton 0 (concat (req_to_token (init_req_pool 2 4))) [1, 0] [1, 0] [3, 2] [2, 2] [7, 8, 9, 10] 4 2
       = concat (req_to_token p')" by (auto simp: numeral_2_eq_2 simp del: write_extend_loop.simps)
  moreover have "write_extend_loop [1, 0] [1, 0] [3, 2] [2, 2] [7, 8, 9, 10] (init_req_pool 2 4) 2
      = Inr (4, (init_req_pool 2 4)\<lparr>req_to_token := [[9, 10, 0, 0], [0, 7, 8, 0]]\<rparr>)" by code_simp
  ultimately show ?thesis by auto
qed

text \<open>
  C32: the kernel that looks up the location of the last cached token of each request returns what
  the torch code returns, and \<open>- 1\<close> for a request without cached tokens, for which the torch
  code reads the last cell of the row and discards it.
\<close>

theorem get_last_loc_equiv:
  assumes "rect w t" "0 < w" "length idx = length pre"
    "\<forall>i<length pre. 0 \<le> idx ! i \<and> idx ! i < int (length t) \<and> 0 \<le> pre ! i \<and> pre ! i \<le> int w"
  shows "get_last_loc_torch t idx pre = Inr (get_last_loc_triton other (concat t) idx pre (int w))"
  by (rule get_last_loc_same [OF assms])

theorem get_last_loc_equiv_witness:
  "get_last_loc_torch [[5, 6], [7, 8]] [1, 0] [2, 0] = Inr [8, - 1]
   \<and> get_last_loc_torch [[5, 6], [7, 8]] [1, 0] [2, 0] = Inr (get_last_loc_triton 0 (concat [[5, 6], [7, 8]]) [1, 0] [2, 0] 2)"
proof -
  have "rect 2 [[5, 6], [7, 8 :: int]]" by (simp add: rect_def)
  moreover have "\<forall>i<length [2, 0 :: int]. 0 \<le> [1, 0 :: int] ! i \<and> [1, 0 :: int] ! i < int (length [[5, 6], [7, 8 :: int]])
      \<and> 0 \<le> [2, 0 :: int] ! i \<and> [2, 0 :: int] ! i \<le> int 2" by code_simp
  ultimately have "get_last_loc_torch [[5, 6], [7, 8]] [1, 0] [2, 0] = Inr (get_last_loc_triton 0 (concat [[5, 6], [7, 8]]) [1, 0] [2, 0] (int 2))"
    by (intro get_last_loc_equiv) simp_all
  moreover have "get_last_loc_torch [[5, 6], [7, 8]] [1, 0] [2, 0] = Inr [8, - 1]" by code_simp
  ultimately show ?thesis by simp
qed

end
