(* ===== verification/Schedule_Batch.thy ===== *)
theory Schedule_Batch
  imports Request_Cache Batch_Kernels "HOL-Library.Product_Lexorder"
begin

text \<open>
  The batch of the scheduler (class \<open>ScheduleBatch\<close> of \<^verbatim>\<open>managers/schedule_batch.py\<close>) over the memory it
  allocates from: the pool of request rows, one of the two KV allocators and a radix or chunk cache. Modelled
  for decoder-only models without speculative decoding, sliding-window memory or disaggregation; sampling
  info, multimodal inputs, embeddings and the requested logprob token ids only travel along and are not
  represented. An operation that raises returns \<open>None\<close>. \<open>other\<close> is the content of
  fresh device memory.
\<close>

section \<open>Memory\<close>

datatype kv_alloc = TokAlloc kv_allocator | PagedAlloc paged_allocator

datatype tree_cache = RadixTree radix_cache | ChunkTree chunk_cache

record kv_mem =
  mem_pool :: req_to_token_pool
  mem_alloc :: kv_alloc
  mem_tree :: tree_cache

fun kv_page_size :: "kv_alloc \<Rightarrow> nat" where
  "kv_page_size (TokAlloc a) = al_page_size a"
| "kv_page_size (PagedAlloc a) = al_page_size a"

fun kv_available_size :: "kv_alloc \<Rightarrow> nat" where
  "kv_available_size (TokAlloc a) = tok_available_size a"
| "kv_available_size (PagedAlloc a) = available_size a"

fun kv_free :: "int list \<Rightarrow> kv_alloc \<Rightarrow> kv_alloc res" where
  "kv_free xs (TokAlloc a) = Inr (TokAlloc (tok_free xs a))"
| "kv_free xs (PagedAlloc a) = res_bind (paged_free xs a) (\<lambda>a'. Inr (PagedAlloc a'))"

fun kv_alloc_tokens :: "nat \<Rightarrow> kv_alloc \<Rightarrow> (int list option \<times> kv_alloc) res" where
  "kv_alloc_tokens n (TokAlloc a) = Inr (map_prod id TokAlloc (tok_alloc n a))"
| "kv_alloc_tokens n (PagedAlloc a) = res_bind (paged_alloc n a) (\<lambda>r. Inr (map_prod id PagedAlloc r))"

fun kv_alloc_extend :: "int \<Rightarrow> int list \<Rightarrow> int list \<Rightarrow> int list \<Rightarrow> nat \<Rightarrow> kv_alloc \<Rightarrow> (int list option \<times> kv_alloc) res" where
  "kv_alloc_extend other pre seq lst n (TokAlloc a) = Inl NotImplementedError"
| "kv_alloc_extend other pre seq lst n (PagedAlloc a) =
     res_bind (paged_alloc_extend other pre seq lst n a) (\<lambda>r. Inr (map_prod id PagedAlloc r))"

fun kv_alloc_decode :: "int \<Rightarrow> int list \<Rightarrow> int list \<Rightarrow> kv_alloc \<Rightarrow> (int list option \<times> kv_alloc) res" where
  "kv_alloc_decode other seq lst (TokAlloc a) = Inl NotImplementedError"
| "kv_alloc_decode other seq lst (PagedAlloc a) =
     res_bind (paged_alloc_decode other seq lst a) (\<lambda>r. Inr (map_prod id PagedAlloc r))"

definition evict_tree_cache_if_needed :: "int \<Rightarrow> kv_mem \<Rightarrow> kv_mem option" where
  "evict_tree_cache_if_needed num_tokens m =
     (case mem_tree m of
        ChunkTree _ \<Rightarrow> Some m
      | RadixTree c \<Rightarrow>
          if int (kv_available_size (mem_alloc m)) < num_tokens
          then map_option (\<lambda>(c', a'). m\<lparr>mem_tree := RadixTree c', mem_alloc := a'\<rparr>)
                 (evict kv_free num_tokens c (mem_alloc m))
          else Some m)"

definition is_available_size_sufficient :: "int \<Rightarrow> kv_mem \<Rightarrow> bool" where
  "is_available_size_sufficient num_tokens m = (int (kv_available_size (mem_alloc m)) \<ge> num_tokens)"

definition allocated :: "kv_mem \<Rightarrow> (int list option \<times> kv_alloc) res \<Rightarrow> (int list \<times> kv_mem) option" where
  \<comment> \<open>the locations, or the out-of-memory error\<close>
  "allocated m r = (case r of Inr (Some loc, a) \<Rightarrow> Some (loc, m\<lparr>mem_alloc := a\<rparr>) | _ \<Rightarrow> None)"

definition alloc_token_slots :: "nat \<Rightarrow> kv_mem \<Rightarrow> (int list \<times> kv_mem) option" where
  "alloc_token_slots num_tokens m = do {
     m1 \<leftarrow> evict_tree_cache_if_needed (int num_tokens) m;
     allocated m1 (kv_alloc_tokens num_tokens (mem_alloc m1))
   }"

definition alloc_paged_token_slots_extend ::
  "int \<Rightarrow> int list \<Rightarrow> int list \<Rightarrow> int list \<Rightarrow> nat \<Rightarrow> kv_mem \<Rightarrow> (int list \<times> kv_mem) option" where
  "alloc_paged_token_slots_extend other pre seq lst extend_num m = do {
     let num_tokens = extend_num + length seq * kv_page_size (mem_alloc m);
     m1 \<leftarrow> evict_tree_cache_if_needed (int num_tokens) m;
     allocated m1 (kv_alloc_extend other pre seq lst extend_num (mem_alloc m1))
   }"

definition alloc_paged_token_slots_decode :: "int \<Rightarrow> int list \<Rightarrow> int list \<Rightarrow> kv_mem \<Rightarrow> (int list \<times> kv_mem) option" where
  "alloc_paged_token_slots_decode other seq lst m = do {
     let num_tokens = length seq * kv_page_size (mem_alloc m);
     m1 \<leftarrow> evict_tree_cache_if_needed (int num_tokens) m;
     allocated m1 (kv_alloc_decode other seq lst (mem_alloc m1))
   }"

definition alloc_req_slots :: "nat \<Rightarrow> kv_mem \<Rightarrow> (int list \<times> kv_mem) option" where
  "alloc_req_slots num_reqs m =
     (case alloc_rows num_reqs (mem_pool m) of
        (None, _) \<Rightarrow> None
      | (Some idx, p) \<Rightarrow> Some (idx, m\<lparr>mem_pool := p\<rparr>))"

section \<open>ScheduleBatch\<close>

datatype forward_mode = EXTEND | DECODE | MIXED | IDLE | TARGET_VERIFY | DRAFT_EXTEND | DUMMY_FIRST | SPLIT_PREFILL

record schedule_batch =
  reqs :: "req list"
  forward_mode :: "forward_mode option"
  enable_overlap :: bool
  input_ids :: "int list option"
  req_pool_indices :: "int list"
  seq_lens :: "int list"
  orig_seq_lens :: "int list"
  out_cache_loc :: "int list option"
  batch_output_ids :: "int list option"
  seq_lens_sum :: int
  batch_return_logprob :: bool
  top_logprobs_nums :: "int list option"
  prefix_lens :: "int list"
  extend_lens :: "int list"
  extend_num_tokens :: int
  extend_logprob_start_lens :: "int list"
  extend_input_logprob_token_ids :: "int list option"
  has_stream :: bool
  has_grammar :: bool
  is_prefill_only :: bool
  batch_is_full :: bool
  batch_chunked_req :: "text option"
  decoding_reqs :: "req list option"

definition init_new :: "req list \<Rightarrow> bool \<Rightarrow> schedule_batch" where
  "init_new rs overlap =
     \<lparr>reqs = rs, forward_mode = None, enable_overlap = overlap, input_ids = None, req_pool_indices = [],
      seq_lens = [], orig_seq_lens = [], out_cache_loc = None, batch_output_ids = None, seq_lens_sum = 0,
      batch_return_logprob = list_ex return_logprob rs, top_logprobs_nums = None, prefix_lens = [],
      extend_lens = [], extend_num_tokens = 0, extend_logprob_start_lens = [],
      extend_input_logprob_token_ids = None, has_stream = list_ex stream rs,
      has_grammar = list_ex (\<lambda>r. grammar r \<noteq> None) rs,
      is_prefill_only = list_all (\<lambda>r. max_new_tokens (req_sampling_params r) = Some 0) rs,
      batch_is_full = False, batch_chunked_req = None, decoding_reqs = None\<rparr>"

definition batch_size :: "schedule_batch \<Rightarrow> nat" where
  "batch_size b = length (reqs b)"

definition is_empty :: "schedule_batch \<Rightarrow> bool" where
  "is_empty b = (length (reqs b) = 0)"

definition support_triton :: "text \<Rightarrow> bool" where
  "support_triton backend = (backend \<notin> set [str ''torch_native'', str ''intel_amx'', str ''ascend''])"

definition logprob_tokens :: "req \<Rightarrow> int list" where
  \<comment> \<open>the padded input tokens whose log probabilities an extend computes\<close>
  "logprob_tokens r =
     (let global_start_idx = max (int (length (prefix_indices r))) (logprob_start_len r);
          ids = py_drop (global_start_idx + 1) (py_take (int (length (fill_ids r)) + 1) (origin_input_ids r))
      in ids @ replicate (nat (extend_input_len r - extend_logprob_start_len r - int (length ids))) 0)"

definition extend_req :: "int \<Rightarrow> req \<Rightarrow> req" where
  \<comment> \<open>what preparing an extend changes in a request\<close>
  "extend_req i r =
     (let seq_len = int (length (fill_ids r)); pre_len = int (length (prefix_indices r))
      in r\<lparr>req_pool_idx := Some i, cached_tokens := cached_tokens r + (pre_len - already_computed r),
           already_computed := seq_len, is_retracted := False,
           extend_logprob_start_len :=
             (if logprob_start_len r \<ge> pre_len
              then min (logprob_start_len r - pre_len) (min (extend_input_len r) (int (seqlen r) - 1)) else 0)\<rparr>)"

fun extend_reqs :: "int list \<Rightarrow> req list \<Rightarrow> req_to_token_pool \<Rightarrow> (req list \<times> req_to_token_pool) option" where
  \<comment> \<open>the loop that gives each request its row and copies its prefix there\<close>
  "extend_reqs (i # is) (r # rs) p = do {
     let pre_len = length (prefix_indices r);
     (if int (length (fill_ids r)) - int pre_len = extend_input_len r then Some () else None);
     p1 \<leftarrow> (if pre_len > 0 then res_option (write_row i 0 (int pre_len) (prefix_indices r) p) else Some p);
     (rs', p2) \<leftarrow> extend_reqs is rs p1;
     Some (extend_req i r # rs', p2)
   }"
| "extend_reqs _ _ p = Some ([], p)"

definition unflatten :: "nat \<Rightarrow> nat \<Rightarrow> 'a list \<Rightarrow> 'a list list" where
  "unflatten n w xs = map (\<lambda>i. take w (drop (i * w) xs)) [0..<n]"

definition write_extend ::
  "text \<Rightarrow> int \<Rightarrow> int list \<Rightarrow> int list \<Rightarrow> int list \<Rightarrow> int list \<Rightarrow> int list \<Rightarrow> req_to_token_pool \<Rightarrow> req_to_token_pool option" where
  "write_extend backend other idx pre seq ext out p =
     (if support_triton backend
      then Some (p\<lparr>req_to_token := unflatten (length (req_to_token p)) (max_context_len p)
             (write_req_to_token_pool_triton other (concat (req_to_token p)) idx pre seq (map2 (-) seq pre) out
                (int (max_context_len p)) (length idx))\<rparr>)
      else map_option snd (res_option (write_extend_loop idx pre seq ext out p (length idx))))"

definition prepare_for_extend :: "text \<Rightarrow> int \<Rightarrow> schedule_batch \<Rightarrow> kv_mem \<Rightarrow> (schedule_batch \<times> kv_mem) option" where
  "prepare_for_extend backend other b m = do {
     (idx, m1) \<leftarrow> alloc_req_slots (length (reqs b)) m;
     let ids = map (\<lambda>r. drop (length (prefix_indices r)) (fill_ids r)) (reqs b);
     let extend_num = sum_list (map length ids);
     let seq = map (\<lambda>r. int (length (fill_ids r))) (reqs b);
     let orig = map (\<lambda>r. int (max (length (fill_ids r)) (length (origin_input_ids r)))) (reqs b);
     let pre = map (\<lambda>r. int (length (prefix_indices r))) (reqs b);
     let ext = map extend_input_len (reqs b);
     (rs, p) \<leftarrow> extend_reqs idx (reqs b) (mem_pool m1);
     let m2 = m1\<lparr>mem_pool := p\<rparr>;
     (out, m3) \<leftarrow> (if kv_page_size (mem_alloc m2) = 1 then alloc_token_slots extend_num m2
        else do {
          lst \<leftarrow> res_option (get_last_loc backend other (req_to_token p) (int (max_context_len p)) idx pre);
          alloc_paged_token_slots_extend other pre seq lst extend_num m2
        });
     p' \<leftarrow> write_extend backend other idx pre seq ext out (mem_pool m3);
     Some (b\<lparr>reqs := rs, forward_mode := Some EXTEND, input_ids := Some (concat ids), req_pool_indices := idx,
             seq_lens := seq, orig_seq_lens := orig, out_cache_loc := Some out, seq_lens_sum := sum_list seq,
             top_logprobs_nums := (if batch_return_logprob b then Some (map top_logprobs_num rs) else top_logprobs_nums b),
             extend_logprob_start_lens := map extend_logprob_start_len rs, extend_num_tokens := int extend_num,
             prefix_lens := pre, extend_lens := ext,
             extend_input_logprob_token_ids :=
               (if batch_return_logprob b then Some (concat (map logprob_tokens rs)) else None)\<rparr>,
           m3\<lparr>mem_pool := p'\<rparr>)
   }"

definition prepare_for_split_prefill :: "text \<Rightarrow> int \<Rightarrow> schedule_batch \<Rightarrow> kv_mem \<Rightarrow> (schedule_batch \<times> kv_mem) option" where
  "prepare_for_split_prefill backend other b m =
     map_option (\<lambda>(b', m'). (b'\<lparr>forward_mode := Some SPLIT_PREFILL\<rparr>, m')) (prepare_for_extend backend other b m)"

definition merge_logprobs :: "schedule_batch \<Rightarrow> schedule_batch \<Rightarrow> int list option option" where
  \<comment> \<open>\<open>top_logprobs_nums\<close> of a merged batch; the outer \<open>None\<close> when the code raises\<close>
  "merge_logprobs b other =
     (if batch_return_logprob b \<and> batch_return_logprob other then
        (case (top_logprobs_nums b, top_logprobs_nums other) of (Some xs, Some ys) \<Rightarrow> Some (Some (xs @ ys)) | _ \<Rightarrow> None)
      else if batch_return_logprob b then
        (case top_logprobs_nums b of Some xs \<Rightarrow> Some (Some (xs @ replicate (length (reqs other)) 0)) | None \<Rightarrow> None)
      else if batch_return_logprob other then
        (case top_logprobs_nums other of Some ys \<Rightarrow> Some (Some (replicate (length (reqs b)) 0 @ ys)) | None \<Rightarrow> None)
      else Some (top_logprobs_nums b))"

definition merge_batch :: "schedule_batch \<Rightarrow> schedule_batch \<Rightarrow> schedule_batch option" where
  "merge_batch b other = do {
     out_ids \<leftarrow> (case batch_output_ids b of
        None \<Rightarrow> Some None
      | Some xs \<Rightarrow> map_option (\<lambda>ys. Some (xs @ ys)) (batch_output_ids other));
     top \<leftarrow> merge_logprobs b other;
     Some (b\<lparr>req_pool_indices := req_pool_indices b @ req_pool_indices other,
             seq_lens := seq_lens b @ seq_lens other, orig_seq_lens := orig_seq_lens b @ orig_seq_lens other,
             out_cache_loc := None, seq_lens_sum := seq_lens_sum b + seq_lens_sum other,
             batch_output_ids := out_ids, top_logprobs_nums := top, reqs := reqs b @ reqs other,
             batch_return_logprob := (batch_return_logprob b \<or> batch_return_logprob other),
             has_stream := (has_stream b \<or> has_stream other), has_grammar := (has_grammar b \<or> has_grammar other)\<rparr>)
   }"

definition mix_with_running :: "schedule_batch \<Rightarrow> schedule_batch \<Rightarrow> schedule_batch option" where
  "mix_with_running b running = do {
     let running1 = running\<lparr>reqs := map (\<lambda>r. r\<lparr>fill_ids := origin_input_ids r @ output_ids r, extend_input_len := 1\<rparr>) (reqs running)\<rparr>;
     i1 \<leftarrow> input_ids b;
     i2 \<leftarrow> input_ids running;
     o1 \<leftarrow> out_cache_loc b;
     o2 \<leftarrow> out_cache_loc running;
     b1 \<leftarrow> merge_batch (b\<lparr>forward_mode := Some MIXED\<rparr>) running1;
     let delta = (if enable_overlap b then 0 else - 1);
     let bs = batch_size running;
     Some (b1\<lparr>input_ids := Some (i1 @ i2), out_cache_loc := Some (o1 @ o2),
              prefix_lens := prefix_lens b @ map (\<lambda>r. int (length (origin_input_ids r) + length (output_ids r)) + delta) (reqs running1),
              extend_lens := extend_lens b @ replicate bs 1, extend_num_tokens := extend_num_tokens b + int bs,
              extend_logprob_start_lens := extend_logprob_start_lens b @ replicate bs 0\<rparr>)
   }"

definition keep_unfinished :: "text list \<Rightarrow> schedule_batch \<Rightarrow> int list" where
  \<comment> \<open>the default of \<open>keep_indices\<close>; requests are identified by their \<open>rid\<close>\<close>
  "keep_unfinished excluded b =
     map int (filter (\<lambda>i. \<not> finished (reqs b ! i) \<and> rid (reqs b ! i) \<notin> set excluded) [0..<length (reqs b)])"

definition filter_batch :: "text list \<Rightarrow> int list option \<Rightarrow> schedule_batch \<Rightarrow> schedule_batch option" where
  "filter_batch chunked_req_to_exclude keep_indices b =
     (let keep = (case keep_indices of None \<Rightarrow> keep_unfinished chunked_req_to_exclude b | Some ks \<Rightarrow> ks) in
      if keep = [] then Some (b\<lparr>reqs := []\<rparr>)
      else if length keep = length (reqs b) then Some b
      else do {
        rs \<leftarrow> res_option (gather_idx (reqs b) keep);
        idx \<leftarrow> res_option (gather_idx (req_pool_indices b) keep);
        sl \<leftarrow> res_option (gather_idx (seq_lens b) keep);
        osl \<leftarrow> res_option (gather_idx (orig_seq_lens b) keep);
        outs \<leftarrow> batch_output_ids b;
        out_ids \<leftarrow> res_option (gather_idx outs keep);
        let ret = list_ex return_logprob rs;
        top \<leftarrow> (if ret then do { nums \<leftarrow> top_logprobs_nums b; kept \<leftarrow> res_option (gather_idx nums keep); Some (Some kept) }
               else Some None);
        Some (b\<lparr>reqs := rs, req_pool_indices := idx, seq_lens := sl, orig_seq_lens := osl, out_cache_loc := None,
                seq_lens_sum := sum_list sl, batch_output_ids := Some out_ids, batch_return_logprob := ret,
                top_logprobs_nums := top, has_stream := list_ex stream rs,
                has_grammar := list_ex (\<lambda>r. grammar r \<noteq> None) rs\<rparr>)
      })"

definition new_page_count_next_decode :: "schedule_batch \<Rightarrow> kv_mem \<Rightarrow> nat" where
  "new_page_count_next_decode b m =
     (let ps = int (kv_page_size (mem_alloc m)) in
      if ps = 1 then length (reqs b)
      else if enable_overlap b then length (filter (\<lambda>r. int (seqlen r) mod ps = 0) (reqs b))
      else length (filter (\<lambda>r. (int (seqlen r) - 1) mod ps = 0) (reqs b)))"

definition check_decode_mem :: "nat \<Rightarrow> schedule_batch \<Rightarrow> kv_mem \<Rightarrow> (bool \<times> kv_mem) option" where
  "check_decode_mem buf_multiplier b m = do {
     let num_tokens = int (new_page_count_next_decode b m * buf_multiplier * kv_page_size (mem_alloc m));
     m1 \<leftarrow> evict_tree_cache_if_needed num_tokens m;
     Some (is_available_size_sufficient num_tokens m1, m1)
   }"

definition prepare_for_idle :: "schedule_batch \<Rightarrow> schedule_batch" where
  "prepare_for_idle b = b\<lparr>forward_mode := Some IDLE, input_ids := Some [], seq_lens := [], orig_seq_lens := [],
     out_cache_loc := Some [], req_pool_indices := [], seq_lens_sum := 0, extend_num_tokens := 0\<rparr>"

definition prepare_for_decode :: "int \<Rightarrow> schedule_batch \<Rightarrow> kv_mem \<Rightarrow> (schedule_batch \<times> kv_mem) option" where
  "prepare_for_decode other b m = do {
     let locs = seq_lens b;
     let sl = map (\<lambda>s. s + 1) (seq_lens b);
     let b1 = b\<lparr>forward_mode := Some DECODE, input_ids := batch_output_ids b, batch_output_ids := None, seq_lens := sl,
                orig_seq_lens := map (\<lambda>s. s + 1) (orig_seq_lens b), seq_lens_sum := seq_lens_sum b + int (length (reqs b))\<rparr>;
     (out, m1) \<leftarrow> (if kv_page_size (mem_alloc m) = 1 then alloc_token_slots (length (reqs b)) m
        else do {
          lst \<leftarrow> res_option (gather_cells (req_to_token (mem_pool m)) (req_pool_indices b) (map (\<lambda>s. s - 2) sl));
          alloc_paged_token_slots_decode other sl lst m
        });
     p \<leftarrow> res_option (write_cells (req_pool_indices b) locs out (mem_pool m1));
     Some (b1\<lparr>out_cache_loc := Some out\<rparr>, m1\<lparr>mem_pool := p\<rparr>)
   }"

section \<open>Retraction\<close>

definition retract_decode_steps :: int where
  "retract_decode_steps = 20"

record retract_args =
  speculative_algorithm :: bool
  speculative_eagle_topk :: int
  speculative_num_steps :: int
  speculative_num_draft_tokens :: int
  server_page_size :: nat

definition retract_order :: "bool \<Rightarrow> req list \<Rightarrow> nat list" where
  \<comment> \<open>\<open>sorted_indices\<close>: a stable sort, most output first, then shortest input\<close>
  "retract_order spec rs =
     (if spec then [0..<length rs]
      else sort_key (\<lambda>i. (- int (length (output_ids (rs ! i))), int (length (origin_input_ids (rs ! i))))) [0..<length rs])"

definition get_required_tokens :: "retract_args \<Rightarrow> int \<Rightarrow> int" where
  "get_required_tokens sa num_reqs =
     num_reqs * retract_decode_steps
     + (if speculative_algorithm sa
        then num_reqs * speculative_eagle_topk sa * speculative_num_steps sa + num_reqs * speculative_num_draft_tokens sa
        else 0)"

definition retract_req :: "retract_args \<Rightarrow> int \<Rightarrow> nat \<Rightarrow> req \<Rightarrow> kv_mem \<Rightarrow> kv_mem option" where
  \<comment> \<open>releases the memory of one request; \<open>left\<close> requests remain\<close>
  "retract_req sa seq_len left r m =
     (case mem_tree m of
        ChunkTree _ \<Rightarrow> do {
          i \<leftarrow> req_pool_idx r;
          token_indices \<leftarrow> res_option (read_row i seq_len (mem_pool m));
          a \<leftarrow> res_option (kv_free token_indices (mem_alloc m));
          Some (m\<lparr>mem_alloc := a, mem_pool := free_row i (mem_pool m)\<rparr>)
        }
      | RadixTree c \<Rightarrow> do {
          let last_uncached_pos = length (prefix_indices r) div server_page_size sa * server_page_size sa;
          i \<leftarrow> req_pool_idx r;
          row \<leftarrow> res_option (read_row i seq_len (mem_pool m));
          a \<leftarrow> res_option (kv_free (drop last_uncached_pos row) (mem_alloc m));
          n \<leftarrow> last_node r;
          (_, c') \<leftarrow> dec_lock_ref n c;
          evict_tree_cache_if_needed (int left * retract_decode_steps)
            (m\<lparr>mem_alloc := a, mem_pool := free_row i (mem_pool m), mem_tree := RadixTree c'\<rparr>)
        })"

fun retract_loop ::
  "retract_args \<Rightarrow> req list \<Rightarrow> int list \<Rightarrow> bool \<Rightarrow> nat list \<Rightarrow> req list \<Rightarrow> kv_mem \<Rightarrow> (nat list \<times> req list \<times> kv_mem) option" where
  \<comment> \<open>\<open>stack\<close> is \<open>sorted_indices\<close> from its end, where requests are taken\<close>
  "retract_loop sa rs sl first_iter [] retracted m =
     (if int (kv_available_size (mem_alloc m)) < get_required_tokens sa 0 \<or> first_iter then None
      else Some ([], retracted, m))"
| "retract_loop sa rs sl first_iter [idx] retracted m =
     (if int (kv_available_size (mem_alloc m)) < get_required_tokens sa 1 \<or> first_iter
      then (if kv_available_size (mem_alloc m) > 0 then Some ([idx], retracted, m) else None)
      else Some ([idx], retracted, m))"
| "retract_loop sa rs sl first_iter (idx # idx' # rest) retracted m =
     (if int (kv_available_size (mem_alloc m)) < get_required_tokens sa (int (length rest) + 2) \<or> first_iter
      then (case retract_req sa (sl ! idx) (Suc (length rest)) (rs ! idx) m of
              None \<Rightarrow> None
            | Some m' \<Rightarrow> retract_loop sa rs sl False (idx' # rest) (retracted @ [reset_for_retract (rs ! idx)]) m')
      else Some (idx # idx' # rest, retracted, m))"

definition new_estimate_ratio :: "req list \<Rightarrow> rat option" where
  \<comment> \<open>up to the rounding of the division\<close>
  "new_estimate_ratio rs =
     (let decoded = sum_list (map (\<lambda>r. int (length (output_ids r))) rs);
          limits = map (\<lambda>r. max_new_tokens (req_sampling_params r)) rs
      in if None \<in> set limits \<or> sum_list (map the limits) = 0 then None
         else Some (min 1 (of_int (decoded + retract_decode_steps * int (length rs)) / of_int (sum_list (map the limits)))))"

definition retract_decode ::
  "retract_args \<Rightarrow> schedule_batch \<Rightarrow> kv_mem \<Rightarrow> (req list \<times> rat \<times> schedule_batch \<times> kv_mem) option" where
  "retract_decode sa b m = do {
     let order = retract_order (speculative_algorithm sa) (reqs b);
     (stack, retracted, m1) \<leftarrow> retract_loop sa (reqs b) (seq_lens b) True (rev order) [] m;
     b1 \<leftarrow> filter_batch [] (Some (map int (rev stack))) b;
     ratio \<leftarrow> new_estimate_ratio (reqs b1);
     Some (retracted, ratio, b1, m1)
   }"

end
