(* ===== verification/Batch_Correct.thy ===== *)
theory Batch_Correct
  imports Schedule_Batch
begin

text \<open>
  What the operations of a batch guarantee: the two KV allocators behind one contract, the lists of a
  batch stay aligned with its requests, allocation for extend and decode steps (with the table of
  token locations), and retraction.
\<close>

section \<open>The two allocators keep one contract\<close>

fun kv_pool :: "kv_alloc \<Rightarrow> int multiset" where
  "kv_pool (TokAlloc a) = pool_pages a"
| "kv_pool (PagedAlloc a) = paged_pool (al_page_size a) a"

fun kv_ok :: "nat option \<Rightarrow> kv_alloc \<Rightarrow> bool" where
  \<comment> \<open>for the token allocator, or for the paged allocator of a page size\<close>
  "kv_ok None (TokAlloc a) = (tok_ok a \<and> al_page_size a = 1)"
| "kv_ok (Some ps) (PagedAlloc a) = paged_ok ps a"
| "kv_ok _ _ = False"

fun kv_whole :: "nat option \<Rightarrow> int list \<Rightarrow> bool" where
  "kv_whole None xs = True"
| "kv_whole (Some ps) xs = whole_pages ps xs"

lemma tok_page_size: "al_page_size (tok_free xs a) = al_page_size a" "al_page_size (snd (tok_alloc n a)) = al_page_size a"
  by (simp_all add: tok_free_def tok_alloc_def Let_def)

lemma paged_ok_page_size: "paged_ok ps a \<Longrightarrow> al_page_size a = ps"
  by (simp add: paged_ok_def)

interpretation kv: slot_allocator kv_alloc_tokens kv_free kv_pool "kv_ok k" "kv_whole k"
proof
  fix s n assume "kv_ok k s"
  then show "\<exists>r s'. kv_alloc_tokens n s = Inr (r, s') \<and> kv_ok k s'
      \<and> kv_pool s = mset (case r of None \<Rightarrow> [] | Some xs \<Rightarrow> xs) + kv_pool s'"
  proof (cases rule: kv_ok.elims(2))
    case (1 a)
    then obtain r a' where "tok_alloc n a = (r, a')" "tok_ok a'" "pool_pages a = mset (case r of None \<Rightarrow> [] | Some xs \<Rightarrow> xs) + pool_pages a'"
      using tok.alloc_law [of a n] by auto
    then show ?thesis using 1 tok_page_size(2) [of n a] by simp
  next
    case (2 ps a)
    then obtain r a' where "paged_alloc n a = Inr (r, a')" "paged_ok ps a'"
      "paged_pool ps a = mset (case r of None \<Rightarrow> [] | Some xs \<Rightarrow> xs) + paged_pool ps a'"
      using paged_alloc_law [of ps a n] by auto
    then show ?thesis using 2 paged_ok_page_size [of ps] by simp
  qed
next
  fix s xs assume "kv_ok k s" "kv_whole k xs"
  then show "\<exists>s'. kv_free xs s = Inr s' \<and> kv_ok k s' \<and> kv_pool s' = mset xs + kv_pool s"
  proof (cases rule: kv_ok.elims(2))
    case (1 a)
    then show ?thesis using tok_ok_free [of a xs] pool_tok_free [OF tok_ok_no_group, of a xs] tok_page_size(1) [of xs a] by simp
  next
    case (2 ps a)
    then obtain a' where "paged_free xs a = Inr a'" "paged_ok ps a'" "paged_pool ps a' = mset xs + paged_pool ps a"
      using paged_free_law [of ps a xs] \<open>kv_whole k xs\<close> by auto
    then show ?thesis using 2 paged_ok_page_size [of ps] by simp
  qed
qed

lemma tok_available: "kv_ok None s \<Longrightarrow> kv_available_size s = size (kv_pool s)"
  by (cases s) (simp_all add: tok_available_size_def size_pool_pages)

lemma tok_alloc_succeeds:
  assumes "kv_ok None s"
  shows "(\<exists>xs s'. kv_alloc_tokens n s = Inr (Some xs, s') \<and> length xs = n) \<longleftrightarrow> n \<le> size (kv_pool s)"
    and "\<not> n \<le> size (kv_pool s) \<Longrightarrow> \<exists>s'. kv_alloc_tokens n s = Inr (None, s')"
proof -
  obtain a where a: "s = TokAlloc a" "tok_ok a" using assms by (cases s) auto
  have "(\<exists>xs a'. tok_alloc n a = (Some xs, a') \<and> length xs = n) \<longleftrightarrow> n \<le> size (pool_pages a)"
    "\<not> n \<le> size (pool_pages a) \<Longrightarrow> \<exists>a'. tok_alloc n a = (None, a')"
    using a(2) by (auto simp: tok_alloc_def Let_def tok_ok_def size_pool_pages)
  then show "(\<exists>xs s'. kv_alloc_tokens n s = Inr (Some xs, s') \<and> length xs = n) \<longleftrightarrow> n \<le> size (kv_pool s)"
    "\<not> n \<le> size (kv_pool s) \<Longrightarrow> \<exists>s'. kv_alloc_tokens n s = Inr (None, s')" by (auto simp: a(1))
qed

definition tree_slots :: "tree_cache \<Rightarrow> int multiset" where
  "tree_slots t = (case t of RadixTree c \<Rightarrow> slots (nodes c) (live c) | ChunkTree _ \<Rightarrow> {#})"

definition tree_evictable :: "tree_cache \<Rightarrow> int" where
  "tree_evictable t = (case t of RadixTree c \<Rightarrow> evictable_size c | ChunkTree _ \<Rightarrow> 0)"

definition mem_ok :: "kv_mem \<Rightarrow> bool" where
  \<comment> \<open>memory with the token allocator: page size 1\<close>
  "mem_ok m \<longleftrightarrow> kv_ok None (mem_alloc m)
     \<and> (case mem_tree m of RadixTree c \<Rightarrow> radix_ok c \<and> \<not> disable c | ChunkTree _ \<Rightarrow> True)"

definition keeps_locked :: "tree_cache \<Rightarrow> tree_cache \<Rightarrow> bool" where
  \<comment> \<open>no locked node is lost, and nothing new is cached\<close>
  "keeps_locked t t' \<longleftrightarrow>
     (case (t, t') of
        (RadixTree c, RadixTree c') \<Rightarrow>
          (\<forall>n ks vs. path c n ks vs \<longrightarrow> 0 < lock_ref (the (nodes c n)) \<longrightarrow> path c' n ks vs) \<and> (\<forall>ks vs. cached c' ks vs \<longrightarrow> cached c ks vs)
      | _ \<Rightarrow> t' = t)"

lemma keeps_locked_refl: "keeps_locked t t"
  by (cases t) (auto simp: keeps_locked_def)

lemma evict_if_needed_spec:
  assumes "mem_ok m"
  shows "\<exists>m'. evict_tree_cache_if_needed k m = Some m' \<and> mem_ok m' \<and> mem_pool m' = mem_pool m
     \<and> kv_pool (mem_alloc m') + tree_slots (mem_tree m') = kv_pool (mem_alloc m) + tree_slots (mem_tree m)
     \<and> (k \<le> int (size (kv_pool (mem_alloc m'))) \<or> tree_evictable (mem_tree m') = 0)
     \<and> int (size (kv_pool (mem_alloc m'))) + tree_evictable (mem_tree m')
       = int (size (kv_pool (mem_alloc m))) + tree_evictable (mem_tree m)
     \<and> keeps_locked (mem_tree m) (mem_tree m')"
proof (cases "mem_tree m")
  case (ChunkTree c)
  then show ?thesis using assms
    by (simp add: evict_tree_cache_if_needed_def tree_evictable_def keeps_locked_refl)
next
  case (RadixTree c)
  have ok: "radix_ok c" "\<not> disable c" "kv_ok None (mem_alloc m)" using assms RadixTree by (simp_all add: mem_ok_def)
  show ?thesis
  proof (cases "int (kv_available_size (mem_alloc m)) < k")
    case False
    then show ?thesis using assms RadixTree tok_available [OF ok(3)]
      by (simp add: evict_tree_cache_if_needed_def keeps_locked_refl)
  next
    case True
    obtain c' a' where e: "evict kv_free k c (mem_alloc m) = Some (c', a')" "radix_ok c'" "kv_ok None a'"
      "kv_pool a' + slots (nodes c') (live c') = kv_pool (mem_alloc m) + slots (nodes c) (live c)"
      "k \<le> evictable_size c - evictable_size c' \<or> evictable_size c' = 0" "protected_size c' = protected_size c"
      "\<forall>n ks vs. path c n ks vs \<longrightarrow> 0 < lock_ref (the (nodes c n)) \<longrightarrow> path c' n ks vs"
      "\<forall>ks vs. cached c' ks vs \<longrightarrow> cached c ks vs"
      "disable c' = disable c"
      using kv.evict_frame_spec [OF ok, of k] by (simp del: split_paired_Ex) (elim exE conjE, rule that)
    have sz: "int (size (kv_pool a')) + evictable_size c' = int (size (kv_pool (mem_alloc m))) + evictable_size c"
      using arg_cong [OF e(4), of size] slots_counters [OF e(2)] slots_counters [OF ok(1)] e(6) by simp
    let ?m = "m\<lparr>mem_tree := RadixTree c', mem_alloc := a'\<rparr>"
    have "evict_tree_cache_if_needed k m = Some ?m" using True e(1) RadixTree by (simp add: evict_tree_cache_if_needed_def)
    then show ?thesis using e sz RadixTree ok(2)
      by (auto simp: mem_ok_def tree_slots_def tree_evictable_def keeps_locked_def)
  qed
qed

section \<open>The lists of a batch\<close>

definition batch_ok :: "schedule_batch \<Rightarrow> bool" where
  \<comment> \<open>the per-request lists have one entry per request, in their order, and the flags cover the requests\<close>
  "batch_ok b \<longleftrightarrow>
     length (req_pool_indices b) = length (reqs b) \<and> length (seq_lens b) = length (reqs b)
     \<and> length (orig_seq_lens b) = length (reqs b) \<and> seq_lens_sum b = sum_list (seq_lens b)
     \<and> (\<forall>xs. batch_output_ids b = Some xs \<longrightarrow> length xs = length (reqs b))
     \<and> (list_ex return_logprob (reqs b) \<longrightarrow> batch_return_logprob b)
     \<and> (batch_return_logprob b \<longrightarrow> (\<exists>xs. top_logprobs_nums b = Some xs \<and> length xs = length (reqs b)))"

lemma gather_idx_nat:
  "(\<And>k. k \<in> set ks \<Longrightarrow> k < length xs) \<Longrightarrow> gather_idx xs (map int ks) = Inr (map ((!) xs) ks)"
  by (induction ks) (auto simp: py_get_def py_index_def)

lemma filter_full: "length (filter P xs) = length xs \<Longrightarrow> \<forall>x\<in>set xs. P x"
  using length_filter_less [of _ xs P] by fastforce

definition kept_indices :: "text list \<Rightarrow> schedule_batch \<Rightarrow> nat list" where
  "kept_indices excluded b = filter (\<lambda>i. \<not> finished (reqs b ! i) \<and> rid (reqs b ! i) \<notin> set excluded) [0..<length (reqs b)]"

lemma kept_reqs: "map ((!) (reqs b)) (kept_indices excluded b) = filter (\<lambda>r. \<not> finished r \<and> rid r \<notin> set excluded) (reqs b)"
  unfolding kept_indices_def by (metis (no_types, lifting) comp_apply filter_cong filter_map map_nth)

lemma filter_batch_gather:
  assumes ok: "batch_ok b" and out: "batch_output_ids b = Some outs" and ks: "\<And>k. k \<in> set ks \<Longrightarrow> k < length (reqs b)"
    and ne: "ks \<noteq> []" "length ks \<noteq> length (reqs b)"
  shows "\<exists>b'. filter_batch ex (Some (map int ks)) b = Some b' \<and> batch_ok b' \<and> reqs b' = map ((!) (reqs b)) ks
     \<and> req_pool_indices b' = map ((!) (req_pool_indices b)) ks \<and> seq_lens b' = map ((!) (seq_lens b)) ks
     \<and> (\<exists>outs'. batch_output_ids b' = Some outs')"
proof -
  have lens: "length (req_pool_indices b) = length (reqs b)" "length (seq_lens b) = length (reqs b)"
    "length (orig_seq_lens b) = length (reqs b)" "length outs = length (reqs b)"
    using ok out by (auto simp: batch_ok_def)
  let ?g = "\<lambda>xs. gather_idx xs (map int ks)"
  have g: "?g (reqs b) = Inr (map ((!) (reqs b)) ks)" "?g (req_pool_indices b) = Inr (map ((!) (req_pool_indices b)) ks)"
    "?g (seq_lens b) = Inr (map ((!) (seq_lens b)) ks)" "?g (orig_seq_lens b) = Inr (map ((!) (orig_seq_lens b)) ks)"
    "?g outs = Inr (map ((!) outs) ks)"
    using ks lens by (auto intro!: gather_idx_nat)
  show ?thesis
  proof (cases "list_ex return_logprob (map ((!) (reqs b)) ks)")
    case True
    then have "list_ex return_logprob (reqs b)" using ks by (auto simp: list_ex_iff)
    then obtain nums where n: "top_logprobs_nums b = Some nums" "length nums = length (reqs b)"
      using ok by (auto simp: batch_ok_def)
    then have "?g nums = Inr (map ((!) nums) ks)" using ks by (auto intro!: gather_idx_nat)
    with True n(1) g ne out show ?thesis by (auto simp: filter_batch_def Let_def batch_ok_def)
  next
    case False
    with g ne out show ?thesis by (auto simp: filter_batch_def Let_def batch_ok_def)
  qed
qed

section \<open>Allocating for a batch\<close>

lemma alloc_token_slots_spec:
  assumes ok: "mem_ok m" and n: "int n \<le> int (size (kv_pool (mem_alloc m))) + tree_evictable (mem_tree m)"
  shows "\<exists>out m'. alloc_token_slots n m = Some (out, m') \<and> length out = n \<and> mem_ok m' \<and> mem_pool m' = mem_pool m
     \<and> mset out + kv_pool (mem_alloc m') + tree_slots (mem_tree m') = kv_pool (mem_alloc m) + tree_slots (mem_tree m)
     \<and> keeps_locked (mem_tree m) (mem_tree m')"
proof -
  obtain m1 where m1: "evict_tree_cache_if_needed (int n) m = Some m1" "mem_ok m1" "mem_pool m1 = mem_pool m"
    "kv_pool (mem_alloc m1) + tree_slots (mem_tree m1) = kv_pool (mem_alloc m) + tree_slots (mem_tree m)"
    "int n \<le> int (size (kv_pool (mem_alloc m1))) \<or> tree_evictable (mem_tree m1) = 0"
    "int (size (kv_pool (mem_alloc m1))) + tree_evictable (mem_tree m1)
       = int (size (kv_pool (mem_alloc m))) + tree_evictable (mem_tree m)" "keeps_locked (mem_tree m) (mem_tree m1)"
    using evict_if_needed_spec [OF ok, of "int n"] by (elim exE conjE) (rule that)
  have k: "kv_ok None (mem_alloc m1)" using m1(2) by (simp add: mem_ok_def)
  have "n \<le> size (kv_pool (mem_alloc m1))" using m1(5,6) n by linarith
  then obtain out s where a: "kv_alloc_tokens n (mem_alloc m1) = Inr (Some out, s)" "length out = n"
    using tok_alloc_succeeds(1) [OF k] by blast
  then have s: "kv_ok None s" "kv_pool (mem_alloc m1) = mset out + kv_pool s" using kv.alloc_law [OF k, of n] by auto
  have "alloc_token_slots n m = Some (out, m1\<lparr>mem_alloc := s\<rparr>)" using m1(1) a(1) by (simp add: alloc_token_slots_def allocated_def)
  then show ?thesis using a(2) s m1 by (intro exI [of _ out] exI [of _ "m1\<lparr>mem_alloc := s\<rparr>"]) (simp add: mem_ok_def)
qed

lemma evictable_nonneg: "radix_ok c \<Longrightarrow> 0 \<le> evictable_size c"
  unfolding radix_ok_def by (elim exE, unfold evictable_size_def radix_invD(4) size_where_def) (simp add: sum_nonneg)

lemma sum_list_int: "sum_list (map (\<lambda>x. int (f x)) xs) = int (sum_list (map f xs))"
  by (induction xs) auto

lemma alloc_token_slots_fails:
  assumes ok: "mem_ok m" and n: "\<not> int n \<le> int (size (kv_pool (mem_alloc m))) + tree_evictable (mem_tree m)"
  shows "alloc_token_slots n m = None"
proof -
  obtain m1 where m1: "evict_tree_cache_if_needed (int n) m = Some m1" "mem_ok m1"
    "int (size (kv_pool (mem_alloc m1))) + tree_evictable (mem_tree m1)
       = int (size (kv_pool (mem_alloc m))) + tree_evictable (mem_tree m)"
    using evict_if_needed_spec [OF ok, of "int n"] by (elim exE conjE) (rule that)
  have "0 \<le> tree_evictable (mem_tree m1)"
    using m1(2) evictable_nonneg by (auto simp: tree_evictable_def mem_ok_def split: tree_cache.splits)
  then have "\<not> n \<le> size (kv_pool (mem_alloc m1))" using m1(3) n by linarith
  moreover have "kv_ok None (mem_alloc m1)" using m1(2) by (simp add: mem_ok_def)
  ultimately obtain s where "kv_alloc_tokens n (mem_alloc m1) = Inr (None, s)" using tok_alloc_succeeds(2) by blast
  then show ?thesis using m1(1) by (simp add: alloc_token_slots_def allocated_def)
qed

definition rows_ok :: "req_to_token_pool \<Rightarrow> bool" where
  \<comment> \<open>a rectangular table, and free rows that are rows of it, each once\<close>
  "rows_ok p \<longleftrightarrow> rect (max_context_len p) (req_to_token p) \<and> distinct (free_slots p) \<and> (\<forall>i\<in>set (free_slots p). row_ok i p)"

lemma write_prefix:
  assumes "rect w (req_to_token p)" "row_ok i p" "length xs \<le> w"
  shows "\<exists>p'. write_row i 0 (int (length xs)) xs p = Inr p' \<and> p' = p\<lparr>req_to_token := req_to_token p'\<rparr>
     \<and> rect w (req_to_token p') \<and> length (req_to_token p') = length (req_to_token p)
     \<and> take (length xs) (pool_row i p') = xs \<and> (\<forall>j. 0 \<le> j \<longrightarrow> j \<noteq> i \<longrightarrow> pool_row j p' = pool_row j p)"
proof -
  have i: "nat i < length (req_to_token p)" "0 \<le> i" using assms(2) by (auto simp: row_ok_def)
  have l: "length (pool_row i p) = w" using assms(1) i by (simp add: rect_def pool_row_def)
  let ?t = "(req_to_token p)[nat i := xs @ drop (length xs) (pool_row i p)]"
  have "write_row i 0 (int (length xs)) xs p = Inr (p\<lparr>req_to_token := ?t\<rparr>)"
    using write_row_ok [OF assms(2), of 0 xs "length xs"] l assms(3) by simp
  moreover have "rect w ?t" by (rule rect_update [OF assms(1)]) (use l assms(3) in simp)
  ultimately show ?thesis using i by (auto simp: pool_row_def nth_list_update eq_nat_nat_iff)
qed

definition extend_ready :: "nat \<Rightarrow> req \<Rightarrow> bool" where
  "extend_ready w r \<longleftrightarrow> length (prefix_indices r) \<le> length (fill_ids r) \<and> length (fill_ids r) \<le> w
     \<and> extend_input_len r = int (length (fill_ids r)) - int (length (prefix_indices r))"

lemma extend_reqs_spec:
  assumes "rect w (req_to_token p)" "length is = length rs" "distinct is" "\<forall>i\<in>set is. row_ok i p" "\<forall>r\<in>set rs. extend_ready w r"
  shows "\<exists>p'. extend_reqs is rs p = Some (map2 extend_req is rs, p') \<and> p' = p\<lparr>req_to_token := req_to_token p'\<rparr>
     \<and> rect w (req_to_token p') \<and> length (req_to_token p') = length (req_to_token p)
     \<and> (\<forall>j. 0 \<le> j \<longrightarrow> j \<notin> set is \<longrightarrow> pool_row j p' = pool_row j p)
     \<and> (\<forall>k<length rs. take (length (prefix_indices (rs ! k))) (pool_row (is ! k) p') = prefix_indices (rs ! k))"
  using assms
proof (induction "is" rs p rule: extend_reqs.induct)
  case (1 i "is" r rs p)
  have r: "extend_ready w r" "row_ok i p" "i \<notin> set is" "0 \<le> i" using "1.prems" by (auto simp: row_ok_def)
  let ?n = "length (prefix_indices r)"
  obtain p1 where p1: "(if 0 < ?n then res_option (write_row i 0 (int ?n) (prefix_indices r) p) else Some p) = Some p1"
    "p1 = p\<lparr>req_to_token := req_to_token p1\<rparr>" "rect w (req_to_token p1)" "length (req_to_token p1) = length (req_to_token p)"
    "take ?n (pool_row i p1) = prefix_indices r" "\<forall>j. 0 \<le> j \<longrightarrow> j \<noteq> i \<longrightarrow> pool_row j p1 = pool_row j p"
  proof (cases "0 < ?n")
    case True
    have "?n \<le> w" using r(1) by (simp add: extend_ready_def)
    from write_prefix [OF "1.prems"(1) r(2) this] True show ?thesis using that by auto
  qed (use that "1.prems"(1) in auto)
  have prem: "rect w (req_to_token p1)" "length is = length rs" "distinct is" "\<forall>i\<in>set is. row_ok i p1" "\<forall>r\<in>set rs. extend_ready w r"
    using p1(3,4) "1.prems" by (auto simp: row_ok_def)
  have "\<exists>p'. extend_reqs is rs p1 = Some (map2 extend_req is rs, p') \<and> p' = p1\<lparr>req_to_token := req_to_token p'\<rparr>
     \<and> rect w (req_to_token p') \<and> length (req_to_token p') = length (req_to_token p1)
     \<and> (\<forall>j. 0 \<le> j \<longrightarrow> j \<notin> set is \<longrightarrow> pool_row j p' = pool_row j p1)
     \<and> (\<forall>k<length rs. take (length (prefix_indices (rs ! k))) (pool_row (is ! k) p') = prefix_indices (rs ! k))"
    by (rule "1.IH" [OF refl _ p1(1) prem]) (use r(1) in \<open>simp add: extend_ready_def\<close>)
  then obtain p' where p': "extend_reqs is rs p1 = Some (map2 extend_req is rs, p')" "p' = p1\<lparr>req_to_token := req_to_token p'\<rparr>"
    "rect w (req_to_token p')" "length (req_to_token p') = length (req_to_token p1)"
    "\<forall>j. 0 \<le> j \<longrightarrow> j \<notin> set is \<longrightarrow> pool_row j p' = pool_row j p1"
    "\<forall>k<length rs. take (length (prefix_indices (rs ! k))) (pool_row (is ! k) p') = prefix_indices (rs ! k)"
    by (elim exE conjE) (rule that)
  have run: "extend_reqs (i # is) (r # rs) p = Some (map2 extend_req (i # is) (r # rs), p')"
    using p1(1) p'(1) r(1) by (simp add: extend_ready_def)
  have "p' = p\<lparr>req_to_token := req_to_token p'\<rparr>" using p1(2) p'(2) by (metis req_to_token_pool.update_convs(3) req_to_token_pool.surjective)
  moreover have "\<forall>j. 0 \<le> j \<longrightarrow> j \<notin> set (i # is) \<longrightarrow> pool_row j p' = pool_row j p" using p1(6) p'(5) by auto
  moreover have "take ?n (pool_row i p') = prefix_indices r" using p'(5) r(3,4) p1(5) by simp
  then have "\<forall>k<length (r # rs). take (length (prefix_indices ((r # rs) ! k))) (pool_row ((i # is) ! k) p') = prefix_indices ((r # rs) ! k)"
    using p'(6) by (auto simp: less_Suc_eq_0_disj)
  ultimately show ?case using run p'(3,4) p1(4) by (intro exI [of _ p']) simp
qed auto

lemma unflatten_concat: "rect w t \<Longrightarrow> unflatten (length t) w (concat t) = t"
proof (rule nth_equalityI)
  fix i assume r: "rect w t" and "i < length (unflatten (length t) w (concat t))"
  then have i: "i < length t" by (simp add: unflatten_def)
  show "unflatten (length t) w (concat t) ! i = t ! i"
    using concat_split [OF r i] i by (simp add: unflatten_def)
qed (simp add: unflatten_def)

lemma write_extend_spec:
  assumes ok: "extend_lists_ok p (max_context_len p) idx pre seq ext out" and d: "distinct idx"
  shows "\<exists>p'. write_extend backend other idx pre seq ext out p = Some p'
     \<and> (\<forall>i<length idx. pool_row (idx ! i) p' = extended_row pre seq ext out i (pool_row (idx ! i) p))"
proof -
  let ?w = "max_context_len p"
  obtain p' where p': "write_extend_loop idx pre seq ext out p (length idx) = Inr (sum_list (take (length idx) ext), p')"
    "rect ?w (req_to_token p')" "length (req_to_token p') = length (req_to_token p)"
    "write_req_to_token_pool_triton other (concat (req_to_token p)) idx pre seq ext out (int ?w) (length idx) = concat (req_to_token p')"
    "p' = p\<lparr>req_to_token := req_to_token p'\<rparr>"
    "distinct idx \<longrightarrow> (\<forall>i<length idx. pool_row (idx ! i) p' = extended_row pre seq ext out i (pool_row (idx ! i) p))"
    using write_extend_loop_spec [OF ok order_refl, where other = other] by (elim exE conjE) (rule that)
  have "map2 (-) seq pre = ext" using ok by (auto simp: extend_lists_ok_def list_eq_iff_nth_eq)
  then have "write_extend backend other idx pre seq ext out p = Some p'"
    using p'(1,4,5) unflatten_concat [OF p'(2)] p'(3) by (simp add: write_extend_def)
  then show ?thesis using p'(6) d by blast
qed

definition extend_offset :: "req list \<Rightarrow> nat \<Rightarrow> nat" where
  \<comment> \<open>where the locations of request \<open>i\<close> start among those of the batch\<close>
  "extend_offset rs i = sum_list (map (\<lambda>r. length (fill_ids r) - length (prefix_indices r)) (take i rs))"

lemma sum_extend_take:
  assumes "\<forall>r\<in>set rs. extend_ready w r"
  shows "sum_list (take i (map extend_input_len rs)) = int (extend_offset rs i)"
proof -
  have "map extend_input_len (take i rs) = map (\<lambda>r. int (length (fill_ids r) - length (prefix_indices r))) (take i rs)"
    by (rule map_cong) (use assms in \<open>auto simp: extend_ready_def dest: in_set_takeD\<close>)
  then show ?thesis unfolding take_map extend_offset_def sum_list_int [symmetric] by (rule arg_cong)
qed

lemma extended_prefix:
  assumes "rect w (req_to_token p)" "row_ok j p" "i < length rs" "\<forall>r\<in>set rs. extend_ready w r"
    "take (length (prefix_indices (rs ! i))) (pool_row j p) = prefix_indices (rs ! i)" "length out = extend_offset rs (length rs)"
  shows "take (length (fill_ids (rs ! i))) (extended_row (map (\<lambda>r. int (length (prefix_indices r))) rs)
      (map (\<lambda>r. int (length (fill_ids r))) rs) (map extend_input_len rs) out i (pool_row j p))
    = prefix_indices (rs ! i) @ slice (extend_offset rs i) (extend_offset rs (Suc i)) out"
proof -
  let ?r = "rs ! i"
  have r: "extend_ready w ?r" using assms(3,4) by simp
  have o: "extend_offset rs (Suc i) = extend_offset rs i + (length (fill_ids ?r) - length (prefix_indices ?r))"
    using assms(3) by (simp add: extend_offset_def take_Suc_conv_app_nth)
  have "extend_offset rs (Suc i) \<le> length out"
  proof -
    have "extend_offset rs (length rs) = extend_offset rs (Suc i)
        + sum_list (map (\<lambda>r. length (fill_ids r) - length (prefix_indices r)) (drop (Suc i) rs))"
      unfolding extend_offset_def take_all [OF order_refl] sum_list_append [symmetric] map_append [symmetric] append_take_drop_id ..
    then show ?thesis unfolding assms(6) by simp
  qed
  then have "length (slice (extend_offset rs i) (extend_offset rs (Suc i)) out) = length (fill_ids ?r) - length (prefix_indices ?r)"
    by (simp add: o)
  moreover have "length (prefix_indices ?r) \<le> length (fill_ids ?r)" using r by (simp add: extend_ready_def)
  ultimately show ?thesis
    using assms(3,5) unfolding extended_row_def sum_extend_take [OF assms(4)] nat_int by simp
qed

definition extend_alloc :: "text \<Rightarrow> int \<Rightarrow> int list \<Rightarrow> req list \<Rightarrow> kv_mem \<Rightarrow> (int list \<times> kv_mem) option" where
  \<comment> \<open>the allocation inside \<open>prepare_for_extend\<close>, after the prefixes were written\<close>
  "extend_alloc backend other idx rs m =
     (let pre = map (\<lambda>r. int (length (prefix_indices r))) rs; n = extend_offset rs (length rs)
      in if kv_page_size (mem_alloc m) = 1 then alloc_token_slots n m
         else do {
           lst \<leftarrow> res_option (get_last_loc backend other (req_to_token (mem_pool m)) (int (max_context_len (mem_pool m))) idx pre);
           alloc_paged_token_slots_extend other pre (map (\<lambda>r. int (length (fill_ids r))) rs) lst n m
         })"

lemma extend_run_any:
  \<comment> \<open>for any allocation \<open>P\<close> that gives one location per new token\<close>
  assumes p: "rows_ok (mem_pool m)" and rs: "\<forall>r\<in>set (reqs b). extend_ready (max_context_len (mem_pool m)) r"
    and enough: "length (reqs b) \<le> length (free_slots (mem_pool m))"
    and alloc: "\<And>idx p1. length idx = length (reqs b) \<Longrightarrow> \<forall>i\<in>set idx. row_ok i p1 \<Longrightarrow> rect (max_context_len (mem_pool m)) (req_to_token p1)
      \<Longrightarrow> max_context_len p1 = max_context_len (mem_pool m)
      \<Longrightarrow> \<forall>k<length (reqs b). take (length (prefix_indices (reqs b ! k))) (pool_row (idx ! k) p1) = prefix_indices (reqs b ! k)
      \<Longrightarrow> \<exists>out m3. extend_alloc backend other idx (reqs b) (m\<lparr>mem_pool := p1\<rparr>) = Some (out, m3)
        \<and> length out = extend_offset (reqs b) (length (reqs b)) \<and> mem_pool m3 = p1 \<and> P out (mem_alloc m3) (mem_tree m3)"
  shows "\<exists>b' m' out. prepare_for_extend backend other b m = Some (b', m')
     \<and> reqs b' = map2 extend_req (req_pool_indices b') (reqs b) \<and> out_cache_loc b' = Some out \<and> length out = extend_offset (reqs b) (length (reqs b))
     \<and> req_pool_indices b' = take (length (reqs b)) (free_slots (mem_pool m))
     \<and> seq_lens b' = map (\<lambda>r. int (length (fill_ids r))) (reqs b) \<and> length (orig_seq_lens b') = length (reqs b)
     \<and> seq_lens_sum b' = sum_list (seq_lens b') \<and> batch_output_ids b' = batch_output_ids b \<and> batch_return_logprob b' = batch_return_logprob b
     \<and> top_logprobs_nums b' = (if batch_return_logprob b then Some (map top_logprobs_num (reqs b')) else top_logprobs_nums b)
     \<and> P out (mem_alloc m') (mem_tree m')
     \<and> (\<forall>i<length (reqs b). take (length (fill_ids (reqs b ! i))) (pool_row (req_pool_indices b' ! i) (mem_pool m'))
          = prefix_indices (reqs b ! i) @ slice (extend_offset (reqs b) i) (extend_offset (reqs b) (Suc i)) out)"
proof -
  let ?rs = "reqs b" and ?p = "mem_pool m" and ?w = "max_context_len (mem_pool m)" and ?n = "length (reqs b)"
  define idx where "idx = take ?n (free_slots ?p)"
  define m1 where "m1 = m\<lparr>mem_pool := ?p\<lparr>free_slots := drop ?n (free_slots ?p)\<rparr>\<rparr>"
  have al: "alloc_req_slots ?n m = Some (idx, m1)" using enough by (simp add: alloc_req_slots_def alloc_rows_def idx_def m1_def)
  have ix: "length idx = ?n" "distinct idx" "\<forall>i\<in>set idx. row_ok i (mem_pool m1)" "rect ?w (req_to_token (mem_pool m1))"
    using p enough by (auto simp: idx_def m1_def rows_ok_def row_ok_def dest: in_set_takeD)
  obtain p1 where p1: "extend_reqs idx ?rs (mem_pool m1) = Some (map2 extend_req idx ?rs, p1)"
    "p1 = (mem_pool m1)\<lparr>req_to_token := req_to_token p1\<rparr>" "rect ?w (req_to_token p1)" "length (req_to_token p1) = length (req_to_token (mem_pool m1))"
    "\<forall>k<length ?rs. take (length (prefix_indices (?rs ! k))) (pool_row (idx ! k) p1) = prefix_indices (?rs ! k)"
    using extend_reqs_spec [OF ix(4,1,2,3) rs] by (elim exE conjE) (rule that)
  have w: "max_context_len p1 = ?w" using arg_cong [OF p1(2), of max_context_len] by (simp add: m1_def)
  have rows1: "\<forall>i\<in>set idx. row_ok i p1" using ix(3) p1(4) by (simp add: row_ok_def)
  have num: "sum_list (map length (map (\<lambda>r. drop (length (prefix_indices r)) (fill_ids r)) ?rs)) = extend_offset ?rs ?n"
    unfolding map_map by (simp add: extend_offset_def o_def)
  obtain out m3 where out: "extend_alloc backend other idx ?rs (m\<lparr>mem_pool := p1\<rparr>) = Some (out, m3)" "length out = extend_offset ?rs ?n"
    "mem_pool m3 = p1" "P out (mem_alloc m3) (mem_tree m3)"
    using alloc [OF ix(1) rows1 p1(3) w p1(5)] by (elim exE conjE) (rule that)
  have m2: "m1\<lparr>mem_pool := p1\<rparr> = m\<lparr>mem_pool := p1\<rparr>" by (simp add: m1_def)
  let ?pre = "map (\<lambda>r. int (length (prefix_indices r))) ?rs" and ?seq = "map (\<lambda>r. int (length (fill_ids r))) ?rs"
  let ?ext = "map extend_input_len ?rs"
  have lists: "extend_lists_ok p1 (max_context_len p1) idx ?pre ?seq ?ext out"
    using ix p1(3,4) rs out(2) sum_extend_take [OF rs, of ?n] unfolding w
    by (auto simp: extend_lists_ok_def row_ok_def extend_ready_def)
  obtain p' where p': "write_extend backend other idx ?pre ?seq ?ext out p1 = Some p'"
    "\<forall>i<length idx. pool_row (idx ! i) p' = extended_row ?pre ?seq ?ext out i (pool_row (idx ! i) p1)"
    using write_extend_spec [OF lists ix(2)] by blast
  have rows: "take (length (fill_ids (?rs ! i))) (pool_row (idx ! i) p')
      = prefix_indices (?rs ! i) @ slice (extend_offset ?rs i) (extend_offset ?rs (Suc i)) out" if i: "i < ?n" for i
  proof -
    have "row_ok (idx ! i) p1" using ix(1,3) p1(4) i by (simp add: row_ok_def)
    from extended_prefix [OF p1(3) this i rs _ out(2)] show ?thesis using p'(2) p1(5) i ix(1) by simp
  qed
  have al2: "(if kv_page_size (mem_alloc (m\<lparr>mem_pool := p1\<rparr>)) = 1 then alloc_token_slots (extend_offset ?rs ?n) (m\<lparr>mem_pool := p1\<rparr>)
      else do {
        lst \<leftarrow> res_option (get_last_loc backend other (req_to_token p1) (int (max_context_len p1)) idx ?pre);
        alloc_paged_token_slots_extend other ?pre ?seq lst (extend_offset ?rs ?n) (m\<lparr>mem_pool := p1\<rparr>)
      }) = Some (out, m3)"
    using out(1) by (simp add: extend_alloc_def Let_def split: if_splits)
  have run: "prepare_for_extend backend other b m = Some (b\<lparr>reqs := map2 extend_req idx ?rs, forward_mode := Some EXTEND,
      input_ids := Some (concat (map (\<lambda>r. drop (length (prefix_indices r)) (fill_ids r)) ?rs)), req_pool_indices := idx,
      seq_lens := ?seq, orig_seq_lens := map (\<lambda>r. int (max (length (fill_ids r)) (length (origin_input_ids r)))) ?rs,
      out_cache_loc := Some out, seq_lens_sum := sum_list ?seq,
      top_logprobs_nums := (if batch_return_logprob b then Some (map top_logprobs_num (map2 extend_req idx ?rs)) else top_logprobs_nums b),
      extend_logprob_start_lens := map extend_logprob_start_len (map2 extend_req idx ?rs),
      extend_num_tokens := int (extend_offset ?rs ?n), prefix_lens := ?pre, extend_lens := ?ext,
      extend_input_logprob_token_ids :=
        (if batch_return_logprob b then Some (concat (map logprob_tokens (map2 extend_req idx ?rs))) else None)\<rparr>,
      m3\<lparr>mem_pool := p'\<rparr>)"
    unfolding prepare_for_extend_def Let_def num al p1(1) m2 bind.bind_lunit prod.case al2 out(3) p'(1) ..
  show ?thesis unfolding run using out(2,4) rows ix(1) by (simp add: idx_def [symmetric])
qed

lemma extend_alloc_tok:
  assumes m: "mem_ok m" and enough: "int (extend_offset rs (length rs)) \<le> int (size (kv_pool (mem_alloc m))) + tree_evictable (mem_tree m)"
  shows "\<exists>out m3. extend_alloc backend other idx rs (m\<lparr>mem_pool := p1\<rparr>) = Some (out, m3) \<and> length out = extend_offset rs (length rs)
     \<and> mem_pool m3 = p1 \<and> mset out + kv_pool (mem_alloc m3) + tree_slots (mem_tree m3) = kv_pool (mem_alloc m) + tree_slots (mem_tree m)"
proof -
  let ?m = "m\<lparr>mem_pool := p1\<rparr>" and ?n = "extend_offset rs (length rs)"
  have ok: "mem_ok ?m" using m by (simp add: mem_ok_def)
  have "kv_page_size (mem_alloc ?m) = 1" using m by (cases "mem_alloc m") (simp_all add: mem_ok_def)
  then show ?thesis using alloc_token_slots_spec [OF ok, of ?n] enough by (auto simp: extend_alloc_def Let_def)
qed

lemma extend_run:
  assumes m: "mem_ok m" and p: "rows_ok (mem_pool m)" and rs: "\<forall>r\<in>set (reqs b). extend_ready (max_context_len (mem_pool m)) r"
    and enough: "length (reqs b) \<le> length (free_slots (mem_pool m))"
    "int (extend_offset (reqs b) (length (reqs b))) \<le> int (size (kv_pool (mem_alloc m))) + tree_evictable (mem_tree m)"
  shows "\<exists>b' m' out. prepare_for_extend backend other b m = Some (b', m')
     \<and> reqs b' = map2 extend_req (req_pool_indices b') (reqs b) \<and> out_cache_loc b' = Some out \<and> length out = extend_offset (reqs b) (length (reqs b))
     \<and> req_pool_indices b' = take (length (reqs b)) (free_slots (mem_pool m))
     \<and> seq_lens b' = map (\<lambda>r. int (length (fill_ids r))) (reqs b) \<and> length (orig_seq_lens b') = length (reqs b)
     \<and> seq_lens_sum b' = sum_list (seq_lens b') \<and> batch_output_ids b' = batch_output_ids b \<and> batch_return_logprob b' = batch_return_logprob b
     \<and> top_logprobs_nums b' = (if batch_return_logprob b then Some (map top_logprobs_num (reqs b')) else top_logprobs_nums b)
     \<and> mset out + kv_pool (mem_alloc m') + tree_slots (mem_tree m') = kv_pool (mem_alloc m) + tree_slots (mem_tree m)
     \<and> (\<forall>i<length (reqs b). take (length (fill_ids (reqs b ! i))) (pool_row (req_pool_indices b' ! i) (mem_pool m'))
          = prefix_indices (reqs b ! i) @ slice (extend_offset (reqs b) i) (extend_offset (reqs b) (Suc i)) out)"
  by (rule extend_run_any [OF p rs enough(1), where P = "\<lambda>out a t. mset out + kv_pool a + tree_slots t = kv_pool (mem_alloc m) + tree_slots (mem_tree m)"])
    (rule extend_alloc_tok [OF m enough(2)])

lemma write_cells_spec:
  assumes "rect w (req_to_token p)" "length js = length is" "length vs = length is" "distinct is"
    "\<forall>k<length is. row_ok (is ! k) p \<and> 0 \<le> js ! k \<and> js ! k < int w"
  shows "\<exists>p'. write_cells is js vs p = Inr p' \<and> p' = p\<lparr>req_to_token := req_to_token p'\<rparr> \<and> rect w (req_to_token p')
     \<and> length (req_to_token p') = length (req_to_token p) \<and> (\<forall>j. 0 \<le> j \<longrightarrow> j \<notin> set is \<longrightarrow> pool_row j p' = pool_row j p)
     \<and> (\<forall>k<length is. pool_row (is ! k) p' = (pool_row (is ! k) p)[nat (js ! k) := vs ! k])"
  using assms
proof (induction "is" js vs p rule: write_cells.induct)
  case (1 i "is" j js v vs p)
  have i: "row_ok i p" "0 \<le> j" "j < int w" "i \<notin> set is" "0 \<le> i" "nat i < length (req_to_token p)"
    using "1.prems"(4,5) by (auto simp: row_ok_def dest: spec [of _ 0])
  have row: "py_get (req_to_token p) i = Inr (pool_row i p)" using i by (simp add: py_get_def py_index_def pool_row_def row_ok_def)
  have l: "length (pool_row i p) = w" using "1.prems"(1) i by (simp add: rect_def pool_row_def)
  let ?row = "(pool_row i p)[nat j := v]" and ?t = "(req_to_token p)[nat i := (pool_row i p)[nat j := v]]"
  let ?p1 = "p\<lparr>req_to_token := ?t\<rparr>"
  have set: "py_set (pool_row i p) j v = Inr ?row" "py_set (req_to_token p) i ?row = Inr ?t"
    using i l by (simp_all add: py_set_def py_index_def row_ok_def)
  have prem: "rect w (req_to_token ?p1)" "length js = length is" "length vs = length is" "distinct is"
    "\<forall>k<length is. row_ok (is ! k) ?p1 \<and> 0 \<le> js ! k \<and> js ! k < int w"
    using "1.prems" rect_update [OF "1.prems"(1), of ?row "nat i"] l by (auto simp: row_ok_def dest: spec [of _ "Suc _"])
  obtain p' where p': "write_cells is js vs ?p1 = Inr p'" "p' = ?p1\<lparr>req_to_token := req_to_token p'\<rparr>" "rect w (req_to_token p')"
    "length (req_to_token p') = length (req_to_token ?p1)" "\<forall>j. 0 \<le> j \<longrightarrow> j \<notin> set is \<longrightarrow> pool_row j p' = pool_row j ?p1"
    "\<forall>k<length is. pool_row (is ! k) p' = (pool_row (is ! k) ?p1)[nat (js ! k) := vs ! k]"
    using "1.IH" [OF prem] by (elim exE conjE) (rule that)
  have run: "write_cells (i # is) (j # js) (v # vs) p = Inr p'" using row set p'(1) by simp
  have q: "pool_row q ?p1 = (if q = i then ?row else pool_row q p)" if "0 \<le> q" for q
    using i that by (auto simp: pool_row_def nth_list_update eq_nat_nat_iff)
  have oth: "\<forall>q. 0 \<le> q \<longrightarrow> q \<notin> set (i # is) \<longrightarrow> pool_row q p' = pool_row q p" using p'(5) q by simp
  have "pool_row ((i # is) ! k) p' = (pool_row ((i # is) ! k) p)[nat ((j # js) ! k) := (v # vs) ! k]" if k: "k < length (i # is)" for k
  proof (cases k)
    case 0
    then show ?thesis using p'(5) q i(4,5) by simp
  next
    case (Suc k')
    then have "is ! k' \<in> set is" "0 \<le> is ! k'" using k prem(5) by (auto simp: row_ok_def)
    then show ?thesis using Suc k p'(6) q [of "is ! k'"] i(4) by auto
  qed
  moreover have "p' = p\<lparr>req_to_token := req_to_token p'\<rparr>" using p'(2) by (metis req_to_token_pool.update_convs(3) req_to_token_pool.surjective)
  ultimately show ?case using run oth p'(3,4) by (intro exI [of _ p']) simp
qed auto

definition decode_ready :: "schedule_batch \<Rightarrow> kv_mem \<Rightarrow> bool" where
  \<comment> \<open>the requests have rows of their own, with room for one more token\<close>
  "decode_ready b m \<longleftrightarrow> batch_ok b \<and> mem_ok m \<and> rect (max_context_len (mem_pool m)) (req_to_token (mem_pool m))
     \<and> distinct (req_pool_indices b)
     \<and> (\<forall>k<length (reqs b). row_ok (req_pool_indices b ! k) (mem_pool m)
          \<and> 0 \<le> seq_lens b ! k \<and> seq_lens b ! k < int (max_context_len (mem_pool m)))"

lemma check_decode_mem_iff:
  assumes "mem_ok m"
  shows "\<exists>m1. check_decode_mem k b m = Some (int (length (reqs b) * k) \<le> int (size (kv_pool (mem_alloc m))) + tree_evictable (mem_tree m), m1)
     \<and> mem_ok m1 \<and> mem_pool m1 = mem_pool m
     \<and> kv_pool (mem_alloc m1) + tree_slots (mem_tree m1) = kv_pool (mem_alloc m) + tree_slots (mem_tree m)
     \<and> int (size (kv_pool (mem_alloc m1))) + tree_evictable (mem_tree m1)
       = int (size (kv_pool (mem_alloc m))) + tree_evictable (mem_tree m)"
proof -
  have ps: "kv_page_size (mem_alloc m) = 1" using assms by (cases "mem_alloc m") (simp_all add: mem_ok_def)
  let ?n = "int (length (reqs b) * k)"
  obtain m1 where m1: "evict_tree_cache_if_needed ?n m = Some m1" "mem_ok m1" "mem_pool m1 = mem_pool m"
    "kv_pool (mem_alloc m1) + tree_slots (mem_tree m1) = kv_pool (mem_alloc m) + tree_slots (mem_tree m)"
    "?n \<le> int (size (kv_pool (mem_alloc m1))) \<or> tree_evictable (mem_tree m1) = 0"
    "int (size (kv_pool (mem_alloc m1))) + tree_evictable (mem_tree m1)
       = int (size (kv_pool (mem_alloc m))) + tree_evictable (mem_tree m)"
    using evict_if_needed_spec [OF assms, of ?n] by (elim exE conjE) (rule that)
  have "0 \<le> tree_evictable (mem_tree m1)"
    using m1(2) evictable_nonneg by (auto simp: tree_evictable_def mem_ok_def split: tree_cache.splits)
  moreover have "kv_available_size (mem_alloc m1) = size (kv_pool (mem_alloc m1))"
    using m1(2) by (intro tok_available) (simp add: mem_ok_def)
  ultimately have "is_available_size_sufficient ?n m1 \<longleftrightarrow> ?n \<le> int (size (kv_pool (mem_alloc m))) + tree_evictable (mem_tree m)"
    using m1(5,6) unfolding is_available_size_sufficient_def by linarith
  then show ?thesis using m1(1-4,6) by (simp add: check_decode_mem_def new_page_count_next_decode_def ps Let_def)
qed

lemma decode_write:
  \<comment> \<open>what follows the allocation in \<open>prepare_for_decode\<close>\<close>
  assumes ok: "batch_ok b" "rect (max_context_len (mem_pool m)) (req_to_token (mem_pool m))" "distinct (req_pool_indices b)"
    and r: "\<forall>k<length (reqs b). row_ok (req_pool_indices b ! k) (mem_pool m)
        \<and> 0 \<le> seq_lens b ! k \<and> seq_lens b ! k < int (max_context_len (mem_pool m))"
    and out: "(if kv_page_size (mem_alloc m) = 1 then alloc_token_slots (length (reqs b)) m
        else do {
          lst \<leftarrow> res_option (gather_cells (req_to_token (mem_pool m)) (req_pool_indices b) (map (\<lambda>s. s - 2) (map (\<lambda>s. s + 1) (seq_lens b))));
          alloc_paged_token_slots_decode other (map (\<lambda>s. s + 1) (seq_lens b)) lst m
        }) = Some (out, m1)" "length out = length (reqs b)" "mem_pool m1 = mem_pool m"
  shows "\<exists>b' p. prepare_for_decode other b m = Some (b', m1\<lparr>mem_pool := p\<rparr>) \<and> out_cache_loc b' = Some out \<and> batch_ok b'
     \<and> reqs b' = reqs b \<and> req_pool_indices b' = req_pool_indices b \<and> seq_lens b' = map (\<lambda>s. s + 1) (seq_lens b)
     \<and> input_ids b' = batch_output_ids b
     \<and> (\<forall>k<length (reqs b). pool_row (req_pool_indices b ! k) p
          = (pool_row (req_pool_indices b ! k) (mem_pool m))[nat (seq_lens b ! k) := out ! k])"
proof -
  have lens: "length (req_pool_indices b) = length (reqs b)" "length (seq_lens b) = length (reqs b)"
    using ok(1) by (auto simp: batch_ok_def)
  obtain p where p: "write_cells (req_pool_indices b) (seq_lens b) out (mem_pool m) = Inr p"
    "\<forall>k<length (req_pool_indices b). pool_row (req_pool_indices b ! k) p
       = (pool_row (req_pool_indices b ! k) (mem_pool m))[nat (seq_lens b ! k) := out ! k]"
    using write_cells_spec [OF ok(2) _ _ ok(3), of "seq_lens b" out] r lens out(2) by auto
  let ?b = "b\<lparr>forward_mode := Some DECODE, input_ids := batch_output_ids b, batch_output_ids := None,
      seq_lens := map (\<lambda>s. s + 1) (seq_lens b), orig_seq_lens := map (\<lambda>s. s + 1) (orig_seq_lens b),
      seq_lens_sum := seq_lens_sum b + int (length (reqs b)), out_cache_loc := Some out\<rparr>"
  have run: "prepare_for_decode other b m = Some (?b, m1\<lparr>mem_pool := p\<rparr>)"
    unfolding prepare_for_decode_def Let_def out(1) using p(1) out(3) by simp
  have "sum_list (map (\<lambda>s. s + 1) (seq_lens b)) = sum_list (seq_lens b) + int (length (reqs b))"
    unfolding lens(2) [symmetric] by (induction "seq_lens b") (simp_all add: sum_list_addf sum_list_triv)
  then have "batch_ok ?b" using ok(1) by (simp add: batch_ok_def)
  then show ?thesis unfolding run using p(2) lens(1) by (intro exI [of _ ?b] exI [of _ p]) simp
qed

lemma decode_run:
  assumes r: "decode_ready b m" and n: "int (length (reqs b)) \<le> int (size (kv_pool (mem_alloc m))) + tree_evictable (mem_tree m)"
  shows "\<exists>b' m' out. prepare_for_decode other b m = Some (b', m') \<and> out_cache_loc b' = Some out \<and> batch_ok b' \<and> mem_ok m'
     \<and> reqs b' = reqs b \<and> req_pool_indices b' = req_pool_indices b \<and> seq_lens b' = map (\<lambda>s. s + 1) (seq_lens b)
     \<and> input_ids b' = batch_output_ids b
     \<and> mset out + kv_pool (mem_alloc m') + tree_slots (mem_tree m') = kv_pool (mem_alloc m) + tree_slots (mem_tree m)
     \<and> (\<forall>k<length (reqs b). pool_row (req_pool_indices b ! k) (mem_pool m')
          = (pool_row (req_pool_indices b ! k) (mem_pool m))[nat (seq_lens b ! k) := out ! k])"
proof -
  have ok: "batch_ok b" "mem_ok m" "rect (max_context_len (mem_pool m)) (req_to_token (mem_pool m))" "distinct (req_pool_indices b)"
    and rows: "\<forall>k<length (reqs b). row_ok (req_pool_indices b ! k) (mem_pool m)
        \<and> 0 \<le> seq_lens b ! k \<and> seq_lens b ! k < int (max_context_len (mem_pool m))"
    using r by (auto simp: decode_ready_def)
  have ps: "kv_page_size (mem_alloc m) = 1" using ok(2) by (cases "mem_alloc m") (simp_all add: mem_ok_def)
  obtain out m1 where out: "alloc_token_slots (length (reqs b)) m = Some (out, m1)" "length out = length (reqs b)" "mem_ok m1"
    "mem_pool m1 = mem_pool m"
    "mset out + kv_pool (mem_alloc m1) + tree_slots (mem_tree m1) = kv_pool (mem_alloc m) + tree_slots (mem_tree m)"
    using alloc_token_slots_spec [OF ok(2) n] by (elim exE conjE) (rule that)
  have "\<exists>b' p. prepare_for_decode other b m = Some (b', m1\<lparr>mem_pool := p\<rparr>) \<and> out_cache_loc b' = Some out \<and> batch_ok b'
     \<and> reqs b' = reqs b \<and> req_pool_indices b' = req_pool_indices b \<and> seq_lens b' = map (\<lambda>s. s + 1) (seq_lens b)
     \<and> input_ids b' = batch_output_ids b
     \<and> (\<forall>k<length (reqs b). pool_row (req_pool_indices b ! k) p
          = (pool_row (req_pool_indices b ! k) (mem_pool m))[nat (seq_lens b ! k) := out ! k])"
    by (rule decode_write [OF ok(1,3,4) rows _ out(2,4)]) (simp add: ps out(1))
  then obtain b' p where "prepare_for_decode other b m = Some (b', m1\<lparr>mem_pool := p\<rparr>)" "out_cache_loc b' = Some out" "batch_ok b'"
     "reqs b' = reqs b" "req_pool_indices b' = req_pool_indices b" "seq_lens b' = map (\<lambda>s. s + 1) (seq_lens b)"
     "input_ids b' = batch_output_ids b"
     "\<forall>k<length (reqs b). pool_row (req_pool_indices b ! k) p
          = (pool_row (req_pool_indices b ! k) (mem_pool m))[nat (seq_lens b ! k) := out ! k]"
    by (elim exE conjE) (rule that)
  then show ?thesis using out(3,5) by (intro exI [of _ b'] exI [of _ "m1\<lparr>mem_pool := p\<rparr>"] exI [of _ out]) (simp add: mem_ok_def)
qed

section \<open>Retraction\<close>

definition chunk_mem :: "kv_mem \<Rightarrow> bool" where
  "chunk_mem m \<longleftrightarrow> kv_ok None (mem_alloc m) \<and> (\<exists>c. mem_tree m = ChunkTree c)"

definition has_row :: "req_to_token_pool \<Rightarrow> req \<Rightarrow> int \<Rightarrow> bool" where
  \<comment> \<open>the request owns a row that holds at least one token\<close>
  "has_row p r n \<longleftrightarrow> (\<exists>j. req_pool_idx r = Some j \<and> row_ok j p \<and> 1 \<le> n \<and> n \<le> int (length (pool_row j p)))"

lemma retract_req_chunk:
  assumes m: "chunk_mem m" and r: "has_row (mem_pool m) r n"
  shows "\<exists>m'. retract_req sa n left r m = Some m' \<and> chunk_mem m' \<and> req_to_token (mem_pool m') = req_to_token (mem_pool m)
     \<and> max_context_len (mem_pool m') = max_context_len (mem_pool m) \<and> 0 < size (kv_pool (mem_alloc m')) \<and> kv_pool (mem_alloc m) \<subseteq># kv_pool (mem_alloc m')"
proof -
  obtain j where j: "req_pool_idx r = Some j" "row_ok j (mem_pool m)" "1 \<le> n" "n \<le> int (length (pool_row j (mem_pool m)))"
    using r by (auto simp: has_row_def)
  let ?xs = "take (nat n) (pool_row j (mem_pool m))"
  have rd: "read_row j n (mem_pool m) = Inr ?xs" using read_row_ok [OF j(2)] j(3) by simp
  obtain a where a: "kv_free ?xs (mem_alloc m) = Inr a" "kv_ok None a" "kv_pool a = mset ?xs + kv_pool (mem_alloc m)"
    using kv.free_law [of None "mem_alloc m" ?xs] m by (auto simp: chunk_mem_def)
  have "0 < length ?xs" using j(3,4) by auto
  then show ?thesis using m j(1) rd a by (auto simp: retract_req_def chunk_mem_def free_row_def)
qed

lemma retract_loop_chunk:
  assumes "chunk_mem m" "stack \<noteq> []" "\<forall>i\<in>set stack. has_row (mem_pool m) (rs ! i) (sl ! i)"
    "0 < size (kv_pool (mem_alloc m)) \<or> 2 \<le> length stack"
    "\<not> speculative_algorithm sa"
  shows "\<exists>gone kept m'. retract_loop sa rs sl first_iter stack retracted m
        = Some (kept, retracted @ map (\<lambda>i. reset_for_retract (rs ! i)) gone, m')
     \<and> stack = gone @ kept \<and> kept \<noteq> [] \<and> (first_iter \<longrightarrow> 2 \<le> length stack \<longrightarrow> gone \<noteq> []) \<and> chunk_mem m'
     \<and> kv_pool (mem_alloc m) \<subseteq># kv_pool (mem_alloc m') \<and> 0 < size (kv_pool (mem_alloc m'))
     \<and> (get_required_tokens sa (int (length kept)) \<le> int (size (kv_pool (mem_alloc m'))) \<or> length kept = 1)
     \<and> req_to_token (mem_pool m') = req_to_token (mem_pool m) \<and> max_context_len (mem_pool m') = max_context_len (mem_pool m)"
  using assms
proof (induction sa rs sl first_iter stack retracted m rule: retract_loop.induct)
  case (2 sa rs sl first_iter idx retracted m)
  then show ?case using tok_available [of "mem_alloc m"] by (auto simp: chunk_mem_def intro!: exI [of _ "[]"])
next
  case (3 sa rs sl first_iter idx idx' rest retracted m)
  have av: "kv_available_size (mem_alloc m) = size (kv_pool (mem_alloc m))"
    using "3.prems"(1) by (intro tok_available) (simp add: chunk_mem_def)
  show ?case
  proof (cases "int (kv_available_size (mem_alloc m)) < get_required_tokens sa (int (length rest) + 2) \<or> first_iter")
    case True
    obtain m1 where m1: "retract_req sa (sl ! idx) (Suc (length rest)) (rs ! idx) m = Some m1" "chunk_mem m1"
      "req_to_token (mem_pool m1) = req_to_token (mem_pool m)" "0 < size (kv_pool (mem_alloc m1))"
      "kv_pool (mem_alloc m) \<subseteq># kv_pool (mem_alloc m1)" "max_context_len (mem_pool m1) = max_context_len (mem_pool m)"
      using retract_req_chunk [OF "3.prems"(1), of "rs ! idx" "sl ! idx" sa "Suc (length rest)"] "3.prems"(3) by auto
    have rows: "\<forall>i\<in>set (idx' # rest). has_row (mem_pool m1) (rs ! i) (sl ! i)"
      using "3.prems"(3) m1(3) by (auto simp: has_row_def row_ok_def pool_row_def)
    from "3.IH" [OF True m1(1,2) _ rows _ "3.prems"(5)] m1(4)
    obtain gone kept m' where r: "retract_loop sa rs sl False (idx' # rest) (retracted @ [reset_for_retract (rs ! idx)]) m1
        = Some (kept, (retracted @ [reset_for_retract (rs ! idx)]) @ map (\<lambda>i. reset_for_retract (rs ! i)) gone, m')"
      "idx' # rest = gone @ kept" "kept \<noteq> []" "chunk_mem m'" "kv_pool (mem_alloc m1) \<subseteq># kv_pool (mem_alloc m')"
      "0 < size (kv_pool (mem_alloc m'))"
      "get_required_tokens sa (int (length kept)) \<le> int (size (kv_pool (mem_alloc m'))) \<or> length kept = 1"
      "req_to_token (mem_pool m') = req_to_token (mem_pool m1)" "max_context_len (mem_pool m') = max_context_len (mem_pool m1)"
      by (auto simp del: split_paired_Ex)
    have run: "retract_loop sa rs sl first_iter (idx # idx' # rest) retracted m
        = Some (kept, retracted @ map (\<lambda>i. reset_for_retract (rs ! i)) (idx # gone), m')"
      unfolding retract_loop.simps(3) if_P [OF True] m1(1) using r(1) by simp
    show ?thesis
      by (rule exI [of _ "idx # gone"], rule exI [of _ kept], rule exI [of _ m'])
        (use run r(2-9) m1(3,6) subset_mset.order_trans [OF m1(5) r(5)] in simp)
  next
    case False
    then have enough: "get_required_tokens sa (int (length rest) + 2) \<le> int (size (kv_pool (mem_alloc m)))" by (simp add: av)
    moreover have "0 < get_required_tokens sa (int (length rest) + 2)"
      using "3.prems"(5) by (simp add: get_required_tokens_def retract_decode_steps_def)
    ultimately show ?thesis
      using False "3.prems"(1) by (intro exI [of _ "[]"] exI [of _ "idx # idx' # rest"] exI [of _ m]) (auto simp: add.commute)
  qed
qed simp

lemma retract_order_perm: "mset (retract_order spec rs) = mset [0..<length rs]"
  by (simp add: retract_order_def)

lemma filter_batch_some:
  assumes "batch_ok b" "batch_output_ids b = Some outs" "\<And>k. k \<in> set ks \<Longrightarrow> k < length (reqs b)" "ks \<noteq> []"
    "length ks \<noteq> length (reqs b)"
  shows "\<exists>b'. filter_batch ex (Some (map int ks)) b = Some b' \<and> batch_ok b' \<and> reqs b' = map ((!) (reqs b)) ks"
  using filter_batch_gather [OF assms] by blast

lemma estimate_some:
  assumes "rs \<noteq> []" "\<forall>r\<in>set rs. \<exists>n>0. max_new_tokens (req_sampling_params r) = Some n"
  shows "\<exists>q. new_estimate_ratio rs = Some q \<and> 0 < q \<and> q \<le> 1"
proof -
  let ?lim = "map (\<lambda>r. max_new_tokens (req_sampling_params r)) rs"
  have "None \<notin> set ?lim" using assms(2) by fastforce
  moreover have pos: "0 < sum_list (map the ?lim)"
  proof -
    obtain r rs' where r: "rs = r # rs'" using assms(1) by (cases rs) auto
    have "0 \<le> sum_list (map the (map (\<lambda>r. max_new_tokens (req_sampling_params r)) rs'))"
      using assms(2) unfolding r by (intro sum_list_nonneg) fastforce
    moreover have "0 < the (max_new_tokens (req_sampling_params r))" using assms(2) unfolding r by force
    ultimately show ?thesis unfolding r by simp
  qed
  moreover have num: "0 < sum_list (map (\<lambda>r. int (length (output_ids r))) rs) + retract_decode_steps * int (length rs)"
    using assms(1) unfolding sum_list_int by (simp add: retract_decode_steps_def add_nonneg_pos)
  moreover have "0 < rat_of_int (sum_list (map (\<lambda>r. int (length (output_ids r))) rs) + retract_decode_steps * int (length rs))
      / of_int (sum_list (map the ?lim))"
    by (rule divide_pos_pos) (use pos num in \<open>simp_all only: of_int_0_less_iff\<close>)
  ultimately show ?thesis unfolding new_estimate_ratio_def Let_def by (simp del: map_map of_int_add of_int_mult)
qed

section \<open>Properties\<close>

definition sample_req :: "int list \<Rightarrow> req" where
  "sample_req ids = new_req [] [] ids default_params False 0 False None None None None (Some 100)
     \<lparr>fill_ids := ids, extend_input_len := int (length ids)\<rparr>"

definition sample_batch :: schedule_batch where
  \<comment> \<open>two running requests with one token each\<close>
  "sample_batch = (init_new [(sample_req [5])\<lparr>rid := str ''a'', req_pool_idx := Some 0\<rparr>,
       (sample_req [6])\<lparr>rid := str ''b'', req_pool_idx := Some 1\<rparr>] False)
     \<lparr>req_pool_indices := [0, 1], seq_lens := [1, 1], orig_seq_lens := [1, 1], seq_lens_sum := 2, batch_output_ids := Some [9, 9]\<rparr>"

definition chunk_memory :: "nat \<Rightarrow> nat \<Rightarrow> nat \<Rightarrow> kv_mem" where
  "chunk_memory n rs w = \<lparr>mem_pool = init_req_pool rs w, mem_alloc = TokAlloc (tok_init n False),
     mem_tree = ChunkTree \<lparr>chunk_page_size = 1\<rparr>\<rparr>"

lemma chunk_memory_ok:
  "mem_ok (chunk_memory n rs w)" "chunk_mem (chunk_memory n rs w)" "rows_ok (mem_pool (chunk_memory n rs w))"
  "size (kv_pool (mem_alloc (chunk_memory n rs w))) = n" "tree_evictable (mem_tree (chunk_memory n rs w)) = 0"
  by (auto simp: chunk_memory_def mem_ok_def chunk_mem_def tok_ok_def tok_init_def tok_clear_def rows_ok_def rect_def row_ok_def
      init_req_pool_def distinct_map tree_evictable_def pool_pages_def)

lemma sample_batch_ok:
  "batch_ok sample_batch" "decode_ready sample_batch (chunk_memory n 2 8)" "batch_output_ids sample_batch = Some [9, 9]"
  by (simp_all add: sample_batch_def init_new_def batch_ok_def decode_ready_def chunk_memory_ok)
    (auto simp: sample_req_def new_req_def chunk_memory_def init_req_pool_def rect_def row_ok_def less_Suc_eq batch_ok_def)

text \<open>
  C14: removing finished and excluded requests from a batch whose lists are aligned returns, keeps
  exactly the other requests in their order, and leaves the lists aligned with them, unless
  none is left: then only the list of requests is cleared.
\<close>

theorem filter_batch_invariant:
  assumes "batch_ok b" "batch_output_ids b = Some outs"
  shows "\<exists>b'. filter_batch excluded None b = Some b'
     \<and> reqs b' = filter (\<lambda>r. \<not> finished r \<and> rid r \<notin> set excluded) (reqs b)
     \<and> (reqs b' \<noteq> [] \<longrightarrow> batch_ok b')"
proof -
  let ?ks = "kept_indices excluded b"
  have keep: "filter_batch excluded None b = filter_batch excluded (Some (map int ?ks)) b"
    by (simp add: filter_batch_def keep_unfinished_def kept_indices_def)
  have ks: "k < length (reqs b)" if "k \<in> set ?ks" for k using that by (auto simp: kept_indices_def)
  consider "?ks = []" | "?ks \<noteq> []" "length ?ks = length (reqs b)" | "?ks \<noteq> []" "length ?ks \<noteq> length (reqs b)" by blast
  then show ?thesis
  proof cases
    case 1
    then have "filter_batch excluded (Some (map int ?ks)) b = Some (b\<lparr>reqs := []\<rparr>)" by (simp add: filter_batch_def)
    then show ?thesis using 1 unfolding keep kept_reqs [symmetric] by simp
  next
    case 2
    then have "length (filter (\<lambda>r. \<not> finished r \<and> rid r \<notin> set excluded) (reqs b)) = length (reqs b)"
      unfolding kept_reqs [symmetric] by simp
    then have "\<forall>r\<in>set (reqs b). \<not> finished r \<and> rid r \<notin> set excluded" by (rule filter_full)
    then have "filter (\<lambda>r. \<not> finished r \<and> rid r \<notin> set excluded) (reqs b) = reqs b" by (rule filter_True)
    moreover have "filter_batch excluded (Some (map int ?ks)) b = Some b" using 2 by (simp add: filter_batch_def)
    ultimately show ?thesis using assms(1) unfolding keep by simp
  next
    case 3
    show ?thesis using filter_batch_gather [OF assms ks 3] unfolding keep kept_reqs by blast
  qed
qed

theorem filter_batch_invariant_witness:
  "\<exists>b'. filter_batch [str ''b''] None sample_batch = Some b' \<and> map rid (reqs b') = [str ''a''] \<and> batch_ok b'"
proof -
  have "batch_output_ids sample_batch = Some [9, 9]" by (simp add: sample_batch_def)
  from filter_batch_invariant [OF sample_batch_ok(1) this, of "[str ''b'']"] show ?thesis by (auto simp: sample_batch_def finished_def sample_req_def new_req_def str_def init_new_def)
qed

text \<open>
  C15: merging two batches with aligned lists, of which both or neither carries output tokens, returns
  a batch with the requests of both, in order, and aligned lists.
\<close>

theorem merge_batch_invariant:
  assumes "batch_ok b" "batch_ok b2" "batch_output_ids b = None \<longleftrightarrow> batch_output_ids b2 = None"
  shows "\<exists>b'. merge_batch b b2 = Some b' \<and> batch_ok b' \<and> reqs b' = reqs b @ reqs b2
     \<and> req_pool_indices b' = req_pool_indices b @ req_pool_indices b2 \<and> seq_lens b' = seq_lens b @ seq_lens b2"
  using assms unfolding merge_batch_def merge_logprobs_def
  by (cases "batch_output_ids b"; cases "batch_output_ids b2"; cases "batch_return_logprob b"; cases "batch_return_logprob b2")
    (auto simp: batch_ok_def)

theorem merge_batch_invariant_witness:
  "\<exists>b'. merge_batch sample_batch sample_batch = Some b' \<and> batch_ok b' \<and> length (reqs b') = 4"
  using merge_batch_invariant [OF sample_batch_ok(1) sample_batch_ok(1)] by (auto simp: sample_batch_def init_new_def)

text \<open>
  C30: with the token allocator, allocating locations for a batch succeeds exactly when the free
  slots and the evictable part of the tree suffice: the tree is evicted as far as needed, and the
  out-of-memory error is raised only when nothing evictable could help. On success the locations
  come out of the free slots and the tree, none is lost, and no locked node is evicted.
\<close>

theorem alloc_token_slots_iff:
  assumes "mem_ok m"
  shows "(int n \<le> int (size (kv_pool (mem_alloc m))) + tree_evictable (mem_tree m) \<longrightarrow>
      (\<exists>out m'. alloc_token_slots n m = Some (out, m') \<and> length out = n \<and> mem_ok m' \<and> keeps_locked (mem_tree m) (mem_tree m')
         \<and> mset out + kv_pool (mem_alloc m') + tree_slots (mem_tree m') = kv_pool (mem_alloc m) + tree_slots (mem_tree m)))
    \<and> (\<not> int n \<le> int (size (kv_pool (mem_alloc m))) + tree_evictable (mem_tree m) \<longrightarrow> alloc_token_slots n m = None)"
proof (intro conjI impI)
  show "\<exists>out m'. alloc_token_slots n m = Some (out, m') \<and> length out = n \<and> mem_ok m' \<and> keeps_locked (mem_tree m) (mem_tree m')
      \<and> mset out + kv_pool (mem_alloc m') + tree_slots (mem_tree m') = kv_pool (mem_alloc m) + tree_slots (mem_tree m)"
    if n: "int n \<le> int (size (kv_pool (mem_alloc m))) + tree_evictable (mem_tree m)"
    using alloc_token_slots_spec [OF assms n] by (elim exE conjE) (intro exI conjI; assumption)
  show "alloc_token_slots n m = None" if "\<not> int n \<le> int (size (kv_pool (mem_alloc m))) + tree_evictable (mem_tree m)"
    by (rule alloc_token_slots_fails [OF assms that])
qed

theorem alloc_token_slots_iff_witness:
  "(\<exists>out m'. alloc_token_slots 3 (chunk_memory 4 2 8) = Some (out, m') \<and> length out = 3) \<and> alloc_token_slots 5 (chunk_memory 4 2 8) = None"
  using alloc_token_slots_iff [OF chunk_memory_ok(1), of 3 4 2 8] alloc_token_slots_iff [OF chunk_memory_ok(1), of 5 4 2 8]
  by (simp add: chunk_memory_ok(4,5)) blast

lemma retract_run:
  assumes "batch_ok b" "batch_output_ids b = Some outs" "chunk_mem m" "\<not> speculative_algorithm sa" "2 \<le> length (reqs b)"
    "\<forall>k<length (reqs b). has_row (mem_pool m) (reqs b ! k) (seq_lens b ! k)"
    "\<forall>r\<in>set (reqs b). \<exists>n>0. max_new_tokens (req_sampling_params r) = Some n"
  shows "\<exists>gone ks ratio b' m'. retract_decode sa b m = Some (map (\<lambda>i. reset_for_retract (reqs b ! i)) gone, ratio, b', m')
     \<and> filter_batch [] (Some (map int ks)) b = Some b' \<and> reqs b' = map ((!) (reqs b)) ks \<and> gone \<noteq> [] \<and> ks \<noteq> [] \<and> mset gone + mset ks = mset [0..<length (reqs b)]
     \<and> batch_ok b' \<and> chunk_mem m' \<and> kv_pool (mem_alloc m) \<subseteq># kv_pool (mem_alloc m') \<and> 0 < size (kv_pool (mem_alloc m'))
     \<and> (20 * length ks \<le> size (kv_pool (mem_alloc m')) \<or> length ks = 1)
     \<and> req_to_token (mem_pool m') = req_to_token (mem_pool m) \<and> max_context_len (mem_pool m') = max_context_len (mem_pool m)
     \<and> 0 < ratio \<and> ratio \<le> 1"
proof -
  let ?rs = "reqs b" and ?f = "\<lambda>i. reset_for_retract (reqs b ! i)"
  define order where "order = rev (retract_order (speculative_algorithm sa) ?rs)"
  have mo: "mset order = mset [0..<length ?rs]" by (simp add: order_def retract_order_perm)
  have so: "set order = {0..<length ?rs}" using arg_cong [OF mo, of set_mset] by simp
  have lo: "length order = length ?rs" using arg_cong [OF mo, of size] by simp
  have pre: "order \<noteq> []" "\<forall>i\<in>set order. has_row (mem_pool m) (?rs ! i) (seq_lens b ! i)" "0 < size (kv_pool (mem_alloc m)) \<or> 2 \<le> length order"
    using assms(5,6) lo so by auto
  obtain gone kept m' where l: "retract_loop sa ?rs (seq_lens b) True order [] m = Some (kept, [] @ map ?f gone, m')"
    "order = gone @ kept" "kept \<noteq> []" "True \<longrightarrow> 2 \<le> length order \<longrightarrow> gone \<noteq> []" "chunk_mem m'"
    "kv_pool (mem_alloc m) \<subseteq># kv_pool (mem_alloc m')" "0 < size (kv_pool (mem_alloc m'))"
    "get_required_tokens sa (int (length kept)) \<le> int (size (kv_pool (mem_alloc m'))) \<or> length kept = 1"
    "req_to_token (mem_pool m') = req_to_token (mem_pool m)" "max_context_len (mem_pool m') = max_context_len (mem_pool m)"
    using retract_loop_chunk [OF assms(3) pre assms(4), where first_iter = True and retracted = "[]"] by (elim exE conjE) (rule that)
  have gone: "gone \<noteq> []" using l(4) lo assms(5) by simp
  have k: "\<And>k. k \<in> set (rev kept) \<Longrightarrow> k < length ?rs" "rev kept \<noteq> []" "length (rev kept) \<noteq> length ?rs"
    using so l(2,3) lo gone by auto
  obtain b' where b': "filter_batch [] (Some (map int (rev kept))) b = Some b'" "batch_ok b'" "reqs b' = map ((!) ?rs) (rev kept)"
    using filter_batch_some [OF assms(1,2) k] by blast
  have ne: "reqs b' \<noteq> []" "set (reqs b') \<subseteq> set ?rs" using b'(3) l(3) k(1) by auto
  obtain q where q: "new_estimate_ratio (reqs b') = Some q" "0 < q" "q \<le> 1" using estimate_some [OF ne(1)] ne(2) assms(7) by blast
  have run: "retract_decode sa b m = Some (map ?f gone, q, b', m')"
    using l(1) b'(1) q(1) unfolding retract_decode_def order_def Let_def by simp
  have "20 * length (rev kept) \<le> size (kv_pool (mem_alloc m')) \<or> length (rev kept) = 1"
    using l(8) assms(4) by (auto simp: get_required_tokens_def retract_decode_steps_def)
  moreover have "mset gone + mset (rev kept) = mset [0..<length ?rs]" using mo by (simp add: l(2))
  ultimately show ?thesis using run b' k(2) gone l(5-7,9,10) q(2,3)
    by - (rule exI [of _ gone], rule exI [of _ "rev kept"], rule exI [of _ q], rule exI [of _ b'], rule exI [of _ m'], simp)
qed

lemma retract_single:
  \<comment> \<open>the last request is never retracted; without a free slot the assertion fails\<close>
  assumes "chunk_mem m" "length (reqs b) = 1" "\<forall>r\<in>set (reqs b). \<exists>n>0. max_new_tokens (req_sampling_params r) = Some n"
  shows "\<exists>q. retract_decode sa b m = (if size (kv_pool (mem_alloc m)) = 0 then None else Some ([], q, b, m)) \<and> 0 < q \<and> q \<le> 1"
proof -
  have o: "retract_order spec (reqs b) = [0]" for spec using assms(2) by (simp add: retract_order_def)
  have av: "kv_available_size (mem_alloc m) = size (kv_pool (mem_alloc m))" using assms(1) by (intro tok_available) (simp add: chunk_mem_def)
  have f: "filter_batch [] (Some [0]) b = Some b" using assms(2) by (simp add: filter_batch_def)
  have "reqs b \<noteq> []" using assms(2) by auto
  from estimate_some [OF this assms(3)] obtain q where "new_estimate_ratio (reqs b) = Some q" "0 < q" "q \<le> 1" by blast
  then show ?thesis by (intro exI [of _ q]) (simp add: retract_decode_def o av f)
qed

text \<open>
  C10: retraction ends, for the token allocator (page size 1) over the chunk cache and without
  speculative decoding, when every running request owns its row and has a positive limit of new tokens. A
  single request is never retracted: with a free slot the batch and the memory stay as they are,
  without one the assertion fails. With more requests it takes requests from the end of its order,
  frees their slots and rows, and returns when the free slots cover the next steps of the remaining requests
  or one request is left. At least one request is retracted and at least one remains; together
  they are the requests of the batch, each once, those retracted reset for a new prefill. No free slot
  is lost, and the new estimate of the output ratio lies in \<open>(0, 1]\<close>.
\<close>

theorem retract_decode_chunk:
  assumes "batch_ok b" "batch_output_ids b = Some outs" "chunk_mem m" "\<not> speculative_algorithm sa" "reqs b \<noteq> []"
    "\<forall>k<length (reqs b). has_row (mem_pool m) (reqs b ! k) (seq_lens b ! k)"
    "\<forall>r\<in>set (reqs b). \<exists>n>0. max_new_tokens (req_sampling_params r) = Some n"
  shows "if length (reqs b) = 1 \<and> kv_available_size (mem_alloc m) = 0 then retract_decode sa b m = None
    else \<exists>retracted ratio b' m'. retract_decode sa b m = Some (retracted, ratio, b', m') \<and> reqs b' \<noteq> [] \<and> batch_ok b'
     \<and> (if length (reqs b) = 1 then retracted = [] \<and> b' = b \<and> m' = m else retracted \<noteq> [])
     \<and> mset (map reset_for_retract (reqs b')) + mset retracted = mset (map reset_for_retract (reqs b))
     \<and> (20 * length (reqs b') \<le> kv_available_size (mem_alloc m') \<or> length (reqs b') = 1)
     \<and> kv_pool (mem_alloc m) \<subseteq># kv_pool (mem_alloc m') \<and> 0 < ratio \<and> ratio \<le> 1"
proof (cases "length (reqs b) = 1")
  case True
  have "kv_available_size (mem_alloc m) = size (kv_pool (mem_alloc m))"
    using assms(3) by (intro tok_available) (simp add: chunk_mem_def)
  then show ?thesis using retract_single [OF assms(3) True assms(7), of sa] True assms(1,5) by auto
next
  case False
  let ?rs = "reqs b" and ?f = "\<lambda>i. reset_for_retract (reqs b ! i)"
  have two: "2 \<le> length ?rs" using False assms(5) by (cases ?rs rule: remdups_adj.cases) auto
  obtain gone ks ratio b' m' where r: "retract_decode sa b m = Some (map ?f gone, ratio, b', m')"
    "reqs b' = map ((!) ?rs) ks" "gone \<noteq> []" "ks \<noteq> []" "mset gone + mset ks = mset [0..<length ?rs]" "batch_ok b'" "chunk_mem m'"
    "kv_pool (mem_alloc m) \<subseteq># kv_pool (mem_alloc m')" "20 * length ks \<le> size (kv_pool (mem_alloc m')) \<or> length ks = 1" "0 < ratio" "ratio \<le> 1"
    using retract_run [OF assms(1-4) two assms(6,7)] by (elim exE conjE) (rule that)
  have "mset (map reset_for_retract (reqs b')) + mset (map ?f gone) = image_mset ?f (mset gone + mset ks)"
    unfolding r(2) by (simp add: multiset.map_comp o_def)
  also have "\<dots> = mset (map reset_for_retract ?rs)"
    unfolding r(5) mset_map [symmetric] using map_nth [of ?rs] by (metis (no_types, lifting) comp_apply list.map_comp map_eq_conv)
  finally have "mset (map reset_for_retract (reqs b')) + mset (map ?f gone) = mset (map reset_for_retract ?rs)" .
  moreover have "kv_available_size (mem_alloc m') = size (kv_pool (mem_alloc m'))"
    using r(7) by (intro tok_available) (simp add: chunk_mem_def)
  ultimately have "\<exists>retracted ratio b' m'. retract_decode sa b m = Some (retracted, ratio, b', m') \<and> reqs b' \<noteq> [] \<and> batch_ok b' \<and> retracted \<noteq> []
     \<and> mset (map reset_for_retract (reqs b')) + mset retracted = mset (map reset_for_retract (reqs b))
     \<and> (20 * length (reqs b') \<le> kv_available_size (mem_alloc m') \<or> length (reqs b') = 1)
     \<and> kv_pool (mem_alloc m) \<subseteq># kv_pool (mem_alloc m') \<and> 0 < ratio \<and> ratio \<le> 1" using r
    by - (rule exI [of _ "map ?f gone"], rule exI [of _ ratio], rule exI [of _ b'], rule exI [of _ m'], simp)
  then show ?thesis using False by (simp only: if_False simp_thms)
qed

theorem retract_decode_chunk_witness:
  "\<exists>retracted ratio b' m'. retract_decode \<lparr>speculative_algorithm = False, speculative_eagle_topk = 0, speculative_num_steps = 0,
       speculative_num_draft_tokens = 0, server_page_size = 1\<rparr> sample_batch (chunk_memory 4 2 8) = Some (retracted, ratio, b', m')
     \<and> length (reqs b') = 1"
proof -
  let ?sa = "\<lparr>speculative_algorithm = False, speculative_eagle_topk = 0, speculative_num_steps = 0,
       speculative_num_draft_tokens = 0, server_page_size = 1\<rparr>"
  have rs: "length (reqs sample_batch) = 2" by (simp add: sample_batch_def init_new_def)
  have h: "\<forall>k<length (reqs sample_batch). has_row (mem_pool (chunk_memory 4 2 8)) (reqs sample_batch ! k) (seq_lens sample_batch ! k)"
    by (auto simp: sample_batch_def init_new_def has_row_def row_ok_def chunk_memory_def init_req_pool_def pool_row_def less_Suc_eq)
  have n: "\<forall>r\<in>set (reqs sample_batch). \<exists>n>0. max_new_tokens (req_sampling_params r) = Some n"
    by (simp add: sample_batch_def init_new_def sample_req_def new_req_def default_params_def)
  have two: "reqs sample_batch \<noteq> []" "\<not> speculative_algorithm ?sa" using rs by auto
  from retract_decode_chunk [OF sample_batch_ok(1,3) chunk_memory_ok(2) two(2,1) h n]
  obtain retracted ratio b' m' where r: "retract_decode ?sa sample_batch (chunk_memory 4 2 8) = Some (retracted, ratio, b', m')"
    "retracted \<noteq> []" "reqs b' \<noteq> []" "mset (map reset_for_retract (reqs b')) + mset retracted = mset (map reset_for_retract (reqs sample_batch))"
    by (auto simp: rs simp del: split_paired_Ex)
  have "length (reqs b') + length retracted = 2" using arg_cong [OF r(4), of size] rs by simp
  then have "length (reqs b') = 1" using r(2,3) by (cases retracted; cases "reqs b'") auto
  with r(1) show ?thesis by blast
qed

end
