(* ===== verification/Schedule_Policy.thy ===== *)
theory Schedule_Policy
  imports Batch_Correct
begin

text \<open>
  Which waiting requests are prefilled next (\<^verbatim>\<open>managers/schedule_policy.py\<close>): \<open>SchedulePolicy\<close> orders the
  waiting queue, \<open>PrefillAdder\<close> admits requests as long as the token budgets last. The environment
  variables of the module are parameters with the values of their defaults, the random shuffle is a
  parameter, and the ratio for new tokens is an exact rational number. Sliding-window memory is not modelled.
\<close>

section \<open>SchedulePolicy\<close>

datatype policy = LPM | DFS_WEIGHT | FCFS | LOF | RANDOM

definition CLIP_MAX_NEW_TOKENS :: int where
  "CLIP_MAX_NEW_TOKENS = 4096"

definition IN_BATCH_PREFIX_CACHING_CHECK_THRESHOLD :: int where
  "IN_BATCH_PREFIX_CACHING_CHECK_THRESHOLD = 32"

definition IN_BATCH_PREFIX_CACHING_DEPRIORITIZE_THRESHOLD :: int where
  "IN_BATCH_PREFIX_CACHING_DEPRIORITIZE_THRESHOLD = 32"

definition IGNORE_EOS_RESERVE_TOKENS :: int where
  "IGNORE_EOS_RESERVE_TOKENS = 1"

definition tree_disable :: "tree_cache \<Rightarrow> bool" where
  \<comment> \<open>\<open>getattr(tree_cache, "disable", True)\<close>\<close>
  "tree_disable t = (case t of RadixTree c \<Rightarrow> disable c | ChunkTree _ \<Rightarrow> True)"

definition validate_and_adjust_policy :: "text \<Rightarrow> tree_cache \<Rightarrow> policy res" where
  "validate_and_adjust_policy p tree =
     (if p = str ''lpm'' then Inr (if tree_disable tree then FCFS else LPM)
      else if p = str ''dfs-weight'' then Inr (if tree_disable tree then FCFS else DFS_WEIGHT)
      else if p = str ''fcfs'' then Inr FCFS
      else if p = str ''lof'' then Inr LOF
      else if p = str ''random'' then Inr RANDOM
      else Inl ValueError)"

definition determine_active_policy :: "policy \<Rightarrow> req list \<Rightarrow> policy" where
  "determine_active_policy p waiting_queue = (if p = LPM \<and> length waiting_queue > 128 then FCFS else p)"

definition tree_match :: "int list \<Rightarrow> tree_cache \<Rightarrow> ((int list \<times> nat option \<times> nat option \<times> nat) \<times> tree_cache) option" where
  \<comment> \<open>\<open>tree_cache.match_prefix\<close>\<close>
  "tree_match key t =
     (case t of
        RadixTree c \<Rightarrow> map_option (\<lambda>(m, c'). ((device_indices m, Some (last_device_node m),
          Some (match_result.last_host_node m), host_hit_length m), RadixTree c')) (match_prefix key c)
      | ChunkTree c \<Rightarrow> (case chunk_match_prefix key c of (xs, n, h) \<Rightarrow> Some ((xs, n, h, 0), t)))"

fun prefix_matches_loop ::
  "req list \<Rightarrow> text list \<Rightarrow> tree_cache \<Rightarrow> radix_cache \<Rightarrow> (req list \<times> text list \<times> tree_cache \<times> radix_cache) option" where
  \<comment> \<open>the values inserted into the waiting-queue tree are never read\<close>
  "prefix_matches_loop [] dep t w = Some ([], dep, t, w)"
| "prefix_matches_loop (r # rs) dep t w = do {
     (prefix_ids, r1) \<leftarrow> res_option (adjust_max_prefix_ids r);
     ((idx, n, h, hit), t1) \<leftarrow> tree_match prefix_ids t;
     let r2 = r1\<lparr>prefix_indices := idx, last_node := n, last_host_node := h, req_host_hit_length := int hit\<rparr>;
     (dep1, w1) \<leftarrow> (if int (length idx) \<le> IN_BATCH_PREFIX_CACHING_CHECK_THRESHOLD then do {
          (m, w0) \<leftarrow> match_prefix prefix_ids w;
          (if int (length (device_indices m)) \<ge> IN_BATCH_PREFIX_CACHING_DEPRIORITIZE_THRESHOLD
           then Some (dep @ [rid r], w0)
           else do { (_, w') \<leftarrow> insert_key prefix_ids (Some (replicate (length prefix_ids) 0)) w0; Some (dep, w') })
        } else Some (dep, w));
     (rs', dep2, t2, w2) \<leftarrow> prefix_matches_loop rs dep1 t1 w1;
     Some (r2 # rs', dep2, t2, w2)
   }"

definition compute_prefix_matches ::
  "req list \<Rightarrow> tree_cache \<Rightarrow> radix_cache \<Rightarrow> (req list \<times> text list \<times> tree_cache \<times> radix_cache) option" where
  "compute_prefix_matches waiting_queue t w = prefix_matches_loop waiting_queue [] t (reset w)"

definition sort_by_longest_prefix :: "req list \<Rightarrow> text list \<Rightarrow> req list" where
  \<comment> \<open>the key is minus the length of the prefix, or infinity\<close>
  "sort_by_longest_prefix waiting_queue dep =
     sort_key (\<lambda>r. if rid r \<notin> set dep then (0 :: int, - int (length (prefix_indices r))) else (1, 0)) waiting_queue"

definition sort_by_longest_output :: "req list \<Rightarrow> req list option" where
  "sort_by_longest_output waiting_queue =
     (if list_ex (\<lambda>r. max_new_tokens (req_sampling_params r) = None) waiting_queue then None
      else Some (sort_key (\<lambda>r. - the (max_new_tokens (req_sampling_params r))) waiting_queue))"

fun calc_weight :: "nat \<Rightarrow> (nat \<Rightarrow> tree_node option) \<Rightarrow> nat \<Rightarrow> (nat \<Rightarrow> int) \<Rightarrow> (nat \<Rightarrow> int) option"
and calc_weight_children :: "nat \<Rightarrow> (nat \<Rightarrow> tree_node option) \<Rightarrow> nat \<Rightarrow> nat list \<Rightarrow> (nat \<Rightarrow> int) \<Rightarrow> (nat \<Rightarrow> int) option" where
  \<comment> \<open>\<open>fuel\<close> bounds the depth of the recursion\<close>
  "calc_weight 0 N cur weight = None"
| "calc_weight (Suc fuel) N cur weight =
     (case N cur of None \<Rightarrow> None | Some tn \<Rightarrow> calc_weight_children fuel N cur (map snd (children tn)) weight)"
| "calc_weight_children fuel N cur [] weight = Some weight"
| "calc_weight_children fuel N cur (child # rest) weight =
     (case calc_weight fuel N child weight of
        None \<Rightarrow> None
      | Some w1 \<Rightarrow> calc_weight_children fuel N cur rest (w1(cur := w1 cur + w1 child)))"

fun get_dfs_priority :: "nat \<Rightarrow> (nat \<Rightarrow> tree_node option) \<Rightarrow> (nat \<Rightarrow> int) \<Rightarrow> (nat \<Rightarrow> req list) \<Rightarrow> nat \<Rightarrow> req list \<Rightarrow> req list option"
and get_dfs_children :: "nat \<Rightarrow> (nat \<Rightarrow> tree_node option) \<Rightarrow> (nat \<Rightarrow> int) \<Rightarrow> (nat \<Rightarrow> req list) \<Rightarrow> nat list \<Rightarrow> req list \<Rightarrow> req list option" where
  "get_dfs_priority 0 N prio by_node cur q = None"
| "get_dfs_priority (Suc fuel) N prio by_node cur q =
     (case N cur of
        None \<Rightarrow> None
      | Some tn \<Rightarrow>
          (case get_dfs_children fuel N prio by_node (sort_key (\<lambda>x. - prio x) (map snd (children tn))) q of
             None \<Rightarrow> None
           | Some q' \<Rightarrow> Some (q' @ by_node cur)))"
| "get_dfs_children fuel N prio by_node [] q = Some q"
| "get_dfs_children fuel N prio by_node (child # rest) q =
     (case get_dfs_priority fuel N prio by_node child q of
        None \<Rightarrow> None
      | Some q' \<Rightarrow> get_dfs_children fuel N prio by_node rest q')"

definition last_node_to_reqs :: "req list \<Rightarrow> nat \<Rightarrow> req list" where
  "last_node_to_reqs waiting_queue n = filter (\<lambda>r. last_node r = Some n) waiting_queue"

definition sort_by_dfs_weight :: "nat \<Rightarrow> req list \<Rightarrow> radix_cache \<Rightarrow> req list option" where
  "sort_by_dfs_weight fuel waiting_queue c =
     (let by_node = last_node_to_reqs waiting_queue in
      case calc_weight fuel (nodes c) (root_node c) (\<lambda>n. int (length (by_node n))) of
        None \<Rightarrow> None
      | Some weight \<Rightarrow> get_dfs_priority fuel (nodes c) weight by_node (root_node c) [])"

record schedule_policy =
  sp_policy :: policy
  sp_tree_cache :: tree_cache
  waiting_queue_radix_tree :: radix_cache

definition calc_priority ::
  "nat \<Rightarrow> (req list \<Rightarrow> req list) \<Rightarrow> req list \<Rightarrow> schedule_policy \<Rightarrow> (bool \<times> req list \<times> schedule_policy) option" where
  "calc_priority fuel shuffle waiting_queue s =
     (if sp_policy s = FCFS then Some (False, waiting_queue, s)
      else case determine_active_policy (sp_policy s) waiting_queue of
        LPM \<Rightarrow> do {
          (q, dep, t, w) \<leftarrow> compute_prefix_matches waiting_queue (sp_tree_cache s) (waiting_queue_radix_tree s);
          Some (True, sort_by_longest_prefix q dep, s\<lparr>sp_tree_cache := t, waiting_queue_radix_tree := w\<rparr>)
        }
      | DFS_WEIGHT \<Rightarrow> do {
          (q, dep, t, w) \<leftarrow> compute_prefix_matches waiting_queue (sp_tree_cache s) (waiting_queue_radix_tree s);
          c \<leftarrow> (case t of RadixTree c \<Rightarrow> Some c | ChunkTree _ \<Rightarrow> None);
          q' \<leftarrow> sort_by_dfs_weight fuel q c;
          Some (True, q', s\<lparr>sp_tree_cache := t, waiting_queue_radix_tree := w\<rparr>)
        }
      | FCFS \<Rightarrow> Some (False, waiting_queue, s)
      | LOF \<Rightarrow> map_option (\<lambda>q. (False, q, s)) (sort_by_longest_output waiting_queue)
      | RANDOM \<Rightarrow> Some (False, shuffle waiting_queue, s))"

section \<open>PrefillAdder\<close>

datatype add_req_result = CONTINUE | NO_TOKEN | OTHER

record prefill_adder =
  adder_page_size :: nat
  adder_mem :: kv_mem
  running_reqs :: "req list option"
  new_token_ratio :: rat
  rem_input_tokens :: int
  rem_chunk_tokens :: "int option"
  rem_total_token_offset :: rat
  cur_rem_token_offset :: int
  req_states :: "(rat \<times> int) list option"
  can_run_list :: "req list"
  new_chunked_req :: "req option"
  log_hit_tokens :: int
  log_input_tokens :: int

definition max_new :: "req \<Rightarrow> int option" where
  "max_new r = max_new_tokens (req_sampling_params r)"

definition new_adder ::
  "nat \<Rightarrow> kv_mem \<Rightarrow> req list option \<Rightarrow> rat \<Rightarrow> int \<Rightarrow> int option \<Rightarrow> int \<Rightarrow> prefill_adder option" where
  "new_adder ps m running ratio rem_input rem_chunk mixed =
     (if (\<exists>r\<in>set (case running of None \<Rightarrow> [] | Some rs \<Rightarrow> rs). max_new r = None) then None
      else Some \<lparr>adder_page_size = ps, adder_mem = m, running_reqs = running, new_token_ratio = ratio,
        rem_input_tokens = rem_input - mixed, rem_chunk_tokens = map_option (\<lambda>n. n - mixed) rem_chunk,
        rem_total_token_offset = of_int mixed + sum_list (map (\<lambda>r.
          of_int (min (the (max_new r) - int (length (output_ids r))) CLIP_MAX_NEW_TOKENS) * ratio)
          (case running of None \<Rightarrow> [] | Some rs \<Rightarrow> rs)),
        cur_rem_token_offset = mixed, req_states = None, can_run_list = [], new_chunked_req = None,
        log_hit_tokens = 0, log_input_tokens = 0\<rparr>)"

definition available_and_evictable :: "prefill_adder \<Rightarrow> int" where
  "available_and_evictable a =
     int (kv_available_size (mem_alloc (adder_mem a))) + tree_evictable (mem_tree (adder_mem a))"

definition rem_total_tokens :: "prefill_adder \<Rightarrow> rat" where
  "rem_total_tokens a = of_int (available_and_evictable a) - rem_total_token_offset a"

definition cur_rem_tokens :: "prefill_adder \<Rightarrow> int" where
  "cur_rem_tokens a = available_and_evictable a - cur_rem_token_offset a"

definition ceil_paged_tokens :: "int \<Rightarrow> prefill_adder \<Rightarrow> int" where
  "ceil_paged_tokens tokens a = - ((- tokens) div int (adder_page_size a)) * int (adder_page_size a)"

definition budget_state :: "prefill_adder \<Rightarrow> add_req_result" where
  "budget_state a =
     (if rem_total_tokens a \<le> 0 \<or> cur_rem_tokens a \<le> 0 then NO_TOKEN
      else if rem_input_tokens a \<le> 0 \<or> (case rem_chunk_tokens a of None \<Rightarrow> False | Some n \<Rightarrow> n \<le> 0) then OTHER
      else CONTINUE)"

definition update_prefill_budget :: "int \<Rightarrow> int \<Rightarrow> int \<Rightarrow> prefill_adder \<Rightarrow> prefill_adder" where
  "update_prefill_budget prefix_len ext mnt a =
     (let n = ceil_paged_tokens ext a
      in a\<lparr>rem_total_token_offset := rem_total_token_offset a + of_int (n + mnt),
           cur_rem_token_offset := cur_rem_token_offset a + n, rem_input_tokens := rem_input_tokens a - n,
           rem_chunk_tokens := map_option (\<lambda>c. c - n) (rem_chunk_tokens a),
           log_hit_tokens := log_hit_tokens a + prefix_len, log_input_tokens := log_input_tokens a + n\<rparr>)"

definition add_chunked_req :: "req \<Rightarrow> prefill_adder \<Rightarrow> (req option \<times> req \<times> prefill_adder) option" where
  "add_chunked_req r a = do {
     chunk \<leftarrow> rem_chunk_tokens a;
     let truncated = (extend_input_len r > chunk);
     mnt \<leftarrow> (if truncated then Some 0 else map_option (\<lambda>n. min n CLIP_MAX_NEW_TOKENS) (max_new r));
     let ext = min (extend_input_len r) chunk;
     let r1 = r\<lparr>extend_input_len := ext, fill_ids := py_take (int (length (prefix_indices r)) + ext) (fill_ids r)\<rparr>;
     let a1 = update_prefill_budget 0 ext mnt (a\<lparr>can_run_list := can_run_list a @ [r1]\<rparr>);
     Some (if truncated then Some r1 else None, r1, a1)
   }"

definition tree_inc_lock :: "nat option \<Rightarrow> tree_cache \<Rightarrow> tree_cache option" where
  "tree_inc_lock n t =
     (case t of
        RadixTree c \<Rightarrow> (case n of None \<Rightarrow> None | Some x \<Rightarrow> map_option (RadixTree \<circ> snd) (inc_lock_ref x c))
      | ChunkTree c \<Rightarrow> Some (ChunkTree (snd (chunk_inc_lock_ref n c))))"

definition tree_dec_lock :: "nat option \<Rightarrow> tree_cache \<Rightarrow> tree_cache option" where
  "tree_dec_lock n t =
     (case t of
        RadixTree c \<Rightarrow> (case n of None \<Rightarrow> None | Some x \<Rightarrow> map_option (RadixTree \<circ> snd) (dec_lock_ref x c))
      | ChunkTree c \<Rightarrow> Some (ChunkTree (snd (chunk_dec_lock_ref n c))))"

definition with_tree :: "tree_cache \<Rightarrow> prefill_adder \<Rightarrow> prefill_adder" where
  "with_tree t a = a\<lparr>adder_mem := (adder_mem a)\<lparr>mem_tree := t\<rparr>\<rparr>"

abbreviation adder_tree :: "prefill_adder \<Rightarrow> tree_cache" where
  "adder_tree a \<equiv> mem_tree (adder_mem a)"

fun insert_index :: "rat \<Rightarrow> (rat \<times> int) list \<Rightarrow> nat" where
  \<comment> \<open>the loop index at which \<open>add_req_state\<close> inserts: where it breaks, or the last index\<close>
  "insert_index tokens_left (s # s' # ss) = (if tokens_left \<le> fst s then 0 else Suc (insert_index tokens_left (s' # ss)))"
| "insert_index tokens_left _ = 0"

definition insert_state :: "rat \<times> int \<Rightarrow> (rat \<times> int) list \<Rightarrow> (rat \<times> int) list" where
  "insert_state s ss = (let i = insert_index (fst s) ss in take i ss @ [s] @ drop i ss)"

definition req_state :: "rat \<Rightarrow> req \<Rightarrow> (rat \<times> int) option option" where
  \<comment> \<open>the state of a request if it still has tokens to produce; the outer \<open>None\<close> when the code raises\<close>
  "req_state ratio r =
     (case max_new r of
        None \<Rightarrow> None
      | Some n \<Rightarrow>
          (let q = (if ignore_eos (req_sampling_params r) then 1 else ratio);
               tokens_left = of_int n * q - of_nat (length (output_ids r));
               tokens_occupied = int (length (origin_input_ids r) + length (output_ids r))
           in Some (if tokens_left \<le> 0 then None else Some (tokens_left, tokens_occupied))))"

fun collect_states :: "rat \<Rightarrow> req list \<Rightarrow> (rat \<times> int) list option" where
  "collect_states ratio [] = Some []"
| "collect_states ratio (r # rs) = do {
     s \<leftarrow> req_state ratio r;
     ss \<leftarrow> collect_states ratio rs;
     Some (case s of None \<Rightarrow> ss | Some x \<Rightarrow> x # ss)
   }"

fun states_fit :: "int \<Rightarrow> int \<Rightarrow> (rat \<times> int) list \<Rightarrow> bool" where
  "states_fit cur_rem tokens_freed [] = True"
| "states_fit cur_rem tokens_freed ((tokens_left, tokens_occupied) # ss) =
     (let bs = int (Suc (length ss)) in
      if of_int (cur_rem + tokens_freed) - tokens_left * of_int bs \<le> of_int (IGNORE_EOS_RESERVE_TOKENS * bs) then False
      else states_fit cur_rem (tokens_freed + tokens_occupied) ss)"

definition next_states :: "req \<Rightarrow> prefill_adder \<Rightarrow> (rat \<times> int) list option" where
  \<comment> \<open>\<open>req_states\<close> with the new request\<close>
  "next_states r a =
     (case req_states a of
        None \<Rightarrow> map_option (sort_key fst)
          (collect_states (new_token_ratio a) (r # (case running_reqs a of None \<Rightarrow> [] | Some rs \<Rightarrow> rs) @ can_run_list a))
      | Some ss \<Rightarrow> map_option (\<lambda>s. case s of None \<Rightarrow> ss | Some x \<Rightarrow> insert_state x ss) (req_state (new_token_ratio a) r))"

definition add_one_req_ignore_eos :: "req \<Rightarrow> prefill_adder \<Rightarrow> (add_req_result \<times> req \<times> prefill_adder) option" where
  "add_one_req_ignore_eos r a =
     (if of_int (ceil_paged_tokens (extend_input_len r) a) > min (of_int (cur_rem_tokens a)) (rem_total_tokens a)
      then Some (NO_TOKEN, r, a)
      else do {
        ss \<leftarrow> next_states r a;
        let a1 = a\<lparr>req_states := Some ss\<rparr>;
        (if \<not> states_fit (cur_rem_tokens a - ceil_paged_tokens (extend_input_len r) a) 0 ss then Some (NO_TOKEN, r, a1)
         else if (case rem_chunk_tokens a of None \<Rightarrow> True | Some n \<Rightarrow> extend_input_len r \<le> n) then do {
           mnt \<leftarrow> max_new r;
           let a2 = update_prefill_budget 0 (extend_input_len r) (min mnt CLIP_MAX_NEW_TOKENS)
                      (a1\<lparr>can_run_list := can_run_list a @ [r]\<rparr>);
           Some (budget_state a2, r, a2)
         } else do {
           trunc_len \<leftarrow> rem_chunk_tokens a;
           (if trunc_len = 0 then Some (OTHER, r, a1)
            else do {
              let r1 = r\<lparr>extend_input_len := trunc_len, fill_ids := py_take trunc_len (fill_ids r)\<rparr>;
              let a2 = update_prefill_budget 0 trunc_len 0
                         (a1\<lparr>can_run_list := can_run_list a @ [r1], new_chunked_req := Some r1\<rparr>);
              Some (budget_state a2, r1, a2)
            })
         })
      })"

definition add_locked :: "req \<Rightarrow> int \<Rightarrow> prefill_adder \<Rightarrow> (add_req_result option \<times> req \<times> prefill_adder) option" where
  \<comment> \<open>the body of the block that holds the lock; the result when it returns early. Loading back from the host is
    not implemented by these caches and raises\<close>
  "add_locked r mnt a =
     (if of_int (extend_input_len r + mnt) \<ge> rem_total_tokens a then Some (Some NO_TOKEN, r, a)
      else if req_host_hit_length r > 0 then None
      else
        (let prefix_len = int (length (prefix_indices r));
             input_tokens = ceil_paged_tokens (extend_input_len r) a
         in if input_tokens \<ge> rem_input_tokens a \<and> length (can_run_list a) \<noteq> 0 then Some (Some OTHER, r, a)
            else if (case rem_chunk_tokens a of None \<Rightarrow> True | Some n \<Rightarrow> input_tokens \<le> n) then do {
              t \<leftarrow> tree_inc_lock (last_node r) (adder_tree a);
              Some (None, r, update_prefill_budget prefix_len input_tokens mnt
                (with_tree t (a\<lparr>can_run_list := can_run_list a @ [r]\<rparr>)))
            } else do {
              chunk \<leftarrow> rem_chunk_tokens a;
              let trunc_len = chunk - int (adder_page_size a) + 1;
              (if trunc_len \<le> 0 then Some (Some OTHER, r, a)
               else do {
                 let r1 = r\<lparr>extend_input_len := trunc_len,
                            fill_ids := py_take (int (length (prefix_indices r)) + trunc_len) (fill_ids r)\<rparr>;
                 t \<leftarrow> tree_inc_lock (last_node r1) (adder_tree a);
                 Some (None, r1, update_prefill_budget prefix_len trunc_len 0
                   (with_tree t (a\<lparr>can_run_list := can_run_list a @ [r1], new_chunked_req := Some r1\<rparr>)))
               })
            }))"

definition add_one_req :: "req \<Rightarrow> prefill_adder \<Rightarrow> (add_req_result \<times> req \<times> prefill_adder) option" where
  "add_one_req r a =
     (if ignore_eos (req_sampling_params r) \<and> tree_disable (adder_tree a) then add_one_req_ignore_eos r a
      else do {
        n \<leftarrow> max_new r;
        let mnt = min n CLIP_MAX_NEW_TOKENS;
        let real_input_tokens = ceil_paged_tokens (extend_input_len r - req_host_hit_length r) a;
        (if of_int (extend_input_len r + mnt) \<ge> rem_total_tokens a then Some (NO_TOKEN, r, a)
         else if real_input_tokens \<ge> rem_input_tokens a \<and> length (can_run_list a) \<noteq> 0 then Some (OTHER, r, a)
         else do {
           t \<leftarrow> tree_inc_lock (last_node r) (adder_tree a);
           (early, r1, a1) \<leftarrow> add_locked r mnt (with_tree t a);
           t' \<leftarrow> tree_dec_lock (last_node r) (adder_tree a1);
           let a2 = with_tree t' a1;
           Some (case early of Some res \<Rightarrow> res | None \<Rightarrow> budget_state a2, r1, a2)
         })
      })"

end
