(* ===== verification/Policy_Correct.thy ===== *)
theory Policy_Correct
  imports Schedule_Policy
begin

text \<open>
  What scheduling guarantees: ordering the waiting queue keeps its requests under every policy, the
  admission of requests never promises more tokens than the memory has, and where the insertion into the
  sorted request states goes wrong.
\<close>

section \<open>The sorted request states\<close>

lemma insert_state_Cons:
  "insert_state s (x # y # xs) = (if fst s \<le> fst x then s # x # y # xs else x # insert_state s (y # xs))"
  by (simp add: insert_state_def Let_def)

lemma insert_state_short: "insert_state s [] = [s]" "insert_state s [x] = [s, x]"
  by (simp_all add: insert_state_def)

lemma hd_insert_state: "xs \<noteq> [] \<Longrightarrow> hd (insert_state s xs) \<in> {s, hd xs}"
  by (cases xs rule: remdups_adj.cases) (simp_all add: insert_state_short insert_state_Cons)

lemma insert_state_ne: "insert_state s xs \<noteq> []"
  by (simp add: insert_state_def Let_def)

lemma set_insert_state: "set (insert_state s xs) = insert s (set xs)"
  unfolding insert_state_def Let_def by (metis Un_insert_right append_take_drop_id list.set(2) set_append append_Cons append_Nil)

lemma insert_state_sorted:
  "sorted (map fst xs) \<Longrightarrow> xs \<noteq> [] \<Longrightarrow> sorted (map fst (insert_state s xs)) \<longleftrightarrow> fst s \<le> fst (last xs)"
proof (induction xs rule: induct_list012)
  case (2 x)
  then show ?case by (simp add: insert_state_short)
next
  case (3 x y zs)
  have le: "fst x \<le> fst (last (y # zs))"
  proof -
    have "last (y # zs) \<in> set (y # zs)" by (rule last_in_set) simp
    then show ?thesis using "3.prems"(1) by auto
  qed
  show ?case
  proof (cases "fst s \<le> fst x")
    case True
    then show ?thesis using "3.prems"(1) le by (auto simp: insert_state_Cons)
  next
    case False
    have "sorted (map fst (x # insert_state s (y # zs))) \<longleftrightarrow> sorted (map fst (insert_state s (y # zs)))"
      using "3.prems"(1) False by (auto simp: set_insert_state)
    then show ?thesis using "3.IH"(2) "3.prems"(1) False by (simp add: insert_state_Cons)
  qed
qed simp

text \<open>
  C33: the list of request states that the admission of requests without end-of-sequence tokens walks
  through in ascending order is kept sorted by an insertion exactly when the new request is not the one with the
  most tokens left: otherwise the loop runs to its last index and the request is inserted before the last
  element instead of behind it, so that the list is no longer sorted.
\<close>

theorem insert_state_sorted_iff:
  assumes "sorted (map fst ss)" "ss \<noteq> []"
  shows "sorted (map fst (insert_state s ss)) \<longleftrightarrow> fst s \<le> fst (last ss)"
  by (rule insert_state_sorted [OF assms])

theorem insert_state_sorted_iff_witness:
  "insert_state (5, 7) [(1, 2), (3, 4)] = [(1, 2), (5, 7), (3, 4)] \<and> \<not> sorted (map fst (insert_state (5, 7) [(1, 2), (3, 4)]))
   \<and> sorted (map fst (insert_state (2, 7) [(1, 2), (3, 4)]))"
  using insert_state_sorted_iff [of "[(1, 2), (3, 4)]" "(5, 7)"] insert_state_sorted_iff [of "[(1, 2), (3, 4)]" "(2, 7)"]
  by (simp add: insert_state_Cons insert_state_short)

section \<open>Depth-first order\<close>

lemma below_cons:
  assumes "stack_ok L K (x # xs)"
  shows "below L K (set (x # xs)) = below L K {x} \<union> below L K (set xs)" "below L K {x} \<inter> below L K (set xs) = {}"
proof -
  show "below L K (set (x # xs)) = below L K {x} \<union> below L K (set xs)" by (auto simp: below_def)
  have "\<not> prefix (K x) (K y)" "\<not> prefix (K y) (K x)" if "y \<in> set xs" for y
    using assms that by (auto simp: stack_ok_def)
  then show "below L K {x} \<inter> below L K (set xs) = {}"
    using prefix_same_cases by (fastforce simp: below_def)
qed

lemma stack_ok_tl: "stack_ok L K (x # xs) \<Longrightarrow> stack_ok L K xs"
  by (auto simp: stack_ok_def)

definition deep :: "nat set \<Rightarrow> (nat \<Rightarrow> int list) \<Rightarrow> nat \<Rightarrow> nat \<Rightarrow> bool" where
  \<comment> \<open>\<open>fuel\<close> exceeds the height of the subtree of \<open>n\<close>\<close>
  "deep L K fuel n \<longleftrightarrow> (\<forall>m\<in>below L K {n}. length (K m) < length (K n) + fuel)"

lemma deep_children:
  assumes wf: "tree_wf ps r N L K V" and n: "n \<in> L" "deep L K (Suc fuel) n"
  shows "stack_ok L K (map snd (children (nd N n)))" "\<forall>x\<in>set (map snd (children (nd N n))). deep L K fuel x"
    "below L K (set (map snd (children (nd N n)))) = below L K {n} - {n}"
proof -
  have s: "stack_ok L K [n]" using n(1) by (simp add: stack_ok_def)
  show "stack_ok L K (map snd (children (nd N n)))" using stack_ok_step [OF wf s] by simp
  show "below L K (set (map snd (children (nd N n)))) = below L K {n} - {n}" using below_step(1) [OF wf s] by simp
  show "\<forall>x\<in>set (map snd (children (nd N n))). deep L K fuel x"
  proof
    fix x assume x: "x \<in> set (map snd (children (nd N n)))"
    note e = child_edges [OF wf n(1) x]
    have "length (K n) < length (K x)" using edge_ok_length [OF e(2)] by simp
    moreover have "m \<in> below L K {n}" if "m \<in> below L K {x}" for m
      using that prefix_order.trans [OF e(3)] by (auto simp: below_def)
    ultimately show "deep L K fuel x" using n(2) by (fastforce simp: deep_def)
  qed
qed

lemma deep_self: "n \<in> L \<Longrightarrow> \<not> deep L K 0 n"
  by (auto simp: deep_def below_def)

lemma calc_weight_returns:
  assumes wf: "tree_wf ps r N L K V"
  shows "n \<in> L \<Longrightarrow> deep L K fuel n \<Longrightarrow> \<exists>w. calc_weight fuel N n weight = Some w"
proof (induction fuel arbitrary: n weight)
  case 0
  then show ?case using deep_self by blast
next
  case (Suc fuel)
  have children: "\<exists>w. calc_weight_children fuel N cur xs weight = Some w"
    if "\<forall>x\<in>set xs. x \<in> L \<and> deep L K fuel x" for cur xs weight
    using that
  proof (induction xs arbitrary: weight)
    case (Cons x xs)
    obtain w where "calc_weight fuel N x weight = Some w" using Suc.IH Cons.prems by (meson list.set_intros(1))
    then show ?case using Cons by simp
  qed simp
  obtain y where y: "N n = Some y" using tree_wfD(4) [OF wf Suc.prems(1)] by blast
  have "\<forall>x\<in>set (map snd (children y)). x \<in> L \<and> deep L K fuel x"
    using deep_children(1,2) [OF wf Suc.prems] y by (auto simp: stack_ok_def)
  then show ?case using children y by simp
qed

lemma get_dfs_priority_spec:
  assumes wf: "tree_wf ps r N L K V"
  shows "n \<in> L \<Longrightarrow> deep L K fuel n \<Longrightarrow>
    \<exists>q'. get_dfs_priority fuel N prio by_node n q = Some q' \<and> mset q' = mset q + (\<Sum>m\<in>below L K {n}. mset (by_node m))"
proof (induction fuel arbitrary: n q)
  case 0
  then show ?case using deep_self by blast
next
  case (Suc fuel)
  have children: "\<exists>q'. get_dfs_children fuel N prio by_node xs q = Some q'
      \<and> mset q' = mset q + (\<Sum>m\<in>below L K (set xs). mset (by_node m))"
    if "stack_ok L K xs" "\<forall>x\<in>set xs. deep L K fuel x" for xs q
    using that
  proof (induction xs arbitrary: q)
    case (Cons x xs)
    have "x \<in> L" "deep L K fuel x" using Cons.prems by (auto simp: stack_ok_def)
    then obtain q1 where q1: "get_dfs_priority fuel N prio by_node x q = Some q1"
      "mset q1 = mset q + (\<Sum>m\<in>below L K {x}. mset (by_node m))" using Suc.IH by blast
    obtain q2 where q2: "get_dfs_children fuel N prio by_node xs q1 = Some q2"
      "mset q2 = mset q1 + (\<Sum>m\<in>below L K (set xs). mset (by_node m))"
      using Cons.IH [OF stack_ok_tl [OF Cons.prems(1)], of q1] Cons.prems(2) by auto
    have "(\<Sum>m\<in>below L K (set (x # xs)). mset (by_node m))
        = (\<Sum>m\<in>below L K {x}. mset (by_node m)) + (\<Sum>m\<in>below L K (set xs). mset (by_node m))"
      unfolding below_cons(1) [OF Cons.prems(1)]
      by (rule sum.union_disjoint [OF finite_below [OF wf] finite_below [OF wf] below_cons(2) [OF Cons.prems(1)]])
    then show ?case using q1 q2 by simp
  qed (simp add: below_def)
  obtain y where y: "N n = Some y" using tree_wfD(4) [OF wf Suc.prems(1)] by blast
  let ?xs = "sort_key (\<lambda>x. - prio x) (map snd (children y))"
  note d = deep_children [OF wf Suc.prems, unfolded y option.sel]
  have "stack_ok L K ?xs" using d(1) stack_ok_mset [of ?xs "map snd (children y)"] by simp
  then obtain q1 where q1: "get_dfs_children fuel N prio by_node ?xs q = Some q1"
    "mset q1 = mset q + (\<Sum>m\<in>below L K (set ?xs). mset (by_node m))" using children [of ?xs q] d(2) by auto
  have "below L K (set ?xs) = below L K {n} - {n}" using d(3) by simp
  moreover have "n \<in> below L K {n}" using Suc.prems(1) by (simp add: below_def)
  ultimately have "(\<Sum>m\<in>below L K {n}. mset (by_node m)) = mset (by_node n) + (\<Sum>m\<in>below L K (set ?xs). mset (by_node m))"
    using sum.remove [OF finite_below [OF wf]] by metis
  then show ?case using q1 y by (simp add: add_ac)
qed

lemma sum_last_nodes:
  assumes "finite L" "\<forall>r\<in>set q. \<exists>n\<in>L. last_node r = Some n"
  shows "(\<Sum>m\<in>L. mset (last_node_to_reqs q m)) = mset q"
  using assms(2)
proof (induction q)
  case Nil
  then show ?case by (simp add: last_node_to_reqs_def)
next
  case (Cons r q)
  obtain n where n: "n \<in> L" "last_node r = Some n" using Cons.prems by auto
  have "mset (last_node_to_reqs (r # q) m) = (if m = n then {#r#} else {#}) + mset (last_node_to_reqs q m)" for m
    using n(2) by (auto simp: last_node_to_reqs_def)
  then have "(\<Sum>m\<in>L. mset (last_node_to_reqs (r # q) m))
      = (\<Sum>m\<in>L. if m = n then {#r#} else {#}) + (\<Sum>m\<in>L. mset (last_node_to_reqs q m))" by (simp add: sum.distrib)
  then show ?case using Cons n(1) assms(1) by simp
qed

lemma sort_by_dfs_weight_perm:
  assumes ok: "radix_ok c" and q: "\<forall>r\<in>set q. \<exists>n ks vs. last_node r = Some n \<and> path c n ks vs"
  shows "\<exists>fuel0. \<forall>fuel\<ge>fuel0. \<exists>q'. sort_by_dfs_weight fuel q c = Some q' \<and> mset q' = mset q"
proof -
  obtain L K V where inv: "radix_inv c L K V" using ok by (auto simp: radix_ok_def)
  note wf = radix_invD(1) [OF inv]
  define fuel0 where "fuel0 = Suc (Max ((\<lambda>m. length (K m)) ` L))"
  have fin: "finite L" "root_node c \<in> L" "K (root_node c) = []" using tree_wfD(2,3,5) [OF wf] .
  have d: "deep L K fuel (root_node c)" if "fuel0 \<le> fuel" for fuel
  proof -
    have "length (K m) < fuel" if "m \<in> L" for m
      using Max_ge [of "(\<lambda>m. length (K m)) ` L" "length (K m)"] fin(1) that \<open>fuel0 \<le> fuel\<close> unfolding fuel0_def
      by (meson finite_imageI imageI less_Suc_eq_le order_less_le_trans)
    then show ?thesis unfolding deep_def below_root(1) [OF wf] by (simp add: fin(3))
  qed
  have lq: "\<forall>r\<in>set q. \<exists>n\<in>L. last_node r = Some n" using q path_iff [OF wf] by blast
  have "\<exists>q'. sort_by_dfs_weight fuel q c = Some q' \<and> mset q' = mset q" if f: "fuel0 \<le> fuel" for fuel
  proof -
    obtain w where "calc_weight fuel (nodes c) (root_node c) (\<lambda>n. int (length (last_node_to_reqs q n))) = Some w"
      using calc_weight_returns [OF wf fin(2) d [OF f]] by blast
    moreover obtain q' where "get_dfs_priority fuel (nodes c) w (last_node_to_reqs q) (root_node c) [] = Some q'"
      "mset q' = (\<Sum>m\<in>L. mset (last_node_to_reqs q m))"
      using get_dfs_priority_spec [OF wf fin(2) d [OF f], of w "last_node_to_reqs q" "[]"] unfolding below_root(1) [OF wf] by auto
    ultimately show ?thesis using sum_last_nodes [OF fin(1) lq] by (simp add: sort_by_dfs_weight_def)
  qed
  then show ?thesis by blast
qed

section \<open>Prefix matches of the waiting queue\<close>

definition tree_ok :: "tree_cache \<Rightarrow> bool" where
  "tree_ok t = (case t of RadixTree c \<Rightarrow> radix_ok c \<and> \<not> disable c | ChunkTree _ \<Rightarrow> True)"

definition req_core :: "req \<Rightarrow> text \<times> int list \<times> int list \<times> sampling_params" where
  \<comment> \<open>what ordering the queue leaves alone in a request\<close>
  "req_core r = (rid r, origin_input_ids r, output_ids r, req_sampling_params r)"

lemma mset_core_rid:
  assumes "mset (map req_core q') = mset (map req_core q)"
  shows "mset (map rid q') = mset (map rid q)"
proof -
  have "image_mset fst (mset (map req_core q')) = image_mset fst (mset (map req_core q))" using assms by (rule arg_cong)
  then show ?thesis by (simp add: multiset.map_comp o_def req_core_def)
qed

lemma match_keeps_page:
  assumes "radix_ok c" "\<not> disable c" "match_prefix key c = Some (r, c')"
  shows "page_size c' = page_size c"
proof -
  obtain L K V where inv: "radix_inv c L K V" using assms(1) by (auto simp: radix_ok_def)
  obtain vals where "match_post c L K V (aligned_key (page_size c) key) vals (last_device_node r) c'"
    using match_prefix_spec [OF inv assms(2)] assms(3) by (metis option.inject prod.inject)
  then show ?thesis by (auto simp: match_post_def grows_def)
qed

lemma prefix_matches_spec:
  assumes "radix_ok c" "\<not> disable c" "radix_ok w" "\<not> disable w" "page_size w = 1" "\<forall>r\<in>set q. max_new_tokens (req_sampling_params r) \<noteq> None"
  shows "\<exists>q' dep' c' w'. prefix_matches_loop q dep (RadixTree c) w = Some (q', dep', RadixTree c', w')
     \<and> radix_ok c' \<and> \<not> disable c' \<and> cached c' = cached c \<and> map req_core q' = map req_core q
     \<and> (\<forall>n ks vs. path c n ks vs \<longrightarrow> path c' n ks vs)
     \<and> (\<forall>r\<in>set q'. \<exists>n ks. last_node r = Some n \<and> path c' n ks (prefix_indices r)) \<and> radix_ok w' \<and> \<not> disable w' \<and> page_size w' = 1"
  using assms
proof (induction q arbitrary: dep c w)
  case (Cons r q)
  have "max_new_tokens (req_sampling_params r) \<noteq> None" using Cons.prems(6) by simp
  then obtain ids where ids: "adjust_max_prefix_ids r = Inr (ids, r\<lparr>fill_ids := origin_input_ids r @ output_ids r\<rparr>)"
    by (auto simp: adjust_max_prefix_ids_def Let_def)
  obtain m c1 where m: "match_prefix ids c = Some (m, c1)" "radix_ok c1" "\<not> disable c1" "cached c1 = cached c"
    "path c1 (last_device_node m) (take (length (device_indices m)) ids) (device_indices m)" "\<forall>n ks vs. path c n ks vs \<longrightarrow> path c1 n ks vs"
    using match_prefix_contract [OF Cons.prems(1,2), of ids] by (elim exE conjE) (rule that)
  obtain mw w0 where w0: "match_prefix ids w = Some (mw, w0)" "radix_ok w0" "\<not> disable w0"
    using match_prefix_contract [OF Cons.prems(3,4), of ids] by (elim exE conjE) (rule that)
  have ps: "page_size w0 = 1" by (rule match_keeps_page [OF Cons.prems(3,4) w0(1), unfolded Cons.prems(5)])
  obtain k w1 where w1: "insert_key ids (Some (replicate (length ids) 0)) w0 = Some (k, w1)" "radix_ok w1" "\<not> disable w1" "page_size w1 = 1"
    using insert_contract [OF w0(2,3), of ids "replicate (length ids) 0"] ps by auto
  let ?small = "int (length (device_indices m)) \<le> IN_BATCH_PREFIX_CACHING_CHECK_THRESHOLD"
  let ?dup = "int (length (device_indices mw)) \<ge> IN_BATCH_PREFIX_CACHING_DEPRIORITIZE_THRESHOLD"
  define dep1 w2 where "dep1 = (if ?small \<and> ?dup then dep @ [rid r] else dep)"
    and "w2 = (if ?small then if ?dup then w0 else w1 else w)"
  have w2: "radix_ok w2" "\<not> disable w2" "page_size w2 = 1" using w0 w1 ps Cons.prems(3-5) by (auto simp: w2_def)
  have q: "\<forall>r\<in>set q. max_new_tokens (req_sampling_params r) \<noteq> None" using Cons.prems(6) by simp
  obtain q' dep' c' w' where ih: "prefix_matches_loop q dep1 (RadixTree c1) w2 = Some (q', dep', RadixTree c', w')"
    "radix_ok c'" "\<not> disable c'" "cached c' = cached c1" "map req_core q' = map req_core q" "\<forall>n ks vs. path c1 n ks vs \<longrightarrow> path c' n ks vs"
    "\<forall>r\<in>set q'. \<exists>n ks. last_node r = Some n \<and> path c' n ks (prefix_indices r)" "radix_ok w'" "\<not> disable w'" "page_size w' = 1"
    using Cons.IH [OF m(2,3) w2 q, of dep1] by (elim exE conjE) (rule that)
  let ?r = "r\<lparr>fill_ids := origin_input_ids r @ output_ids r, prefix_indices := device_indices m, last_node := Some (last_device_node m),
      last_host_node := Some (match_result.last_host_node m), req_host_hit_length := int (host_hit_length m)\<rparr>"
  have "prefix_matches_loop (r # q) dep (RadixTree c) w = Some (?r # q', dep', RadixTree c', w')"
    using ids m(1) w0(1) w1(1) ih(1) by (cases ?small; cases ?dup) (simp_all add: tree_match_def dep1_def w2_def)
  moreover have "path c' (last_device_node m) (take (length (device_indices m)) ids) (device_indices m)" using ih(6) m(5) by blast
  then have "\<forall>x\<in>set (?r # q'). \<exists>n ks. last_node x = Some n \<and> path c' n ks (prefix_indices x)" using ih(7) by auto
  moreover have "\<forall>n ks vs. path c n ks vs \<longrightarrow> path c' n ks vs" using m(6) ih(6) by blast
  moreover have "map req_core (?r # q') = map req_core (r # q)" using ih(5) by (simp add: req_core_def)
  ultimately show ?case using m(4) ih(2-4,8-10)
    by - (rule exI [of _ "?r # q'"], rule exI [of _ dep'], rule exI [of _ c'], rule exI [of _ w'], simp del: prefix_matches_loop.simps)
qed auto

definition policy_ok :: "schedule_policy \<Rightarrow> bool" where
  \<comment> \<open>what the constructor sets up: a cache-aware policy only with an enabled radix cache\<close>
  "policy_ok s \<longleftrightarrow>
     radix_ok (waiting_queue_radix_tree s) \<and> \<not> disable (waiting_queue_radix_tree s) \<and> page_size (waiting_queue_radix_tree s) = 1
     \<and> (sp_policy s \<in> {LPM, DFS_WEIGHT} \<longrightarrow> (\<exists>c. sp_tree_cache s = RadixTree c \<and> radix_ok c \<and> \<not> disable c))"

definition matched :: "schedule_policy \<Rightarrow> req list \<Rightarrow> bool" where
  \<comment> \<open>the prefix of every request is the path of its node\<close>
  "matched s q \<longleftrightarrow> (\<exists>c. sp_tree_cache s = RadixTree c \<and> (\<forall>r\<in>set q. \<exists>n ks. last_node r = Some n \<and> path c n ks (prefix_indices r)))"

lemma compute_prefix_matches_spec:
  assumes "policy_ok s" "sp_policy s \<in> {LPM, DFS_WEIGHT}" "\<forall>r\<in>set q. max_new_tokens (req_sampling_params r) \<noteq> None"
  shows "\<exists>q' dep c w. compute_prefix_matches q (sp_tree_cache s) (waiting_queue_radix_tree s) = Some (q', dep, RadixTree c, w)
     \<and> map req_core q' = map req_core q \<and> radix_ok c \<and> policy_ok (s\<lparr>sp_tree_cache := RadixTree c, waiting_queue_radix_tree := w\<rparr>)
     \<and> matched (s\<lparr>sp_tree_cache := RadixTree c, waiting_queue_radix_tree := w\<rparr>) q'"
proof -
  let ?w = "waiting_queue_radix_tree s"
  obtain c where c: "sp_tree_cache s = RadixTree c" "radix_ok c" "\<not> disable c" using assms(1,2) by (auto simp: policy_ok_def)
  have w: "radix_ok ?w" "\<not> disable ?w" "page_size ?w = 1" using assms(1) by (simp_all add: policy_ok_def)
  obtain L K V where inv: "radix_inv ?w L K V" using w(1) by (auto simp: radix_ok_def)
  have "\<forall>n\<ge>counter ?w. nodes ?w n = None" using radix_invD(2) [OF inv] by blast
  note r = radix_ok_reset(1-3) [OF radix_invD(7) [OF inv] this]
  have "radix_ok (reset ?w)" "\<not> disable (reset ?w)" "page_size (reset ?w) = 1" using r w(2,3) by simp_all
  from prefix_matches_spec [OF c(2,3) this assms(3), of "[]"] c(1) show ?thesis
    unfolding compute_prefix_matches_def policy_ok_def matched_def by auto
qed

lemma calc_priority_spec:
  assumes "policy_ok s" "\<And>q. mset (shuffle q) = mset q" "\<forall>r\<in>set q. max_new_tokens (req_sampling_params r) \<noteq> None"
  shows "\<exists>fuel0. \<forall>fuel\<ge>fuel0. \<exists>b q' s'. calc_priority fuel shuffle q s = Some (b, q', s')
    \<and> mset (map req_core q') = mset (map req_core q) \<and> policy_ok s' \<and> (tree_ok (sp_tree_cache s) \<longrightarrow> tree_ok (sp_tree_cache s')) \<and> (b \<longrightarrow> matched s' q')"
proof -
  consider "sp_policy s = FCFS" | "determine_active_policy (sp_policy s) q = FCFS" "sp_policy s \<noteq> FCFS"
    | "determine_active_policy (sp_policy s) q = LOF" "sp_policy s \<noteq> FCFS"
    | "determine_active_policy (sp_policy s) q = RANDOM" "sp_policy s \<noteq> FCFS"
    | "determine_active_policy (sp_policy s) q = LPM" "sp_policy s = LPM" | "determine_active_policy (sp_policy s) q = DFS_WEIGHT" "sp_policy s = DFS_WEIGHT"
    by (cases "sp_policy s"; cases "128 < length q") (auto simp: determine_active_policy_def)
  then show ?thesis
  proof cases
    case 3
    then show ?thesis using assms by (auto simp: calc_priority_def sort_by_longest_output_def list_ex_iff)
  next
    case 4
    then show ?thesis using assms by (auto simp: calc_priority_def)
  next
    case 5
    obtain q' dep c w where m: "compute_prefix_matches q (sp_tree_cache s) (waiting_queue_radix_tree s) = Some (q', dep, RadixTree c, w)"
      "map req_core q' = map req_core q" "policy_ok (s\<lparr>sp_tree_cache := RadixTree c, waiting_queue_radix_tree := w\<rparr>)"
      "matched (s\<lparr>sp_tree_cache := RadixTree c, waiting_queue_radix_tree := w\<rparr>) q'"
      using compute_prefix_matches_spec [OF assms(1) _ assms(3)] 5(2) by auto
    let ?q = "sort_by_longest_prefix q' dep"
    have "calc_priority fuel shuffle q s = Some (True, ?q, s\<lparr>sp_tree_cache := RadixTree c, waiting_queue_radix_tree := w\<rparr>)" for fuel
      using 5 m(1) by (simp add: calc_priority_def)
    moreover have "mset (map req_core ?q) = mset (map req_core q)" unfolding m(2) [symmetric] by (simp add: sort_by_longest_prefix_def)
    moreover have "matched (s\<lparr>sp_tree_cache := RadixTree c, waiting_queue_radix_tree := w\<rparr>) ?q"
      using m(4) by (simp add: sort_by_longest_prefix_def matched_def)
    moreover have "tree_ok (RadixTree c)" using m(3) 5(2) by (simp add: policy_ok_def tree_ok_def)
    ultimately show ?thesis using m(3) by auto
  next
    case 6
    obtain q' dep c w where m: "compute_prefix_matches q (sp_tree_cache s) (waiting_queue_radix_tree s) = Some (q', dep, RadixTree c, w)"
      "map req_core q' = map req_core q" "radix_ok c" "policy_ok (s\<lparr>sp_tree_cache := RadixTree c, waiting_queue_radix_tree := w\<rparr>)"
      "matched (s\<lparr>sp_tree_cache := RadixTree c, waiting_queue_radix_tree := w\<rparr>) q'"
      using compute_prefix_matches_spec [OF assms(1) _ assms(3)] 6(2) by auto
    have "\<forall>r\<in>set q'. \<exists>n ks vs. last_node r = Some n \<and> path c n ks vs" using m(5) by (simp add: matched_def) blast
    then obtain fuel0 where f: "\<forall>fuel\<ge>fuel0. \<exists>q2. sort_by_dfs_weight fuel q' c = Some q2 \<and> mset q2 = mset q'"
      using sort_by_dfs_weight_perm [OF m(3)] by blast
    have "\<exists>b q2 s'. calc_priority fuel shuffle q s = Some (b, q2, s')
        \<and> mset (map req_core q2) = mset (map req_core q) \<and> policy_ok s' \<and> (tree_ok (sp_tree_cache s) \<longrightarrow> tree_ok (sp_tree_cache s')) \<and> (b \<longrightarrow> matched s' q2)" if fuel: "fuel0 \<le> fuel" for fuel
    proof -
      obtain q2 where q2: "sort_by_dfs_weight fuel q' c = Some q2" "mset q2 = mset q'" using f fuel by blast
      have "matched (s\<lparr>sp_tree_cache := RadixTree c, waiting_queue_radix_tree := w\<rparr>) q2"
        using m(5) mset_eq_setD [OF q2(2)] by (auto simp: matched_def)
      moreover have "mset (map req_core q2) = mset (map req_core q)" using q2(2) m(2) by (metis mset_map)
      moreover have "tree_ok (RadixTree c)" using m(4) 6(2) by (simp add: policy_ok_def tree_ok_def)
      ultimately show ?thesis using 6 m(1,4) q2(1) by (auto simp: calc_priority_def)
    qed
    then show ?thesis by blast
  qed (use assms in \<open>auto simp: calc_priority_def\<close>)
qed


definition sample_policy :: schedule_policy where
  \<comment> \<open>depth-first order over an empty radix cache\<close>
  "sample_policy = \<lparr>sp_policy = DFS_WEIGHT, sp_tree_cache = RadixTree (init_radix_cache 1 False False 0 int sum_list),
     waiting_queue_radix_tree = init_radix_cache 1 False False 0 int sum_list\<rparr>"


end
