(* ===== verification/Admission.thy ===== *)
theory Admission
  imports Policy_Correct
begin

text \<open>
  What \<open>PrefillAdder\<close> guarantees with page size 1: the requests it admits never need more tokens than the
  memory can supply after eviction, each admitted request holds one lock on its prefix, and a request that
  is not admitted leaves the cache as it was.
\<close>

definition holds_node :: "tree_cache \<Rightarrow> req \<Rightarrow> bool" where
  \<comment> \<open>the prefix of the request is the path of its node\<close>
  "holds_node t r = (case t of RadixTree c \<Rightarrow> \<exists>n ks. last_node r = Some n \<and> path c n ks (prefix_indices r) | ChunkTree _ \<Rightarrow> prefix_indices r = [])"

definition adder_ok :: "prefill_adder \<Rightarrow> bool" where
  "adder_ok a \<longleftrightarrow> mem_ok (adder_mem a) \<and> adder_page_size a = 1
     \<and> (\<forall>r\<in>set (can_run_list a). extend_ready (max_context_len (mem_pool (adder_mem a))) r)
     \<and> sum_list (map extend_input_len (can_run_list a)) \<le> cur_rem_token_offset a
     \<and> of_int (cur_rem_token_offset a) \<le> rem_total_token_offset a
     \<and> (can_run_list a \<noteq> [] \<longrightarrow> cur_rem_token_offset a \<le> available_and_evictable a)
     \<and> (\<forall>n. rem_chunk_tokens a = Some n \<longrightarrow> 0 \<le> n)
     \<and> (\<forall>r\<in>set (case running_reqs a of None \<Rightarrow> [] | Some rs \<Rightarrow> rs) \<union> set (can_run_list a). max_new r \<noteq> None)"

definition admissible :: "prefill_adder \<Rightarrow> req \<Rightarrow> bool" where
  \<comment> \<open>a request after \<open>init_next_round_input\<close>\<close>
  "admissible a r \<longleftrightarrow> extend_ready (max_context_len (mem_pool (adder_mem a))) r \<and> 0 < extend_input_len r
     \<and> (\<exists>n. max_new r = Some n \<and> 0 \<le> n) \<and> req_host_hit_length r = 0 \<and> holds_node (adder_tree a) r"

lemma mem_ok_tree: "mem_ok m \<longleftrightarrow> kv_ok None (mem_alloc m) \<and> tree_ok (mem_tree m)"
  by (simp add: mem_ok_def tree_ok_def)

lemma ceil_one: "adder_page_size a = 1 \<Longrightarrow> ceil_paged_tokens n a = n"
  by (simp add: ceil_paged_tokens_def)

lemma lock_once:
  assumes "tree_ok t" "holds_node t r"
  shows "\<exists>t'. tree_inc_lock (last_node r) t = Some t' \<and> tree_dec_lock (last_node r) t' = Some t \<and> tree_ok t' \<and> holds_node t' = holds_node t"
proof (cases t)
  case (RadixTree c)
  then obtain n ks where n: "last_node r = Some n" "path c n ks (prefix_indices r)" "radix_ok c" "\<not> disable c"
    using assms by (auto simp: tree_ok_def holds_node_def)
  obtain d c1 where "inc_lock_ref n c = Some (d, c1)" "dec_lock_ref n c1 = Some (- d, c)" "radix_ok c1" "path c1 = path c" "disable c1 = disable c"
    using inc_dec_restore [OF n(3,4,2)] by (elim exE conjE) (rule that)
  then show ?thesis using RadixTree n by (simp add: tree_inc_lock_def tree_dec_lock_def tree_ok_def holds_node_def fun_eq_iff)
next
  case (ChunkTree c)
  then show ?thesis by (simp add: tree_inc_lock_def tree_dec_lock_def tree_ok_def holds_node_def fun_eq_iff
      chunk_inc_lock_ref_def chunk_dec_lock_ref_def)
qed

lemma truncated_ready:
  assumes "extend_ready w r" "0 \<le> n" "n \<le> extend_input_len r"
  shows "extend_ready w (r\<lparr>extend_input_len := n, fill_ids := py_take (int (length (prefix_indices r)) + n) (fill_ids r)\<rparr>)"
proof -
  have "py_take (int (length (prefix_indices r)) + n) (fill_ids r) = take (length (prefix_indices r) + nat n) (fill_ids r)"
    using assms(2) py_take_nat [of "length (prefix_indices r) + nat n" "fill_ids r"] by (simp add: nat_add_distrib)
  then show ?thesis using assms by (auto simp: extend_ready_def)
qed

lemma admit_ok:
  \<comment> \<open>appending a request that fits keeps the invariant\<close>
  assumes a: "adder_ok a" and b: "mem_pool (adder_mem b) = mem_pool (adder_mem a)" "mem_ok (adder_mem b)" "adder_page_size b = 1"
    "can_run_list b = can_run_list a @ [r]" "cur_rem_token_offset b = cur_rem_token_offset a" "rem_total_token_offset b = rem_total_token_offset a"
    "rem_chunk_tokens b = rem_chunk_tokens a" "running_reqs b = running_reqs a"
    and r: "max_new r \<noteq> None" "extend_ready (max_context_len (mem_pool (adder_mem a))) r" "extend_input_len r = n" "0 \<le> mnt"
    "cur_rem_token_offset a + n \<le> available_and_evictable b" "\<forall>k. rem_chunk_tokens a = Some k \<longrightarrow> n \<le> k"
  shows "adder_ok (update_prefill_budget pre n mnt b)"
  using assms unfolding adder_ok_def
  by (auto simp: update_prefill_budget_def Let_def ceil_one available_and_evictable_def)

lemma with_tree_budget:
  "with_tree t (update_prefill_budget pre n mnt (with_tree t2 a)) = update_prefill_budget pre n mnt (with_tree t a)"
  by (simp add: with_tree_def update_prefill_budget_def Let_def ceil_paged_tokens_def)

lemma with_tree_simps [simp]:
  "adder_tree (with_tree t a) = t" "mem_pool (adder_mem (with_tree t a)) = mem_pool (adder_mem a)"
  "mem_alloc (adder_mem (with_tree t a)) = mem_alloc (adder_mem a)" "can_run_list (with_tree t a) = can_run_list a"
  "adder_page_size (with_tree t a) = adder_page_size a" "rem_chunk_tokens (with_tree t a) = rem_chunk_tokens a"
  "cur_rem_token_offset (with_tree t a) = cur_rem_token_offset a" "rem_total_token_offset (with_tree t a) = rem_total_token_offset a"
  "rem_input_tokens (with_tree t a) = rem_input_tokens a"
  "with_tree t ((with_tree t' a)\<lparr>can_run_list := rs\<rparr>) = with_tree t (a\<lparr>can_run_list := rs\<rparr>)"
  "with_tree t ((with_tree t' a)\<lparr>can_run_list := rs, new_chunked_req := c\<rparr>) = with_tree t (a\<lparr>can_run_list := rs, new_chunked_req := c\<rparr>)"
  "with_tree t (with_tree t' a) = with_tree t a" "with_tree (adder_tree a) a = a"
  by (simp_all add: with_tree_def)

lemma budget_simps [simp]:
  "adder_mem (update_prefill_budget pre n mnt a) = adder_mem a" "can_run_list (update_prefill_budget pre n mnt a) = can_run_list a"
  by (simp_all add: update_prefill_budget_def Let_def)

definition admitted :: "prefill_adder \<Rightarrow> req \<Rightarrow> tree_cache \<Rightarrow> req \<Rightarrow> prefill_adder \<Rightarrow> bool" where
  \<comment> \<open>the request \<open>r\<close> was appended, perhaps truncated to \<open>r'\<close>\<close>
  "admitted a r t r' a' \<longleftrightarrow> adder_ok a' \<and> can_run_list a' = can_run_list a @ [r'] \<and> adder_tree a' = t
     \<and> mem_pool (adder_mem a') = mem_pool (adder_mem a) \<and> mem_alloc (adder_mem a') = mem_alloc (adder_mem a)
     \<and> r' = r\<lparr>extend_input_len := extend_input_len r', fill_ids := fill_ids r'\<rparr> \<and> 0 < extend_input_len r' \<and> prefix (fill_ids r') (fill_ids r)"

lemma add_locked_cases:
  assumes a: "adder_ok a" and r: "admissible a r" and mnt: "0 \<le> mnt" and t: "tree_ok t" "tree_inc_lock (last_node r) t = Some t2"
  shows "(\<exists>res. res \<noteq> CONTINUE \<and> add_locked r mnt (with_tree t a) = Some (Some res, r, with_tree t a))
    \<or> (\<exists>r' b. add_locked r mnt (with_tree t a) = Some (None, r', b) \<and> adder_tree b = t2 \<and> admitted a r t r' (with_tree t b))"
proof -
  let ?a = "with_tree t a" and ?n = "extend_input_len r"
  have ok: "mem_ok (adder_mem ?a)" "adder_page_size ?a = 1" using a t(1) by (simp_all add: adder_ok_def mem_ok_tree)
  have rr: "extend_ready (max_context_len (mem_pool (adder_mem a))) r" "0 < ?n" "req_host_hit_length r = 0" "max_new r \<noteq> None" using r by (auto simp: admissible_def)
  have c: "of_int (cur_rem_token_offset a) \<le> rem_total_token_offset a" using a by (simp add: adder_ok_def)
  consider "of_int (?n + mnt) \<ge> rem_total_tokens ?a" | "of_int (?n + mnt) < rem_total_tokens ?a" "?n \<ge> rem_input_tokens ?a" "can_run_list a \<noteq> []"
    | (run) "of_int (?n + mnt) < rem_total_tokens ?a" "\<not> (?n \<ge> rem_input_tokens ?a \<and> can_run_list a \<noteq> [])" by linarith
  then show ?thesis
  proof cases
    case run
    have fit: "cur_rem_token_offset a + ?n \<le> available_and_evictable ?a" using run(1) c mnt unfolding rem_total_tokens_def by simp
    show ?thesis
    proof (cases "\<forall>k. rem_chunk_tokens a = Some k \<longrightarrow> ?n \<le> k")
      case True
      let ?b = "update_prefill_budget (int (length (prefix_indices r))) ?n mnt (with_tree t2 (a\<lparr>can_run_list := can_run_list a @ [r]\<rparr>))"
      have "add_locked r mnt ?a = Some (None, r, ?b)"
        using run True rr(3) t(2) ok(2) by (auto simp: add_locked_def Let_def ceil_one split: option.splits)
      moreover have "adder_ok (with_tree t ?b)" unfolding with_tree_budget
        by (rule admit_ok [OF a _ _ _ _ _ _ _ _ rr(4,1) refl mnt]) (use ok True fit in \<open>simp_all add: with_tree_def available_and_evictable_def\<close>)
      ultimately show ?thesis using rr(2) by (intro disjI2 exI [of _ r] exI [of _ ?b]) (simp add: admitted_def)
    next
      case False
      then obtain k where k: "rem_chunk_tokens a = Some k" "k < ?n" "0 \<le> k" using a by (auto simp: adder_ok_def)
      show ?thesis
      proof (cases "k = 0")
        case True
        then have "add_locked r mnt ?a = Some (Some OTHER, r, ?a)"
          using run rr(3) k(1,2) ok(2) by (auto simp: add_locked_def Let_def ceil_one)
        then show ?thesis by blast
      next
        case False
        let ?r = "r\<lparr>extend_input_len := k, fill_ids := py_take (int (length (prefix_indices r)) + k) (fill_ids r)\<rparr>"
        let ?b = "update_prefill_budget (int (length (prefix_indices r))) k 0
          (with_tree t2 (a\<lparr>can_run_list := can_run_list a @ [?r], new_chunked_req := Some ?r\<rparr>))"
        have "add_locked r mnt ?a = Some (None, ?r, ?b)"
          using run False rr(3) t(2) k ok(2) by (auto simp: add_locked_def Let_def ceil_one)
        moreover have "adder_ok (with_tree t ?b)" unfolding with_tree_budget
          by (rule admit_ok [OF a _ _ _ _ _ _ _ _ _ truncated_ready [OF rr(1) k(3)]])
            (use ok k fit rr(4) in \<open>simp_all add: max_new_def with_tree_def available_and_evictable_def\<close>)
        moreover have "prefix (fill_ids ?r) (fill_ids r)" by (simp add: py_take_def take_is_prefix)
        ultimately show ?thesis using False k(3) by (intro disjI2 exI [of _ ?r] exI [of _ ?b]) (simp add: admitted_def)
      qed
    qed
  qed (use rr(3) ok(2) in \<open>simp_all add: add_locked_def Let_def ceil_one\<close>)
qed

lemma collect_states_some: "\<forall>r\<in>set rs. max_new r \<noteq> None \<Longrightarrow> \<exists>ss. collect_states ratio rs = Some ss"
  by (induction rs) (auto simp: req_state_def Let_def)

lemma next_states_some:
  assumes "adder_ok a" "admissible a r"
  shows "\<exists>ss. next_states r a = Some ss"
proof (cases "req_states a")
  case None
  have "\<forall>x\<in>set (r # (case running_reqs a of None \<Rightarrow> [] | Some rs \<Rightarrow> rs) @ can_run_list a). max_new x \<noteq> None"
    using assms unfolding adder_ok_def admissible_def by auto
  from collect_states_some [OF this, of "new_token_ratio a"] show ?thesis using None by (auto simp: next_states_def simp del: collect_states.simps)
next
  case (Some ss)
  then show ?thesis using assms(2) by (auto simp: next_states_def admissible_def req_state_def Let_def)
qed

lemma ignore_eos_cases:
  assumes a: "adder_ok a" and r: "admissible a r" and t: "tree_disable (adder_tree a)"
  shows "\<exists>res r' a'. add_one_req_ignore_eos r a = Some (res, r', a') \<and>
    (r' = r \<and> adder_ok a' \<and> res \<noteq> CONTINUE \<and> adder_mem a' = adder_mem a \<and> can_run_list a' = can_run_list a \<or> admitted a r (adder_tree a) r' a')"
proof -
  let ?n = "extend_input_len r"
  obtain ss where ss: "next_states r a = Some ss" using next_states_some [OF a r] by blast
  let ?a = "a\<lparr>req_states := Some ss\<rparr>"
  have ok: "mem_ok (adder_mem a)" "adder_page_size a = 1" "adder_ok ?a"
    using a by (simp_all add: adder_ok_def available_and_evictable_def)
  have rr: "extend_ready (max_context_len (mem_pool (adder_mem a))) r" "0 < ?n" "max_new r \<noteq> None" "prefix_indices r = []"
    using r t ok(1) by (auto simp: admissible_def holds_node_def mem_ok_def tree_disable_def split: tree_cache.splits)
  obtain mnt where mnt: "max_new r = Some mnt" "0 \<le> min mnt CLIP_MAX_NEW_TOKENS" using r by (auto simp: admissible_def CLIP_MAX_NEW_TOKENS_def)
  consider "of_int ?n > min (of_int (cur_rem_tokens a)) (rem_total_tokens a)"
    | "of_int ?n \<le> min (of_int (cur_rem_tokens a)) (rem_total_tokens a)" "\<not> states_fit (cur_rem_tokens a - ?n) 0 ss"
    | (run) "of_int ?n \<le> min (of_int (cur_rem_tokens a)) (rem_total_tokens a)" "states_fit (cur_rem_tokens a - ?n) 0 ss" by linarith
  then show ?thesis
  proof cases
    case run
    have fit: "cur_rem_token_offset a + ?n \<le> available_and_evictable a" using run(1) by (simp add: cur_rem_tokens_def)
    show ?thesis
    proof (cases "\<forall>k. rem_chunk_tokens a = Some k \<longrightarrow> ?n \<le> k")
      case True
      let ?b = "update_prefill_budget 0 ?n (min mnt CLIP_MAX_NEW_TOKENS) (?a\<lparr>can_run_list := can_run_list a @ [r]\<rparr>)"
      have "add_one_req_ignore_eos r a = Some (budget_state ?b, r, ?b)"
        using run True ss mnt(1) ok(2) by (auto simp: add_one_req_ignore_eos_def Let_def ceil_one split: option.splits)
      moreover have "adder_ok ?b"
        by (rule admit_ok [OF a _ _ _ _ _ _ _ _ rr(3,1) refl mnt(2)]) (use ok True fit in \<open>simp_all add: available_and_evictable_def\<close>)
      ultimately show ?thesis using rr(2) by (simp add: admitted_def)
    next
      case False
      then obtain k where k: "rem_chunk_tokens a = Some k" "k < ?n" "0 \<le> k" using a by (auto simp: adder_ok_def)
      show ?thesis
      proof (cases "k = 0")
        case True
        then have "add_one_req_ignore_eos r a = Some (OTHER, r, ?a)"
          using run ss k(1,2) ok(2) by (auto simp: add_one_req_ignore_eos_def Let_def ceil_one)
        then show ?thesis using ok(3) by simp
      next
        case False
        let ?r = "r\<lparr>extend_input_len := k, fill_ids := py_take k (fill_ids r)\<rparr>"
        let ?b = "update_prefill_budget 0 k 0 (?a\<lparr>can_run_list := can_run_list a @ [?r], new_chunked_req := Some ?r\<rparr>)"
        have "add_one_req_ignore_eos r a = Some (budget_state ?b, ?r, ?b)"
          using run False ss k ok(2) by (auto simp: add_one_req_ignore_eos_def Let_def ceil_one)
        moreover have "extend_ready (max_context_len (mem_pool (adder_mem a))) ?r"
          using truncated_ready [OF rr(1) k(3)] k(2) rr(4) by simp
        then have "adder_ok ?b"
          by (intro admit_ok [OF a, where r = ?r]) (use ok k fit rr(3) in \<open>simp_all add: max_new_def available_and_evictable_def\<close>)
        moreover have "prefix (fill_ids ?r) (fill_ids r)" by (simp add: py_take_def take_is_prefix)
        ultimately show ?thesis using False k(3) by (simp add: admitted_def)
      qed
    qed
  qed (use ok ss a in \<open>simp_all add: add_one_req_ignore_eos_def Let_def ceil_one\<close>)
qed

lemma tree_disable_lock: "tree_disable t \<Longrightarrow> tree_ok t \<Longrightarrow> tree_inc_lock n t = Some t"
  by (cases t) (auto simp: tree_disable_def tree_ok_def tree_inc_lock_def chunk_inc_lock_ref_def)

lemma add_one_req_spec:
  assumes a: "adder_ok a" and r: "admissible a r"
  shows "\<exists>res r' a'. add_one_req r a = Some (res, r', a') \<and> adder_ok a' \<and>
    (r' = r \<and> res \<noteq> CONTINUE \<and> adder_mem a' = adder_mem a \<and> can_run_list a' = can_run_list a
     \<or> (\<exists>t. tree_inc_lock (last_node r) (adder_tree a) = Some t \<and> admitted a r t r' a'))"
proof -
  have ok: "tree_ok (adder_tree a)" "adder_page_size a = 1" using a by (auto simp: adder_ok_def mem_ok_tree)
  show ?thesis
  proof (cases "ignore_eos (req_sampling_params r) \<and> tree_disable (adder_tree a)")
    case True
    then show ?thesis using ignore_eos_cases [OF a r] tree_disable_lock [OF _ ok(1)] by (auto simp: add_one_req_def admitted_def)
  next
    case False
    obtain mnt where mnt: "max_new r = Some mnt" "0 \<le> min mnt CLIP_MAX_NEW_TOKENS" using r by (auto simp: admissible_def CLIP_MAX_NEW_TOKENS_def)
    let ?m = "min mnt CLIP_MAX_NEW_TOKENS"
    have h: "req_host_hit_length r = 0" "holds_node (adder_tree a) r" using r by (auto simp: admissible_def)
    obtain t where t: "tree_inc_lock (last_node r) (adder_tree a) = Some t" "tree_dec_lock (last_node r) t = Some (adder_tree a)"
      "tree_ok t" "holds_node t = holds_node (adder_tree a)" using lock_once [OF ok(1) h(2)] by blast
    obtain t2 where t2: "tree_inc_lock (last_node r) t = Some t2" "tree_dec_lock (last_node r) t2 = Some t"
      using lock_once [OF t(3), of r] h(2) t(4) by auto
    consider "of_int (extend_input_len r + ?m) \<ge> rem_total_tokens a"
      | "of_int (extend_input_len r + ?m) < rem_total_tokens a" "extend_input_len r \<ge> rem_input_tokens a" "can_run_list a \<noteq> []"
      | (run) "of_int (extend_input_len r + ?m) < rem_total_tokens a" "\<not> (extend_input_len r \<ge> rem_input_tokens a \<and> can_run_list a \<noteq> [])" by linarith
    then show ?thesis
    proof cases
      case run
      have step: "add_one_req r a = do { (early, r1, a1) \<leftarrow> add_locked r ?m (with_tree t a);
          t' \<leftarrow> tree_dec_lock (last_node r) (adder_tree a1);
          Some (case early of Some res \<Rightarrow> res | None \<Rightarrow> budget_state (with_tree t' a1), r1, with_tree t' a1) }"
        using False run mnt(1) h(1) t(1) ok(2) by (auto simp: add_one_req_def Let_def ceil_one)
      from add_locked_cases [OF a r mnt(2) t(3) t2(1)] show ?thesis
        using t(1,2) t2(2) a unfolding step by (elim disjE exE conjE) (auto simp: admitted_def)
    qed (use False mnt(1) h(1) a ok(2) in \<open>auto simp: add_one_req_def Let_def ceil_one\<close>)
  qed
qed

text \<open>C3: with page size 1, for a request with its prefix matched, \<open>add_one_req\<close> never raises and keeps the admission invariant: the new tokens
  of the admitted requests fit into the free slots plus what can be evicted. Either the request is rejected, and the cache is
  exactly as before, or it is appended (perhaps truncated to the chunk), with one lock on its node, and at least one token to run.\<close>
theorem add_one_req_invariant:
  assumes "adder_ok a" "admissible a r"
  shows "\<exists>res r' a'. add_one_req r a = Some (res, r', a') \<and> adder_ok a' \<and>
    (r' = r \<and> res \<noteq> CONTINUE \<and> adder_mem a' = adder_mem a \<and> can_run_list a' = can_run_list a
     \<or> (\<exists>t. tree_inc_lock (last_node r) (adder_tree a) = Some t \<and> admitted a r t r' a'))"
  using assms by (rule add_one_req_spec)

definition sample_adder :: prefill_adder where
  "sample_adder = the (new_adder 1 (chunk_memory 200 2 8) None 1 100 None 0)"

lemma sample_adder_ok: "adder_ok sample_adder" "can_run_list sample_adder = []" "admissible sample_adder (sample_req [5, 6])"
proof -
  have s: "sample_adder = \<lparr>adder_page_size = 1, adder_mem = chunk_memory 200 2 8, running_reqs = None, new_token_ratio = 1,
      rem_input_tokens = 100, rem_chunk_tokens = None, rem_total_token_offset = 0, cur_rem_token_offset = 0, req_states = None,
      can_run_list = [], new_chunked_req = None, log_hit_tokens = 0, log_input_tokens = 0\<rparr>"
    by (simp add: sample_adder_def new_adder_def)
  show "adder_ok sample_adder" "can_run_list sample_adder = []" by (simp_all add: s adder_ok_def chunk_memory_ok(1))
  show "admissible sample_adder (sample_req [5, 6])"
    by (simp add: s admissible_def extend_ready_def sample_req_def new_req_def chunk_memory_def init_req_pool_def max_new_def
        default_params_def holds_node_def)
qed

theorem add_one_req_invariant_witness:
  "\<exists>r' a'. add_one_req (sample_req [5, 6]) sample_adder = Some (CONTINUE, r', a') \<and> adder_ok a' \<and> can_run_list a' = [r']"
proof -
  obtain res r' a' where r: "add_one_req (sample_req [5, 6]) sample_adder = Some (res, r', a')" "adder_ok a'"
    "res \<noteq> CONTINUE \<or> can_run_list a' = can_run_list sample_adder @ [r']"
    using add_one_req_invariant [OF sample_adder_ok(1,3)] by (auto simp: admitted_def)
  have "map_option fst (add_one_req (sample_req [5, 6]) sample_adder) = Some CONTINUE" by code_simp
  then show ?thesis using r sample_adder_ok(2) by auto
qed

end
