(* ===== verification/Scheduler_Intake.thy ===== *)
theory Scheduler_Intake
  imports Admission
begin

text \<open>
  How requests enter the scheduler (\<^verbatim>\<open>managers/scheduler.py\<close>): its state, the handling of a tokenized
  request with its validation, sessions (\<^verbatim>\<open>managers/session_controller.py\<close>), the queue of requests that wait
  for a grammar, and aborts. Modelled for one pipeline stage without disaggregation, hierarchical cache,
  LoRA, multimodal inputs, speculative decoding or data-parallel attention. Messages to
  other processes are recorded in a list, without the values interpolated into their texts; requests are
  identified by their \<open>rid\<close>.
\<close>

section \<open>Sessions\<close>

record session_params =
  sp_id :: "text option"
  sp_rid :: "text option"
  sp_offset :: "int option"
  sp_replace :: bool
  drop_previous_output :: bool

record tokenized_req =
  t_rid :: "text"
  t_input_text :: "text"
  t_input_ids :: "int list"
  t_sampling_params :: sampling_params
  t_return_logprob :: bool
  t_logprob_start_len :: int
  t_top_logprobs_num :: int
  t_stream :: bool
  t_lora_id :: "text option"
  t_input_embeds :: "nat option"
  t_session_params :: "session_params option"

record session_req_node =
  sn_req :: req
  sn_childs :: "nat list"

record session =
  sess_id :: "text"
  capacity_of_str_len :: int
  req_nodes :: "(text \<times> nat) list"
  sess_heap :: "nat \<Rightarrow> session_req_node option"

definition new_session :: "int \<Rightarrow> text \<Rightarrow> session" where
  "new_session capacity sid = \<lparr>sess_id = sid, capacity_of_str_len = capacity, req_nodes = [], sess_heap = (\<lambda>_. None)\<rparr>"

definition node_abort :: "nat \<Rightarrow> session \<Rightarrow> session" where
  "node_abort n s =
     (case sess_heap s n of
        None \<Rightarrow> s
      | Some sn \<Rightarrow>
          if finished_reason (sn_req sn) = None
          then s\<lparr>sess_heap := (sess_heap s)(n \<mapsto> sn\<lparr>sn_req := (sn_req sn)\<lparr>to_abort := True\<rparr>\<rparr>)\<rparr> else s)"

fun node_clear :: "nat \<Rightarrow> nat \<Rightarrow> session \<Rightarrow> session res"
and nodes_clear :: "nat \<Rightarrow> nat list \<Rightarrow> session \<Rightarrow> session res" where
  \<comment> \<open>\<open>limit\<close> is the recursion limit\<close>
  "node_clear 0 n s = Inl RuntimeError"
| "node_clear (Suc limit) n s =
     (case sess_heap s n of
        None \<Rightarrow> Inl AttributeError
      | Some sn \<Rightarrow> res_bind (nodes_clear limit (sn_childs sn) s) (\<lambda>s1.
          let s2 = node_abort n s1; key = rid (sn_req sn) in
          if key \<in> fst ` set (req_nodes s2) then Inr (s2\<lparr>req_nodes := filter (\<lambda>(k, _). k \<noteq> key) (req_nodes s2)\<rparr>) else Inl KeyError))"
| "nodes_clear limit [] s = Inr s"
| "nodes_clear limit (n # ns) s = res_bind (node_clear limit n s) (nodes_clear limit ns)"

definition clear_childs :: "nat \<Rightarrow> nat \<Rightarrow> session \<Rightarrow> session res" where
  "clear_childs limit n s =
     (case sess_heap s n of
        None \<Rightarrow> Inl AttributeError
      | Some sn \<Rightarrow> res_bind (nodes_clear limit (sn_childs sn) s) (\<lambda>s1.
          Inr (s1\<lparr>sess_heap := (sess_heap s1)(n := map_option (\<lambda>x. x\<lparr>sn_childs := []\<rparr>) (sess_heap s1 n))\<rparr>)))"

definition find_last_req :: "nat \<Rightarrow> session_params \<Rightarrow> session \<Rightarrow> (req option \<times> bool \<times> session) res" where
  \<comment> \<open>the request to continue, whether to abort, and the session; the loop over \<open>req_nodes\<close> deletes from the
    dictionary it iterates over, which raises when the iterator is next used\<close>
  "find_last_req limit p s =
     (if sp_replace p then
        (case sp_rid p of
           None \<Rightarrow>
             (case req_nodes s of
                [] \<Rightarrow> Inr (None, False, s)
              | (_, n) # _ \<Rightarrow> res_bind (node_clear limit n s) (\<lambda>_. Inl RuntimeError))
         | Some i \<Rightarrow>
             (case map_of (req_nodes s) i of
                None \<Rightarrow> Inr (None, True, s)
              | Some n \<Rightarrow> res_bind (clear_childs limit n (node_abort n s)) (\<lambda>s1.
                  Inr (map_option sn_req (sess_heap s1 n), False, s1))))
      else
        (case sp_rid p of
           None \<Rightarrow> Inr (None, False, s)
         | Some i \<Rightarrow>
             (case map_of (req_nodes s) i of
                None \<Rightarrow> Inr (None, True, s)
              | Some n \<Rightarrow> (case sess_heap s n of
                  None \<Rightarrow> Inl AttributeError
                | Some sn \<Rightarrow> Inr (Some (sn_req sn), \<not> finished (sn_req sn), s)))))"

definition create_req :: "nat \<Rightarrow> int option option \<Rightarrow> tokenized_req \<Rightarrow> session \<Rightarrow> (req \<times> session) res" where
  \<comment> \<open>the tokenizer is given by its \<open>bos_token_id\<close>. The arguments of \<open>Req\<close> include \<open>req.lora_path\<close>, which a tokenized
    request does not have\<close>
  "create_req limit tokenizer t s =
     (case t_session_params t of
        None \<Rightarrow> Inl AssertionError
      | Some p \<Rightarrow> res_bind (find_last_req limit p s) (\<lambda>(last_req, ab, s1).
          if last_req \<noteq> None \<and> tokenizer \<noteq> None \<and> t_input_ids t = [] then Inl IndexError
          else Inl AttributeError))"

section \<open>State\<close>

record sched_cfg =
  cfg_page_size :: nat
  pp_size :: nat
  max_running_requests :: int
  max_prefill_tokens :: int
  chunked_prefill_size :: "int option"
  is_mixed_chunk :: bool
  cfg_overlap :: bool
  init_new_token_ratio :: rat
  min_new_token_ratio :: rat
  new_token_ratio_decay :: rat
  decode_mem_cache_buf_multiplier :: nat
  cfg_retract :: retract_args
  attention_backend :: "text"
  max_req_len :: int
  max_req_input_len :: int
  allow_auto_truncate :: bool
  hf_eos_token_id :: "int list option"
  cfg_vocab_size :: int
  cfg_tokenizer :: "tokenizer option"
  max_queued_requests :: int
  max_total_num_tokens :: int
  recursion_limit :: nat
  has_grammar_backend :: bool

record scheduler =
  waiting_queue :: "req list"
  grammar_queue :: "(req \<times> nat) list"
  running_batch :: schedule_batch
  last_batch :: "schedule_batch option"
  chunked_req :: "text option"
  sched_policy :: schedule_policy
  sched_mem :: kv_mem
  sched_ratio :: rat
  max_micro_batch_size :: int
  total_retracted_reqs :: nat
  sessions :: "(text \<times> session) list"
  sent_aborts :: "(text \<times> text option) list"

definition init_ratio :: "rat \<Rightarrow> rat" where
  \<comment> \<open>from \<open>schedule_conservativeness\<close>; the defaults of the global configuration as exact numbers\<close>
  "init_ratio conservativeness = min (7 / 10 * conservativeness) 1"

definition min_ratio :: "rat \<Rightarrow> rat" where
  "min_ratio conservativeness = min (init_ratio conservativeness * (14 / 100)) 1"

definition ratio_decay :: "rat \<Rightarrow> rat" where
  "ratio_decay conservativeness = (init_ratio conservativeness - min_ratio conservativeness) / 600"

section \<open>Requests\<close>

definition add_request_to_queue :: "req \<Rightarrow> scheduler \<Rightarrow> scheduler" where
  "add_request_to_queue r s = s\<lparr>waiting_queue := waiting_queue s @ [r]\<rparr>"

definition extend_requests_to_queue :: "req list \<Rightarrow> scheduler \<Rightarrow> scheduler" where
  "extend_requests_to_queue rs s = s\<lparr>waiting_queue := waiting_queue s @ rs\<rparr>"

definition validate_input_length :: "int \<Rightarrow> bool \<Rightarrow> req \<Rightarrow> text option \<times> req" where
  \<comment> \<open>the numbers in the message are left out\<close>
  "validate_input_length max_len trunc r =
     (if int (length (origin_input_ids r)) \<ge> max_len then
        if trunc then (None, r\<lparr>origin_input_ids := py_take max_len (origin_input_ids r)\<rparr>)
        else (Some (str ''Input length exceeds the maximum allowed length.''), r)
      else (None, r))"

datatype grammar_answer = GrammarReady bool | GrammarInvalid | GrammarPending

definition has_grammar_spec :: "sampling_params \<Rightarrow> bool" where
  "has_grammar_spec p \<longleftrightarrow> json_schema p \<noteq> None \<or> regex p \<noteq> None \<or> ebnf p \<noteq> None \<or> structural_tag p \<noteq> None"

definition grammar_spec_key :: "sampling_params \<Rightarrow> (text \<times> text) res" where
  \<comment> \<open>an empty structural tag alone leaves \<open>key\<close> unbound\<close>
  "grammar_spec_key p =
     (case (json_schema p, regex p, ebnf p, structural_tag p) of
        (Some x, _, _, _) \<Rightarrow> Inr (str ''json'', x)
      | (None, Some x, _, _) \<Rightarrow> Inr (str ''regex'', x)
      | (None, None, Some x, _) \<Rightarrow> Inr (str ''ebnf'', x)
      | (None, None, None, Some x) \<Rightarrow> if x \<noteq> [] then Inr (str ''structural_tag'', x) else Inl UnboundLocalError
      | (None, None, None, None) \<Rightarrow> Inl UnboundLocalError)"

definition enqueue_request :: "sched_cfg \<Rightarrow> (text \<times> text \<Rightarrow> grammar_answer) \<Rightarrow> req \<Rightarrow> scheduler \<Rightarrow> scheduler res" where
  \<comment> \<open>\<open>lookup\<close> is \<open>get_cached_or_future_value\<close>: a cached grammar, a cached invalid one, or a future\<close>
  "enqueue_request cfg lookup r s =
     (if has_grammar_spec (req_sampling_params r) then
        if \<not> has_grammar_backend cfg then Inl AssertionError
        else res_bind (grammar_spec_key (req_sampling_params r)) (\<lambda>key.
          case lookup key of
            GrammarPending \<Rightarrow> Inr (s\<lparr>grammar_queue := grammar_queue s @ [(r, 0)]\<rparr>)
          | GrammarReady b \<Rightarrow> Inr (add_request_to_queue (r\<lparr>grammar := Some b\<rparr>) s)
          | GrammarInvalid \<Rightarrow> Inr (add_request_to_queue (set_finish_with_abort (str ''Invalid grammar request with cache hit'') r) s))
      else Inr (add_request_to_queue r s))"

definition with_limits :: "sched_cfg \<Rightarrow> req \<Rightarrow> req" where
  \<comment> \<open>the limit of new tokens after validation\<close>
  "with_limits cfg r = r\<lparr>req_sampling_params := (req_sampling_params r)\<lparr>max_new_tokens :=
     Some (min (case max_new_tokens (req_sampling_params r) of None \<Rightarrow> 2 ^ 30 | Some n \<Rightarrow> n)
       (max_req_len cfg - int (length (origin_input_ids r)) - 1))\<rparr>\<rparr>"

definition accept_request :: "sched_cfg \<Rightarrow> (text \<times> text \<Rightarrow> grammar_answer) \<Rightarrow> tokenized_req \<Rightarrow> req \<Rightarrow> scheduler \<Rightarrow> scheduler res" where
  \<comment> \<open>from the validation of the prompt length on\<close>
  "accept_request cfg lookup t r s =
     (case validate_input_length (max_req_input_len cfg) (allow_auto_truncate cfg) r of
        (Some msg, r1) \<Rightarrow> Inr (add_request_to_queue (set_finish_with_abort msg r1) s)
      | (None, r1) \<Rightarrow>
          (let n = int (length (origin_input_ids r1));
               start = (if t_logprob_start_len t = - 1 \<or> \<not> t_return_logprob t then n - 1 else t_logprob_start_len t)
           in if start \<ge> n
              then Inr (add_request_to_queue (set_finish_with_abort
                     (str ''logprob_start_len is higher than the number of input tokens. Please use a smaller logprob_start_len.'')
                     (r1\<lparr>logprob_start_len := n - 1\<rparr>)) s)
              else enqueue_request cfg lookup (with_limits cfg (r1\<lparr>logprob_start_len := start\<rparr>)) s))"

definition handle_generate_request ::
  "sched_cfg \<Rightarrow> (text \<times> text \<Rightarrow> grammar_answer) \<Rightarrow> int option option \<Rightarrow> tokenized_req \<Rightarrow> scheduler \<Rightarrow> scheduler res" where
  "handle_generate_request cfg lookup bos t s =
     (let sid = (case t_session_params t of None \<Rightarrow> None | Some p \<Rightarrow> sp_id p) in
      case (case sid of None \<Rightarrow> None | Some i \<Rightarrow> map_of (sessions s) i) of
        None \<Rightarrow>
          (let ids = (case t_input_embeds t of None \<Rightarrow> t_input_ids t | Some n \<Rightarrow> replicate n 1);
               r = (new_req (t_rid t) (t_input_text t) ids (t_sampling_params t) (t_return_logprob t) (t_top_logprobs_num t)
                      (t_stream t) None (t_lora_id t) None (hf_eos_token_id cfg) (Some (cfg_vocab_size cfg)))
                   \<lparr>req_tokenizer := cfg_tokenizer cfg\<rparr>
           in if sid \<noteq> None
              then Inr (add_request_to_queue (set_finish_with_abort
                          (str ''Invalid request: session id '' @ the sid @ str '' does not exist'') r) s)
              else accept_request cfg lookup t r s)
      | Some sess \<Rightarrow> res_bind (create_req (recursion_limit cfg) bos t sess) (\<lambda>(r, sess').
          let s1 = s\<lparr>sessions := map (\<lambda>(k, x). if Some k = sid then (k, sess') else (k, x)) (sessions s)\<rparr>
          in case finished_reason r of
               Some (FINISH_ABORT _ _ _) \<Rightarrow> Inr (add_request_to_queue r s1)
             | _ \<Rightarrow> accept_request cfg lookup t r s1))"

definition receive_request ::
  "sched_cfg \<Rightarrow> (text \<times> text \<Rightarrow> grammar_answer) \<Rightarrow> int option option \<Rightarrow> tokenized_req \<Rightarrow> scheduler \<Rightarrow> scheduler res" where
  \<comment> \<open>\<open>process_input_requests\<close> for a generation request that is not a health check\<close>
  "receive_request cfg lookup bos t s =
     (if int (length (waiting_queue s)) + 1 > max_queued_requests cfg
      then Inr (s\<lparr>sent_aborts := sent_aborts s @ [(t_rid t, Some (str ''The request queue is full.''))]\<rparr>)
      else handle_generate_request cfg lookup bos t s)"

definition open_session :: "int \<Rightarrow> text option \<Rightarrow> scheduler \<Rightarrow> bool \<times> scheduler" where
  "open_session capacity sid s =
     (case sid of
        None \<Rightarrow> (False, s)
      | Some i \<Rightarrow> if i \<in> fst ` set (sessions s) then (False, s)
                 else (True, s\<lparr>sessions := sessions s @ [(i, new_session capacity i)]\<rparr>))"

definition close_session :: "text \<Rightarrow> scheduler \<Rightarrow> scheduler" where
  "close_session sid s = s\<lparr>sessions := filter (\<lambda>(k, _). k \<noteq> sid) (sessions s)\<rparr>"

section \<open>The grammar queue\<close>

definition GRAMMAR_WAIT_LIMIT :: nat where
  \<comment> \<open>\<open>GRAMMAR_TIMEOUT / 0.03\<close> with the default of 300 seconds\<close>
  "GRAMMAR_WAIT_LIMIT = 10000"

fun collect_ready :: "(req \<Rightarrow> grammar_answer) \<Rightarrow> (req \<times> nat) list \<Rightarrow> req list \<times> (req \<times> nat) list" where
  \<comment> \<open>the requests whose grammars are ready, in order, up to the first that is not\<close>
  "collect_ready result [] = ([], [])"
| "collect_ready result ((r, ct) # q) =
     (if finished r then map_prod (\<lambda>rs. r # rs) id (collect_ready result q)
      else case result r of
        GrammarReady b \<Rightarrow> map_prod (\<lambda>rs. r\<lparr>grammar := Some b\<rparr> # rs) id (collect_ready result q)
      | GrammarInvalid \<Rightarrow> map_prod (\<lambda>rs. set_finish_with_abort (str ''Invalid grammar request'') r # rs) id (collect_ready result q)
      | GrammarPending \<Rightarrow> ([], (r, Suc ct) # q))"

definition move_ready_grammar_requests :: "(req \<Rightarrow> grammar_answer) \<Rightarrow> scheduler \<Rightarrow> scheduler" where
  \<comment> \<open>with one tensor-parallel rank; a request that waited too long is moved as aborted\<close>
  "move_ready_grammar_requests result s =
     (case collect_ready result (grammar_queue s) of
        (ready, (r, ct) # q) \<Rightarrow>
          if ct > GRAMMAR_WAIT_LIMIT
          then extend_requests_to_queue (ready @ [set_finish_with_abort (str ''Grammar preprocessing timed out'') r]) (s\<lparr>grammar_queue := q\<rparr>)
          else extend_requests_to_queue ready (s\<lparr>grammar_queue := (r, ct) # q\<rparr>)
      | (ready, []) \<Rightarrow> extend_requests_to_queue ready (s\<lparr>grammar_queue := []\<rparr>))"

section \<open>Aborts\<close>

definition is_extend :: "forward_mode \<Rightarrow> bool" where
  "is_extend m \<longleftrightarrow> m = EXTEND \<or> m = MIXED \<or> m = DRAFT_EXTEND \<or> m = TARGET_VERIFY"

definition abort_matches :: "bool \<Rightarrow> text \<Rightarrow> req \<Rightarrow> bool" where
  "abort_matches abort_all key r \<longleftrightarrow> abort_all \<or> starts_with key (rid r)"

definition mark_abort :: "bool \<Rightarrow> text \<Rightarrow> req \<Rightarrow> req" where
  "mark_abort abort_all key r = (if \<not> finished r \<and> abort_matches abort_all key r then r\<lparr>to_abort := True\<rparr> else r)"

definition mark_batch :: "bool \<Rightarrow> text \<Rightarrow> schedule_batch \<Rightarrow> schedule_batch" where
  "mark_batch abort_all key b = b\<lparr>reqs := map (mark_abort abort_all key) (reqs b)\<rparr>"

definition abort_queued :: "bool \<Rightarrow> text \<Rightarrow> scheduler \<Rightarrow> scheduler" where
  \<comment> \<open>the waiting queue and the grammar queue\<close>
  "abort_queued abort_all key s =
     s\<lparr>waiting_queue := filter (\<lambda>r. \<not> abort_matches abort_all key r) (waiting_queue s),
       sent_aborts := sent_aborts s @ rev (map (\<lambda>r. (rid r, None)) (filter (abort_matches abort_all key) (waiting_queue s))),
       grammar_queue := map (\<lambda>(r, ct). (if abort_matches abort_all key r
         then set_finish_with_abort (str ''Aborted by AbortReq.'') r else r, ct)) (grammar_queue s)\<rparr>"

definition abort_request :: "bool \<Rightarrow> text \<Rightarrow> scheduler \<Rightarrow> scheduler" where
  \<comment> \<open>between two iterations of the loop the current batch is the last one: the running batch itself after a decode
    step, a batch of its own after a prefill\<close>
  "abort_request abort_all key s =
     (let s1 = abort_queued abort_all key s
      in s1\<lparr>running_batch := mark_batch abort_all key (running_batch s1),
            last_batch := map_option (mark_batch abort_all key) (last_batch s1)\<rparr>)"

section \<open>Control\<close>

definition get_token_info :: "sched_cfg \<Rightarrow> scheduler \<Rightarrow> int \<times> rat \<times> int \<times> int" where
  "get_token_info cfg s =
     (let avail = int (kv_available_size (mem_alloc (sched_mem s))); evictable = tree_evictable (mem_tree (sched_mem s));
          used = max_total_num_tokens cfg - (avail + evictable)
      in (used, of_int used / of_int (max_total_num_tokens cfg), avail, evictable))"

definition check_memory :: "sched_cfg \<Rightarrow> scheduler \<Rightarrow> unit res" where
  "check_memory cfg s =
     (case get_token_info cfg s of (_, _, avail, evictable) \<Rightarrow>
        if avail + evictable \<noteq> max_total_num_tokens cfg then Inl ValueError
        else if length (free_slots (mem_pool (sched_mem s))) \<noteq> rows (mem_pool (sched_mem s)) then Inl ValueError
        else Inr ())"

definition self_check_during_idle :: "sched_cfg \<Rightarrow> scheduler \<Rightarrow> scheduler res" where
  "self_check_during_idle cfg s = res_bind (check_memory cfg s) (\<lambda>_. Inr (s\<lparr>sched_ratio := init_new_token_ratio cfg\<rparr>))"

definition get_load :: "sched_cfg \<Rightarrow> scheduler \<Rightarrow> int" where
  "get_load cfg s =
     max_total_num_tokens cfg - int (kv_available_size (mem_alloc (sched_mem s))) - tree_evictable (mem_tree (sched_mem s))
     + sum_list (map (\<lambda>r. int (length (origin_input_ids r))) (waiting_queue s))"

definition kv_clear :: "kv_alloc \<Rightarrow> kv_alloc" where
  "kv_clear a = (case a of TokAlloc x \<Rightarrow> TokAlloc (tok_clear x) | PagedAlloc x \<Rightarrow> PagedAlloc (paged_clear x))"

definition tree_reset :: "tree_cache \<Rightarrow> tree_cache" where
  "tree_reset t = (case t of RadixTree c \<Rightarrow> RadixTree (reset c) | ChunkTree c \<Rightarrow> ChunkTree (chunk_reset c))"

definition flush_cache :: "scheduler \<Rightarrow> bool \<times> scheduler" where
  "flush_cache s =
     (if waiting_queue s = [] \<and> is_empty (running_batch s)
      then (True, s\<lparr>last_batch := None, sched_mem := \<lparr>mem_pool = clear_rows (mem_pool (sched_mem s)),
             mem_alloc = kv_clear (mem_alloc (sched_mem s)), mem_tree = tree_reset (mem_tree (sched_mem s))\<rparr>\<rparr>)
      else (False, s))"

fun settings_valid :: "sched_cfg \<Rightarrow> (text \<times> int) list \<Rightarrow> bool" where
  "settings_valid cfg [] = True"
| "settings_valid cfg ((k, v) # rest) =
     (if k \<notin> set [str ''max_micro_batch_size'', str ''speculative_accept_threshold_single'', str ''speculative_accept_threshold_acc'']
      then False
      else if k = str ''max_micro_batch_size'' \<and> (v > max_running_requests cfg div int (pp_size cfg) \<or> v < 1) then False
      else settings_valid cfg rest)"

definition set_internal_state :: "sched_cfg \<Rightarrow> (text \<times> int) list \<Rightarrow> scheduler \<Rightarrow> bool \<times> scheduler" where
  \<comment> \<open>the flag of the reply; of the settings only the batch size is represented\<close>
  "set_internal_state cfg args s =
     (True, if settings_valid cfg args
        then (case map_of args (str ''max_micro_batch_size'') of None \<Rightarrow> s | Some v \<Rightarrow> s\<lparr>max_micro_batch_size := v\<rparr>) else s)"

end
