(* ===== verification/Scheduler.thy ===== *)
theory Scheduler
  imports Scheduler_Intake
begin

text \<open>
  How the scheduler forms and finishes batches (\<^verbatim>\<open>managers/scheduler.py\<close> and
  \<^verbatim>\<open>managers/scheduler_output_processor_mixin.py\<close>): the next prefill batch, the update of the running batch,
  the choice between them, and what the results of a forward pass do to the requests. Fuel and shuffle are
  those of \<open>calc_priority\<close>; \<open>other\<close> is the content of fresh device memory. An operation that raises returns \<open>None\<close>.
\<close>

section \<open>The caches behind one interface\<close>

definition tree_next_round :: "req \<Rightarrow> tree_cache \<Rightarrow> (req \<times> tree_cache) option" where
  \<comment> \<open>\<open>init_next_round_input\<close> with the cache of the scheduler\<close>
  "tree_next_round r t =
     (case t of
        RadixTree c \<Rightarrow> do {
          (r', c') \<leftarrow> init_next_round_input r (Some c);
          c'' \<leftarrow> c';
          Some (r', RadixTree c'')
        }
      | ChunkTree c \<Rightarrow>
          (case adjust_max_prefix_ids r of
             Inl _ \<Rightarrow> None
           | Inr (key, r1) \<Rightarrow>
               (case chunk_match_prefix key c of (xs, n, h) \<Rightarrow>
                  let r2 = r1\<lparr>prefix_indices := xs, last_node := n, last_host_node := h, req_host_hit_length := 0\<rparr>
                  in Some (r2\<lparr>extend_input_len := int (length (fill_ids r2)) - int (length xs)\<rparr>, t))))"

definition tree_cache_finished :: "req \<Rightarrow> kv_mem \<Rightarrow> kv_mem option" where
  "tree_cache_finished r m =
     (case mem_tree m of
        RadixTree c \<Rightarrow> map_option (\<lambda>(c', p, a). \<lparr>mem_pool = p, mem_alloc = a, mem_tree = RadixTree c'\<rparr>)
          (cache_finished_req kv_free r c (mem_pool m) (mem_alloc m))
      | ChunkTree _ \<Rightarrow> map_option (\<lambda>(p, a). m\<lparr>mem_pool := p, mem_alloc := a\<rparr>)
          (chunk_cache_finished_req kv_free r (mem_pool m) (mem_alloc m)))"

definition tree_cache_unfinished :: "req \<Rightarrow> kv_mem \<Rightarrow> (req \<times> kv_mem) option" where
  "tree_cache_unfinished r m =
     (case mem_tree m of
        RadixTree c \<Rightarrow> map_option (\<lambda>(r', c', p, a). (r', \<lparr>mem_pool = p, mem_alloc = a, mem_tree = RadixTree c'\<rparr>))
          (cache_unfinished_req kv_free r c (mem_pool m) (mem_alloc m))
      | ChunkTree _ \<Rightarrow> map_option (\<lambda>r'. (r', m)) (chunk_cache_unfinished_req r (mem_pool m)))"

section \<open>The next prefill batch\<close>

definition get_num_allocatable_reqs :: "sched_cfg \<Rightarrow> scheduler \<Rightarrow> nat \<Rightarrow> int" where
  "get_num_allocatable_reqs cfg s running_bs =
     (let n = max_micro_batch_size s - int running_bs
      in if pp_size cfg > 1 then min n (int (rows_available (mem_pool (sched_mem s)))) else n)"

fun admit_loop :: "int \<Rightarrow> req list \<Rightarrow> prefill_adder \<Rightarrow> bool \<Rightarrow> (req list \<times> prefill_adder \<times> bool) option" where
  \<comment> \<open>over the waiting queue: the queue with the changed requests, the adder, and whether the running batch is full\<close>
  "admit_loop limit [] a full = Some ([], a, full)"
| "admit_loop limit (r # q) a full =
     (if int (length (can_run_list a)) \<ge> limit then Some (r # q, a, True)
      else do {
        (r1, t) \<leftarrow> tree_next_round r (adder_tree a);
        (res, r2, a1) \<leftarrow> add_one_req r1 (with_tree t a);
        (if res \<noteq> CONTINUE then Some (r2 # q, a1, full \<or> res = NO_TOKEN)
         else do {
           (q', a2, full') \<leftarrow> admit_loop limit q a1 full;
           Some (r2 # q', a2, full')
         })
      })"

definition count_chunk :: "text option \<Rightarrow> req \<Rightarrow> req" where
  "count_chunk c r = (if c = Some (rid r) then r\<lparr>is_chunked := is_chunked r + 1\<rparr> else r)"

definition empty_batch :: "bool \<Rightarrow> schedule_batch" where
  \<comment> \<open>\<open>ScheduleBatch(reqs=[], batch_is_full=full)\<close>\<close>
  "empty_batch full = (init_new [] False)\<lparr>is_prefill_only := False, batch_is_full := full\<rparr>"

definition mix_running :: "sched_cfg \<Rightarrow> int \<Rightarrow> schedule_batch \<Rightarrow> scheduler \<Rightarrow> (schedule_batch \<times> scheduler) option" where
  \<comment> \<open>mixed-style chunked prefill\<close>
  "mix_running cfg other nb s =
     (let rb = running_batch s in
      if is_mixed_chunk cfg \<and> \<not> is_empty rb \<and> \<not> (batch_return_logprob nb \<or> batch_return_logprob rb)
      then do {
        rb1 \<leftarrow> filter_batch [] None rb;
        (nb1, m) \<leftarrow> (if is_empty rb1 then Some (nb, sched_mem s)
          else do {
            (rb2, m) \<leftarrow> prepare_for_decode other rb1 (sched_mem s);
            nb1 \<leftarrow> mix_with_running nb rb2;
            Some (nb1\<lparr>decoding_reqs := Some (reqs rb2)\<rparr>, m)
          });
        Some (nb1, s\<lparr>sched_mem := m, running_batch := empty_batch (batch_is_full rb1)\<rparr>)
      } else Some (nb\<lparr>decoding_reqs := None\<rparr>, s))"

definition start_adder :: "sched_cfg \<Rightarrow> req option \<Rightarrow> scheduler \<Rightarrow> (text option \<times> prefill_adder) option" where
  \<comment> \<open>the adder of a round, with the chunked request; the name of the request that stays chunked\<close>
  "start_adder cfg chunked s = do {
     let bs = length (reqs (running_batch s));
     a0 \<leftarrow> new_adder (cfg_page_size cfg) (sched_mem s) (Some (reqs (running_batch s))) (sched_ratio s) (max_prefill_tokens cfg)
            (chunked_prefill_size cfg) (if is_mixed_chunk cfg then int bs else 0);
     (case chunked of
        None \<Rightarrow> Some (None, a0)
      | Some r \<Rightarrow> do {
          (r1, _) \<leftarrow> init_next_round_input r None;
          (cr, _, a1) \<leftarrow> add_chunked_req r1 a0;
          Some (map_option rid cr, a1)
        })
   }"

definition launch_prefill :: "sched_cfg \<Rightarrow> int \<Rightarrow> text option \<Rightarrow> prefill_adder \<Rightarrow> scheduler \<Rightarrow> (schedule_batch \<times> scheduler) option" where
  \<comment> \<open>the new batch from the admitted requests\<close>
  "launch_prefill cfg other cr a s = do {
     let can = can_run_list a;
     cr1 \<leftarrow> (case new_chunked_req a of None \<Rightarrow> Some cr | Some r \<Rightarrow> if cr = None then Some (Some (rid r)) else None);
     let b = (init_new (map (count_chunk cr1) can) (cfg_overlap cfg))\<lparr>batch_chunked_req := cr1\<rparr>;
     (b1, m) \<leftarrow> prepare_for_extend (attention_backend cfg) other b (sched_mem s);
     mix_running cfg other b1 (s\<lparr>waiting_queue := filter (\<lambda>r. rid r \<notin> rid ` set can) (waiting_queue s), chunked_req := cr1, sched_mem := m\<rparr>)
   }"

definition get_new_batch_prefill ::
  "sched_cfg \<Rightarrow> nat \<Rightarrow> (req list \<Rightarrow> req list) \<Rightarrow> (req \<Rightarrow> grammar_answer) \<Rightarrow> int \<Rightarrow> req option \<Rightarrow> scheduler
     \<Rightarrow> (schedule_batch option \<times> scheduler) option" where
  \<comment> \<open>\<open>chunked\<close> is the request that \<open>chunked_req\<close> names\<close>
  "get_new_batch_prefill cfg fuel shuffle result other chunked s0 =
     (let s = (if grammar_queue s0 \<noteq> [] then move_ready_grammar_requests result s0 else s0);
          rb = running_batch s; bs = length (reqs rb) in
      if (batch_is_full rb \<or> length (waiting_queue s) = 0) \<and> chunked = None then Some (None, s)
      else if get_num_allocatable_reqs cfg s bs \<le> 0 \<and> chunked = None
      then Some (None, s\<lparr>running_batch := rb\<lparr>batch_is_full := True\<rparr>\<rparr>)
      else do {
        (_, q, pol) \<leftarrow> calc_priority fuel shuffle (waiting_queue s) ((sched_policy s)\<lparr>sp_tree_cache := mem_tree (sched_mem s)\<rparr>);
        let s1 = s\<lparr>waiting_queue := q, sched_policy := pol, sched_mem := (sched_mem s)\<lparr>mem_tree := sp_tree_cache pol\<rparr>\<rparr>;
        (cr, a) \<leftarrow> start_adder cfg chunked s1;
        (q1, a1, full) \<leftarrow> admit_loop (get_num_allocatable_reqs cfg s1 bs) q a (batch_is_full rb);
        let s2 = s1\<lparr>waiting_queue := q1, sched_mem := adder_mem a1, running_batch := rb\<lparr>batch_is_full := full\<rparr>, chunked_req := cr\<rparr>;
        (if length (can_run_list a1) = 0 then Some (None, s2)
         else map_option (\<lambda>(b, s'). (Some b, s')) (launch_prefill cfg other cr a1 s2))
      })"

section \<open>The running batch\<close>

definition update_running_batch :: "sched_cfg \<Rightarrow> int \<Rightarrow> scheduler \<Rightarrow> scheduler option" where
  \<comment> \<open>\<open>TEST_RETRACT\<close> is off\<close>
  "update_running_batch cfg other s = do {
     let initial_bs = batch_size (running_batch s);
     b \<leftarrow> filter_batch [] None (running_batch s);
     (if is_empty b then Some (s\<lparr>running_batch := b\<lparr>batch_is_full := False\<rparr>\<rparr>)
      else do {
        (enough, m) \<leftarrow> check_decode_mem (decode_mem_cache_buf_multiplier cfg) b (sched_mem s);
        (b1, s1) \<leftarrow> (if \<not> enough
          then do {
            (retracted, ratio, b1, m1) \<leftarrow> retract_decode (cfg_retract cfg) b m;
            Some (b1, extend_requests_to_queue retracted (s\<lparr>sched_mem := m1, sched_ratio := ratio,
                total_retracted_reqs := total_retracted_reqs s + length retracted\<rparr>))
          } else Some (b, s\<lparr>sched_mem := m, sched_ratio := max (sched_ratio s - new_token_ratio_decay cfg) (min_new_token_ratio cfg)\<rparr>));
        let b2 = (if batch_size b1 < initial_bs then b1\<lparr>batch_is_full := False\<rparr> else b1);
        (b3, m3) \<leftarrow> prepare_for_decode other b2 (sched_mem s1);
        Some (s1\<lparr>running_batch := b3, sched_mem := m3\<rparr>)
      })
   }"

definition stash_chunked :: "scheduler \<Rightarrow> (req option \<times> scheduler) option" where
  \<comment> \<open>caches the chunked request, which the last batch holds, and frees its row\<close>
  "stash_chunked s =
     (case chunked_req s of
        None \<Rightarrow> Some (None, s)
      | Some i \<Rightarrow> do {
          b \<leftarrow> last_batch s;
          r \<leftarrow> find (\<lambda>r. rid r = i) (reqs b);
          (r1, m) \<leftarrow> tree_cache_unfinished r (sched_mem s);
          row \<leftarrow> req_pool_idx r1;
          Some (Some r1, s\<lparr>sched_mem := m\<lparr>mem_pool := free_row row (mem_pool m)\<rparr>\<rparr>)
        })"

definition merge_last_batch :: "req option \<Rightarrow> scheduler \<Rightarrow> scheduler option" where
  "merge_last_batch chunked s =
     (case last_batch s of
        Some lb \<Rightarrow>
          if (case forward_mode lb of None \<Rightarrow> False | Some fm \<Rightarrow> is_extend fm) then do {
            let excluded = (case chunked of None \<Rightarrow> [] | Some r \<Rightarrow> [rid r]) @ (case batch_chunked_req lb of None \<Rightarrow> [] | Some i \<Rightarrow> [i]);
            lb1 \<leftarrow> filter_batch excluded None lb;
            let rb = (if batch_size lb1 < batch_size lb then (running_batch s)\<lparr>batch_is_full := False\<rparr> else running_batch s);
            (if \<not> is_empty lb1 \<and> \<not> is_prefill_only lb1 then
               if is_empty rb then Some (s\<lparr>running_batch := lb1\<rparr>)
               else do { rb1 \<leftarrow> merge_batch rb lb1; Some (s\<lparr>running_batch := rb1\<rparr>) }
             else Some (s\<lparr>running_batch := rb\<rparr>))
          } else Some s
      | None \<Rightarrow> Some s)"

definition get_next_batch_to_run ::
  "sched_cfg \<Rightarrow> nat \<Rightarrow> (req list \<Rightarrow> req list) \<Rightarrow> (req \<Rightarrow> grammar_answer) \<Rightarrow> int \<Rightarrow> scheduler \<Rightarrow> (schedule_batch option \<times> scheduler) option" where
  "get_next_batch_to_run cfg fuel shuffle result other s = do {
     (chunked, s1) \<leftarrow> stash_chunked s;
     s2 \<leftarrow> merge_last_batch chunked s1;
     (nb, s3) \<leftarrow> get_new_batch_prefill cfg fuel shuffle result other chunked s2;
     (case nb of
        Some b \<Rightarrow> Some (Some b, s3)
      | None \<Rightarrow>
          if \<not> is_empty (running_batch s3) then do {
            s4 \<leftarrow> update_running_batch cfg other s3;
            Some (if \<not> is_empty (running_batch s4) then Some (running_batch s4) else None, s4)
          } else Some (None, s3))
   }"

definition get_idle_batch :: "sched_cfg \<Rightarrow> schedule_batch" where
  "get_idle_batch cfg = prepare_for_idle (init_new [] (cfg_overlap cfg))"

section \<open>Results of a forward pass\<close>

fun kv_free_group_begin :: "kv_alloc \<Rightarrow> kv_alloc" where
  "kv_free_group_begin (TokAlloc a) = TokAlloc (free_group_begin a)"
| "kv_free_group_begin (PagedAlloc a) = PagedAlloc (free_group_begin a)"

fun kv_free_group_end :: "kv_alloc \<Rightarrow> kv_alloc res" where
  "kv_free_group_end (TokAlloc a) = res_bind (tok_free_group_end a) (\<lambda>a'. Inr (TokAlloc a'))"
| "kv_free_group_end (PagedAlloc a) = res_bind (free_group_end paged_free a) (\<lambda>a'. Inr (PagedAlloc a'))"

definition free_slots_of :: "int list \<Rightarrow> kv_mem \<Rightarrow> kv_mem option" where
  "free_slots_of xs m = map_option (\<lambda>a. m\<lparr>mem_alloc := a\<rparr>) (res_option (kv_free xs (mem_alloc m)))"

definition accept_grammar :: "(req \<Rightarrow> int \<Rightarrow> bool option) \<Rightarrow> nat \<Rightarrow> int \<Rightarrow> req list \<times> scheduler \<Rightarrow> req list \<times> scheduler" where
  \<comment> \<open>\<open>accept\<close> is the grammar: what \<open>is_terminated\<close> answers after the token, or \<open>None\<close> when \<open>accept_token\<close> raises, which
    aborts the request (and those whose name starts like its)\<close>
  "accept_grammar accept i t = (\<lambda>(rs, s).
     let r = rs ! i in
     if grammar r = None then (rs, s)
     else case accept r t of
       Some b \<Rightarrow> (rs[i := r\<lparr>grammar := Some b\<rparr>], s)
     | None \<Rightarrow> (map (mark_abort False (rid r)) rs,
                (abort_queued False (rid r) s)\<lparr>running_batch := mark_batch False (rid r) (running_batch s)\<rparr>))"

definition prefill_result ::
  "sched_cfg \<Rightarrow> (req \<Rightarrow> int \<Rightarrow> bool option) \<Rightarrow> schedule_batch \<Rightarrow> nat \<Rightarrow> int \<Rightarrow> req list \<times> scheduler \<Rightarrow> (req list \<times> scheduler) option" where
  \<comment> \<open>one request of a prefill batch; \<open>rs\<close> are the requests of the batch\<close>
  "prefill_result cfg accept b i t = (\<lambda>(rs, s).
     let r = rs ! i in
     if is_retracted r then Some (rs, s)
     else if is_mixed_chunk cfg \<and> cfg_overlap cfg \<and> finished r then do {
       loc \<leftarrow> out_cache_loc b;
       let j = int (length loc) - int (length (reqs b)) + int i;
       m \<leftarrow> free_slots_of (py_drop j (py_take (j + 1) loc)) (sched_mem s);
       Some (rs, s\<lparr>sched_mem := m\<rparr>)
     }
     else if is_chunked r \<le> 0 then do {
       r1 \<leftarrow> res_option (check_finished (r\<lparr>output_ids := output_ids r @ [t]\<rparr>));
       (r2, m) \<leftarrow> (if finished r1 then map_option (\<lambda>m. (r1, m)) (tree_cache_finished r1 (sched_mem s))
         else if (case decoding_reqs b of None \<Rightarrow> True | Some ds \<Rightarrow> rid r \<notin> rid ` set ds)
         then tree_cache_unfinished r1 (sched_mem s) else Some (r1, sched_mem s));
       Some (accept_grammar accept i t (rs[i := r2], s\<lparr>sched_mem := m\<rparr>))
     }
     else Some (rs[i := r\<lparr>is_chunked := is_chunked r - 1\<rparr>], s))"

fun result_loop :: "(nat \<Rightarrow> int \<Rightarrow> req list \<times> scheduler \<Rightarrow> (req list \<times> scheduler) option) \<Rightarrow> nat \<Rightarrow> int list \<Rightarrow> req list \<times> scheduler
    \<Rightarrow> (req list \<times> scheduler) option" where
  \<comment> \<open>the loop over the requests and their next tokens\<close>
  "result_loop f i [] x = Some x"
| "result_loop f i (t # ts) x =
     (if i < length (fst x) then do { x' \<leftarrow> f i t x; result_loop f (Suc i) ts x' } else Some x)"

definition process_batch_result_prefill ::
  "sched_cfg \<Rightarrow> (req \<Rightarrow> int \<Rightarrow> bool option) \<Rightarrow> int list \<Rightarrow> schedule_batch \<Rightarrow> scheduler \<Rightarrow> (schedule_batch \<times> scheduler) option" where
  "process_batch_result_prefill cfg accept next_token_ids b s = do {
     (rs, s1) \<leftarrow> result_loop (prefill_result cfg accept b) 0 next_token_ids (reqs b, s);
     Some (b\<lparr>reqs := rs, batch_output_ids := Some next_token_ids\<rparr>, s1)
   }"

definition decode_result ::
  "sched_cfg \<Rightarrow> (req \<Rightarrow> int \<Rightarrow> bool option) \<Rightarrow> schedule_batch \<Rightarrow> nat \<Rightarrow> int \<Rightarrow> req list \<times> scheduler \<Rightarrow> (req list \<times> scheduler) option" where
  "decode_result cfg accept b i t = (\<lambda>(rs, s).
     let r = rs ! i in
     if is_retracted r then Some (rs, s)
     else if cfg_overlap cfg \<and> finished r then do {
       loc \<leftarrow> out_cache_loc b;
       m \<leftarrow> (if cfg_page_size cfg = 1 \<or> (int (length (origin_input_ids r) + length (output_ids r)) - 1) mod int (cfg_page_size cfg) = 0
              then free_slots_of (py_drop (int i) (py_take (int i + 1) loc)) (sched_mem s) else Some (sched_mem s));
       Some (rs, s\<lparr>sched_mem := m\<rparr>)
     }
     else do {
       r1 \<leftarrow> res_option (check_finished (r\<lparr>output_ids := output_ids r @ [t]\<rparr>));
       m \<leftarrow> (if finished r1 then tree_cache_finished r1 (sched_mem s) else Some (sched_mem s));
       Some (accept_grammar accept i t (rs[i := r1], s\<lparr>sched_mem := m\<rparr>))
     })"

definition process_batch_result_decode ::
  "sched_cfg \<Rightarrow> (req \<Rightarrow> int \<Rightarrow> bool option) \<Rightarrow> int list \<Rightarrow> scheduler \<Rightarrow> scheduler option" where
  \<comment> \<open>the batch is the running batch\<close>
  "process_batch_result_decode cfg accept next_token_ids s = do {
     let b = (running_batch s)\<lparr>batch_output_ids := Some next_token_ids\<rparr>;
     let m = sched_mem s;
     (rs, s1) \<leftarrow> result_loop (decode_result cfg accept b) 0 next_token_ids
        (reqs b, s\<lparr>sched_mem := m\<lparr>mem_alloc := kv_free_group_begin (mem_alloc m)\<rparr>\<rparr>);
     a \<leftarrow> res_option (kv_free_group_end (mem_alloc (sched_mem s1)));
     Some (s1\<lparr>running_batch := b\<lparr>reqs := rs\<rparr>, sched_mem := (sched_mem s1)\<lparr>mem_alloc := a\<rparr>\<rparr>)
   }"

end
