(* ===== verification/Scheduler_Correct.thy ===== *)
theory Scheduler_Correct
  imports Scheduler
begin

text \<open>
  What the scheduler guarantees when it forms a batch (page size 1, no mixed chunked prefill, waiting requests that have a
  limit of new tokens and fit into a row): the next prefill batch does not run out of memory or rows, and no request is lost or
  duplicated on the way from the waiting queue to the batch.
\<close>

section \<open>Preparing a waiting request\<close>

definition waiting_ok :: "nat \<Rightarrow> req \<Rightarrow> bool" where
  "waiting_ok w r \<longleftrightarrow> (\<exists>n. max_new r = Some n \<and> 0 \<le> n) \<and> origin_input_ids r \<noteq> [] \<and> length (origin_input_ids r) + length (output_ids r) \<le> w"

lemma next_round_admissible:
  assumes t: "tree_ok t" and r: "waiting_ok w r"
  shows "\<exists>r' t'. tree_next_round r t = Some (r', t') \<and> tree_ok t' \<and> tree_evictable t' = tree_evictable t
     \<and> extend_ready w r' \<and> 0 < extend_input_len r' \<and> max_new r' = max_new r \<and> req_host_hit_length r' = 0 \<and> holds_node t' r' \<and> rid r' = rid r"
proof (cases t)
  case (RadixTree c)
  let ?ids = "origin_input_ids r @ output_ids r"
  have c: "radix_ok c" "\<not> disable c" "max_new_tokens (req_sampling_params r) \<noteq> None" "origin_input_ids r \<noteq> []"
    using t r RadixTree by (auto simp: tree_ok_def waiting_ok_def max_new_def)
  obtain pre n h c' where x: "init_next_round_input r (Some c)
       = Some (r\<lparr>fill_ids := ?ids, prefix_indices := pre, last_node := Some n, last_host_node := h, req_host_hit_length := 0,
                 extend_input_len := int (length ?ids) - int (length pre)\<rparr>, Some c')"
    "radix_ok c'" "\<not> disable c'" "evictable_size c' = evictable_size c" "path c' n (take (length pre) ?ids) pre" "length pre < length ?ids"
    using next_round_radix [OF c] by (elim exE conjE) (rule that)
  show ?thesis using RadixTree x r
    by (auto simp: tree_next_round_def tree_ok_def tree_evictable_def extend_ready_def max_new_def holds_node_def waiting_ok_def simp del: take_append)
next
  case (ChunkTree c)
  have "max_new_tokens (req_sampling_params r) \<noteq> None" "origin_input_ids r \<noteq> []" using r by (auto simp: waiting_ok_def max_new_def)
  then obtain k where "adjust_max_prefix_ids r = Inr (take k (origin_input_ids r @ output_ids r), r\<lparr>fill_ids := origin_input_ids r @ output_ids r\<rparr>)"
    using adjust_key by blast
  then show ?thesis using ChunkTree r
    by (auto simp: tree_next_round_def chunk_match_prefix_def tree_ok_def extend_ready_def max_new_def holds_node_def waiting_ok_def simp del: take_append)
      (cases "origin_input_ids r"; simp)
qed

section \<open>The admission loop\<close>

lemma adder_ok_tree:
  assumes "adder_ok a" "tree_ok t" "tree_evictable t = tree_evictable (adder_tree a)"
  shows "adder_ok (with_tree t a)"
  using assms by (simp add: adder_ok_def mem_ok_tree available_and_evictable_def with_tree_def)

lemma admittedD:
  assumes "admitted a r t r' a'"
  shows "rid r' = rid r" "mem_pool (adder_mem a') = mem_pool (adder_mem a)" "can_run_list a' = can_run_list a @ [r']"
proof -
  have "r' = r\<lparr>extend_input_len := extend_input_len r', fill_ids := fill_ids r'\<rparr>" using assms unfolding admitted_def by (elim conjE)
  from arg_cong [OF this, of rid] show "rid r' = rid r" by simp
  show "mem_pool (adder_mem a') = mem_pool (adder_mem a)" "can_run_list a' = can_run_list a @ [r']"
    using assms unfolding admitted_def by blast+
qed

lemma admit_loop_spec:
  assumes "adder_ok a" "\<forall>r\<in>set q. waiting_ok (max_context_len (mem_pool (adder_mem a))) r"
  shows "\<exists>q' a' full' new. admit_loop limit q a full = Some (q', a', full') \<and> adder_ok a' \<and> map rid q' = map rid q
     \<and> mem_pool (adder_mem a') = mem_pool (adder_mem a) \<and> can_run_list a' = can_run_list a @ new \<and> prefix (map rid new) (map rid q)
     \<and> int (length (can_run_list a')) \<le> max limit (int (length (can_run_list a)))"
  using assms
proof (induction q arbitrary: a)
  case Nil
  then show ?case by simp
next
  case (Cons r q)
  show ?case
  proof (cases "int (length (can_run_list a)) \<ge> limit")
    case True
    then show ?thesis using Cons.prems(1) by auto
  next
    case False
    have ok: "tree_ok (adder_tree a)" using Cons.prems(1) by (simp add: adder_ok_def mem_ok_tree)
    have r: "waiting_ok (max_context_len (mem_pool (adder_mem a))) r" using Cons.prems(2) by simp
    obtain r1 t where t: "tree_next_round r (adder_tree a) = Some (r1, t)" "tree_ok t" "tree_evictable t = tree_evictable (adder_tree a)"
      "extend_ready (max_context_len (mem_pool (adder_mem a))) r1" "0 < extend_input_len r1" "max_new r1 = max_new r" "req_host_hit_length r1 = 0"
      "holds_node t r1" "rid r1 = rid r"
      using next_round_admissible [OF ok r] by (elim exE conjE) (rule that)
    have a: "adder_ok (with_tree t a)" using adder_ok_tree [OF Cons.prems(1) t(2,3)] .
    have r1: "admissible (with_tree t a) r1" using t r by (auto simp: admissible_def waiting_ok_def)
    obtain res r2 a1 where a1: "add_one_req r1 (with_tree t a) = Some (res, r2, a1)" "adder_ok a1"
      "r2 = r1 \<and> res \<noteq> CONTINUE \<and> adder_mem a1 = adder_mem (with_tree t a) \<and> can_run_list a1 = can_run_list a
       \<or> (\<exists>t2. admitted (with_tree t a) r1 t2 r2 a1)"
      using add_one_req_spec [OF a r1] by (simp del: split_paired_Ex) (elim exE conjE, rule that, auto)
    have a2: "rid r2 = rid r" "mem_pool (adder_mem a1) = mem_pool (adder_mem a)"
      "can_run_list a1 = can_run_list a \<and> res \<noteq> CONTINUE \<or> can_run_list a1 = can_run_list a @ [r2]"
      using a1(3) t(9) admittedD [of "with_tree t a" r1 _ r2 a1] by auto
    have step: "admit_loop limit (r # q) a full = (if res \<noteq> CONTINUE then Some (r2 # q, a1, full \<or> res = NO_TOKEN)
        else do { (q', a2, full') \<leftarrow> admit_loop limit q a1 full; Some (r2 # q', a2, full') })"
      using False t(1) a1(1) by simp
    show ?thesis
    proof (cases "res = CONTINUE")
      case True
      have q: "\<forall>r\<in>set q. waiting_ok (max_context_len (mem_pool (adder_mem a1))) r" using Cons.prems(2) a2(2) by simp
      obtain q' a' full' new where ih: "admit_loop limit q a1 full = Some (q', a', full')" "adder_ok a'" "map rid q' = map rid q"
        "mem_pool (adder_mem a') = mem_pool (adder_mem a1)" "can_run_list a' = can_run_list a1 @ new" "prefix (map rid new) (map rid q)"
        "int (length (can_run_list a')) \<le> max limit (int (length (can_run_list a1)))"
        using Cons.IH [OF a1(2) q] by (elim exE conjE) (rule that)
      have "can_run_list a1 = can_run_list a @ [r2]" using a2(3) True by simp
      then show ?thesis using step True ih a2 False
        by - (rule exI [of _ "r2 # q'"], rule exI [of _ a'], rule exI [of _ full'], rule exI [of _ "r2 # new"], simp)
    next
      case 2: False
      from a2(3) show ?thesis
      proof
        assume "can_run_list a1 = can_run_list a \<and> res \<noteq> CONTINUE"
        then show ?thesis using step a2 a1(2) False
          by - (rule exI [of _ "r2 # q"], rule exI [of _ a1], rule exI [of _ "full \<or> res = NO_TOKEN"], rule exI [of _ "[]"], simp)
      next
        assume "can_run_list a1 = can_run_list a @ [r2]"
        then show ?thesis using step 2 a2 a1(2) False
          by - (rule exI [of _ "r2 # q"], rule exI [of _ a1], rule exI [of _ "full \<or> res = NO_TOKEN"], rule exI [of _ "[r2]"], simp)
      qed
    qed
  qed
qed

section \<open>The next prefill batch\<close>

definition round_ok :: "sched_cfg \<Rightarrow> scheduler \<Rightarrow> bool" where
  "round_ok cfg s \<longleftrightarrow> cfg_page_size cfg = 1 \<and> \<not> is_mixed_chunk cfg \<and> (\<forall>n. chunked_prefill_size cfg = Some n \<longrightarrow> 0 \<le> n)
     \<and> mem_ok (sched_mem s) \<and> 0 \<le> sched_ratio s
     \<and> (\<forall>r\<in>set (reqs (running_batch s)). \<exists>n. max_new r = Some n \<and> int (length (output_ids r)) \<le> n)"

definition sched_ok :: "sched_cfg \<Rightarrow> scheduler \<Rightarrow> bool" where
  \<comment> \<open>the last line: every running request holds a row\<close>
  "sched_ok cfg s \<longleftrightarrow> round_ok cfg s \<and> rows_ok (mem_pool (sched_mem s))
     \<and> policy_ok ((sched_policy s)\<lparr>sp_tree_cache := mem_tree (sched_mem s)\<rparr>)
     \<and> (\<forall>r\<in>set (waiting_queue s). waiting_ok (max_context_len (mem_pool (sched_mem s))) r) \<and> distinct (map rid (waiting_queue s))
     \<and> max_micro_batch_size s - int (length (reqs (running_batch s))) \<le> int (length (free_slots (mem_pool (sched_mem s))))"

lemma new_adder_ok:
  assumes "round_ok cfg s"
  shows "\<exists>a. start_adder cfg None s = Some (None, a) \<and> adder_ok a \<and> can_run_list a = [] \<and> adder_mem a = sched_mem s"
proof -
  let ?f = "\<lambda>r. of_int (min (the (max_new r) - int (length (output_ids r))) CLIP_MAX_NEW_TOKENS) * sched_ratio s :: rat"
  have run: "\<forall>r\<in>set (reqs (running_batch s)). \<exists>n. max_new r = Some n \<and> int (length (output_ids r)) \<le> n" "0 \<le> sched_ratio s"
    using assms by (auto simp: round_ok_def)
  have "0 \<le> ?f r" if "r \<in> set (reqs (running_batch s))" for r
    using run that by (intro mult_nonneg_nonneg) (auto simp: CLIP_MAX_NEW_TOKENS_def)
  then have "0 \<le> sum_list (map ?f (reqs (running_batch s)))" by (intro sum_list_nonneg) auto
  moreover have "\<forall>r\<in>set (reqs (running_batch s)). max_new r \<noteq> None" using run(1) by auto
  ultimately show ?thesis using assms
    by (auto simp: start_adder_def new_adder_def round_ok_def adder_ok_def Let_def)
qed

lemma filter_prefix:
  assumes "prefix (map f new) (map f q)" "distinct (map f q)"
  shows "mset (map f (filter (\<lambda>r. f r \<notin> f ` set new) q)) + mset (map f new) = mset (map f q)"
proof -
  obtain ys where ys: "map f q = map f new @ ys" using assms(1) by (auto simp: prefix_def)
  have "map f (filter (\<lambda>r. f r \<notin> f ` set new) q) = filter (\<lambda>x. x \<notin> f ` set new) (map f q)" by (simp add: filter_map o_def)
  also have "\<dots> = filter (\<lambda>x. x \<notin> f ` set new) ys" unfolding ys by simp
  also have "\<dots> = ys" using assms(2) unfolding ys by (intro filter_True) auto
  finally show ?thesis unfolding ys by simp
qed

lemma count_chunk_simps [simp]:
  "rid (count_chunk c r) = rid r" "extend_ready w (count_chunk c r) = extend_ready w r" "extend_input_len (count_chunk c r) = extend_input_len r"
  by (simp_all add: count_chunk_def extend_ready_def)

lemma launch_prefill_runs:
  assumes a: "adder_ok a" and can: "can_run_list a \<noteq> []" and s: "sched_mem s = adder_mem a" "rows_ok (mem_pool (sched_mem s))" "\<not> is_mixed_chunk cfg"
    and rows: "length (can_run_list a) \<le> length (free_slots (mem_pool (sched_mem s)))"
  shows "\<exists>b s' out. launch_prefill cfg other None a s = Some (b, s') \<and> map rid (reqs b) = map rid (can_run_list a)
     \<and> waiting_queue s' = filter (\<lambda>r. rid r \<notin> rid ` set (can_run_list a)) (waiting_queue s)
     \<and> out_cache_loc b = Some out \<and> int (length out) = sum_list (map extend_input_len (can_run_list a))"
proof -
  let ?cr = "map_option rid (new_chunked_req a)"
  let ?rs = "map (count_chunk ?cr) (can_run_list a)"
  let ?b = "(init_new ?rs (cfg_overlap cfg))\<lparr>batch_chunked_req := ?cr\<rparr>"
  have b: "reqs ?b = ?rs" by (simp add: init_new_def)
  have ready: "\<forall>r\<in>set (reqs ?b). extend_ready (max_context_len (mem_pool (sched_mem s))) r"
    using a s(1) unfolding b by (auto simp: adder_ok_def)
  have sum: "int (extend_offset (reqs ?b) (length (reqs ?b))) = sum_list (map extend_input_len (can_run_list a))"
    using sum_extend_take [OF ready, of "length (reqs ?b)"] unfolding b by (simp add: o_def)
  have mem: "mem_ok (sched_mem s)" using a s(1) by (simp add: adder_ok_def)
  have "sum_list (map extend_input_len (can_run_list a)) \<le> available_and_evictable a"
    using a can by (auto simp: adder_ok_def)
  then have enough: "int (extend_offset (reqs ?b) (length (reqs ?b))) \<le> int (size (kv_pool (mem_alloc (sched_mem s)))) + tree_evictable (mem_tree (sched_mem s))"
    using mem unfolding sum by (simp add: available_and_evictable_def s(1) mem_ok_def tok_available)
  have n: "length (reqs ?b) \<le> length (free_slots (mem_pool (sched_mem s)))" using rows unfolding b by simp
  obtain b' m' out where e: "prepare_for_extend (attention_backend cfg) other ?b (sched_mem s) = Some (b', m')"
    "reqs b' = map2 extend_req (req_pool_indices b') (reqs ?b)" "out_cache_loc b' = Some out" "length out = extend_offset (reqs ?b) (length (reqs ?b))"
    "req_pool_indices b' = take (length (reqs ?b)) (free_slots (mem_pool (sched_mem s)))"
    using extend_run [OF mem s(2) ready n enough, of "attention_backend cfg" other] by (elim exE conjE) (rule that)
  have rids: "map rid (reqs b') = map rid (can_run_list a)"
    unfolding e(2,5) b using n b by (auto simp: list_eq_iff_nth_eq extend_req_def Let_def)
  have "launch_prefill cfg other None a s = Some (b'\<lparr>decoding_reqs := None\<rparr>,
      s\<lparr>waiting_queue := filter (\<lambda>r. rid r \<notin> rid ` set (can_run_list a)) (waiting_queue s), chunked_req := ?cr, sched_mem := m'\<rparr>)"
    using e(1) s(3) by (cases "new_chunked_req a") (simp_all add: launch_prefill_def mix_running_def Let_def)
  then show ?thesis using rids e(3,4) sum by auto
qed

lemma waiting_ok_core: "req_core r' = req_core r \<Longrightarrow> waiting_ok w r' = waiting_ok w r"
  by (auto simp: req_core_def waiting_ok_def max_new_def)

lemma waiting_ok_perm:
  assumes "mset (map req_core q') = mset (map req_core q)" "\<forall>r\<in>set q. waiting_ok w r"
  shows "\<forall>r\<in>set q'. waiting_ok w r"
proof
  fix r assume "r \<in> set q'"
  then have "req_core r \<in> set (map req_core q')" by simp
  then have "req_core r \<in> set (map req_core q)" using mset_eq_setD [OF assms(1)] by simp
  then obtain r0 where "r0 \<in> set q" "req_core r = req_core r0" by auto
  then show "waiting_ok w r" using assms(2) waiting_ok_core by blast
qed

lemma prefill_round:
  assumes ok: "sched_ok cfg s" and q: "mset (map req_core q) = mset (map req_core (waiting_queue s))"
    and t: "tree_ok t" and bs: "bs = length (reqs (running_batch s))" and n: "get_num_allocatable_reqs cfg s bs > 0"
    and s1: "s1 = s\<lparr>waiting_queue := q, sched_policy := pol, sched_mem := (sched_mem s)\<lparr>mem_tree := t\<rparr>\<rparr>"
  shows "\<exists>a q1 a1 full. start_adder cfg None s1 = Some (None, a)
     \<and> admit_loop (get_num_allocatable_reqs cfg s1 bs) q a (batch_is_full (running_batch s)) = Some (q1, a1, full)
     \<and> adder_ok a1 \<and> map rid q1 = map rid q \<and> mem_pool (adder_mem a1) = mem_pool (sched_mem s)
     \<and> prefix (map rid (can_run_list a1)) (map rid q) \<and> length (can_run_list a1) \<le> length (free_slots (mem_pool (sched_mem s)))"
proof -
  have r1: "round_ok cfg s1" using ok t by (auto simp: sched_ok_def round_ok_def s1 mem_ok_tree)
  obtain a where a: "start_adder cfg None s1 = Some (None, a)" "adder_ok a" "can_run_list a = []" "adder_mem a = sched_mem s1"
    using new_adder_ok [OF r1] by blast
  have w: "\<forall>r\<in>set q. waiting_ok (max_context_len (mem_pool (adder_mem a))) r"
    using waiting_ok_perm [OF q] ok by (simp add: a(4) s1 sched_ok_def)
  let ?n = "get_num_allocatable_reqs cfg s1 bs"
  have n1: "?n = get_num_allocatable_reqs cfg s bs" by (simp add: s1 get_num_allocatable_reqs_def Let_def)
  obtain q1 a1 full new where l: "admit_loop ?n q a (batch_is_full (running_batch s)) = Some (q1, a1, full)" "adder_ok a1" "map rid q1 = map rid q"
    "mem_pool (adder_mem a1) = mem_pool (adder_mem a)" "can_run_list a1 = can_run_list a @ new" "prefix (map rid new) (map rid q)"
    "int (length (can_run_list a1)) \<le> max ?n (int (length (can_run_list a)))"
    using admit_loop_spec [OF a(2) w, of ?n "batch_is_full (running_batch s)"] by (elim exE conjE) (rule that)
  have "?n \<le> int (length (free_slots (mem_pool (sched_mem s))))"
    unfolding n1 using ok bs by (auto simp: sched_ok_def get_num_allocatable_reqs_def Let_def)
  then have "length (can_run_list a1) \<le> length (free_slots (mem_pool (sched_mem s)))" using l(7) n n1 a(3) by simp
  then show ?thesis using a l by (simp add: s1)
qed

lemma prefill_after_priority:
  assumes ok: "sched_ok cfg s" and g: "grammar_queue s = []" and ne: "\<not> (batch_is_full (running_batch s) \<or> waiting_queue s = [])"
    and n: "get_num_allocatable_reqs cfg s (length (reqs (running_batch s))) > 0"
    and q: "calc_priority fuel shuffle (waiting_queue s) ((sched_policy s)\<lparr>sp_tree_cache := mem_tree (sched_mem s)\<rparr>) = Some (b, q, p)"
      "mset (map req_core q) = mset (map req_core (waiting_queue s))" "tree_ok (sp_tree_cache p)"
  shows "\<exists>nb s'. get_new_batch_prefill cfg fuel shuffle result other None s = Some (nb, s')
      \<and> mset (map rid (waiting_queue s)) = mset (map rid (waiting_queue s')) + (case nb of None \<Rightarrow> {#} | Some b \<Rightarrow> mset (map rid (reqs b)))
      \<and> (\<forall>b. nb = Some b \<longrightarrow> reqs b \<noteq> [] \<and> (\<exists>out. out_cache_loc b = Some out))"
proof -
  let ?rb = "running_batch s"
  define s1 where "s1 = s\<lparr>waiting_queue := q, sched_policy := p, sched_mem := (sched_mem s)\<lparr>mem_tree := sp_tree_cache p\<rparr>\<rparr>"
  have perm: "mset (map rid q) = mset (map rid (waiting_queue s))" using mset_core_rid [OF q(2)] .
  have "distinct (map rid (waiting_queue s))" using ok by (simp add: sched_ok_def)
  then have d: "distinct (map rid q)" using mset_eq_imp_distinct_iff [OF perm] by simp
  obtain a q1 a1 full where r: "start_adder cfg None s1 = Some (None, a)"
    "admit_loop (get_num_allocatable_reqs cfg s1 (length (reqs ?rb))) q a (batch_is_full ?rb) = Some (q1, a1, full)"
    "adder_ok a1" "map rid q1 = map rid q" "mem_pool (adder_mem a1) = mem_pool (sched_mem s)"
    "prefix (map rid (can_run_list a1)) (map rid q)" "length (can_run_list a1) \<le> length (free_slots (mem_pool (sched_mem s)))"
    using prefill_round [OF ok q(2,3) refl n s1_def] by (elim exE conjE) (rule that)
  define s2 where "s2 = s1\<lparr>waiting_queue := q1, sched_mem := adder_mem a1, running_batch := ?rb\<lparr>batch_is_full := full\<rparr>, chunked_req := None\<rparr>"
  have step: "get_new_batch_prefill cfg fuel shuffle result other None s
      = (if can_run_list a1 = [] then Some (None, s2) else map_option (\<lambda>(b, s'). (Some b, s')) (launch_prefill cfg other None a1 s2))"
    using g ne n q(1) r(1,2) by (simp add: get_new_batch_prefill_def Let_def s1_def s2_def)
  have q1: "mset (map rid q1) = mset (map rid (waiting_queue s))" unfolding r(4) by (rule perm)
  show ?thesis
  proof (cases "can_run_list a1 = []")
    case True
    then show ?thesis using step q1 by (simp add: s2_def)
  next
    case False
    have s2: "sched_mem s2 = adder_mem a1" "rows_ok (mem_pool (sched_mem s2))" "\<not> is_mixed_chunk cfg"
      "length (can_run_list a1) \<le> length (free_slots (mem_pool (sched_mem s2)))"
      using ok r(5,7) by (auto simp: s2_def sched_ok_def round_ok_def)
    obtain nb s' out where l: "launch_prefill cfg other None a1 s2 = Some (nb, s')" "map rid (reqs nb) = map rid (can_run_list a1)"
      "waiting_queue s' = filter (\<lambda>r. rid r \<notin> rid ` set (can_run_list a1)) (waiting_queue s2)" "out_cache_loc nb = Some out"
      using launch_prefill_runs [OF r(3) False s2, of other] by (elim exE conjE) (rule that)
    have "mset (map rid (waiting_queue s')) + mset (map rid (reqs nb)) = mset (map rid (waiting_queue s))"
      unfolding l(2,3) using filter_prefix [of rid "can_run_list a1" q1] r(4,6) d q1 by (simp add: s2_def)
    moreover have "reqs nb \<noteq> []" using l(2) False by auto
    ultimately show ?thesis using step False l(1,4) by simp
  qed
qed

text \<open>C1: a scheduler in order forms its next prefill batch. In order means: page size 1 (token allocator), mixed chunked prefill off, a
  chunk size that is absent or not negative, no chunked prefill under way and no request waiting for a grammar; every waiting request has a limit
  of new tokens, a prompt that is not empty, and tokens that fit into a row, and their ids are distinct; every running request has a
  limit that its output does not exceed; a free row exists for every request that may still run; a cache-aware policy has an enabled
  radix cache; and the shuffle of the random policy permutes. Then forming the batch does not raise: the admitted requests get a row
  and all the token slots they need, under every policy, over the radix cache and the chunk cache. Every waiting request is
  afterwards either in the batch or still waiting, exactly once, and a batch that is launched is not empty.\<close>
theorem prefill_batch_formed:
  assumes ok: "sched_ok cfg s" and shuffle: "\<And>q. mset (shuffle q) = mset q" and g: "grammar_queue s = []"
  shows "\<exists>fuel0. \<forall>fuel\<ge>fuel0. \<exists>nb s'. get_new_batch_prefill cfg fuel shuffle result other None s = Some (nb, s')
    \<and> mset (map rid (waiting_queue s)) = mset (map rid (waiting_queue s')) + (case nb of None \<Rightarrow> {#} | Some b \<Rightarrow> mset (map rid (reqs b)))
    \<and> (\<forall>b. nb = Some b \<longrightarrow> reqs b \<noteq> [] \<and> (\<exists>out. out_cache_loc b = Some out))"
proof -
  let ?rb = "running_batch s" and ?bs = "length (reqs (running_batch s))"
  let ?pol = "(sched_policy s)\<lparr>sp_tree_cache := mem_tree (sched_mem s)\<rparr>"
  consider "batch_is_full ?rb \<or> waiting_queue s = []" | "\<not> (batch_is_full ?rb \<or> waiting_queue s = [])" "get_num_allocatable_reqs cfg s ?bs \<le> 0"
    | (run) "\<not> (batch_is_full ?rb \<or> waiting_queue s = [])" "get_num_allocatable_reqs cfg s ?bs > 0" by linarith
  then show ?thesis
  proof cases
    case run
    have w: "\<forall>r\<in>set (waiting_queue s). max_new_tokens (req_sampling_params r) \<noteq> None" and p: "policy_ok ?pol" and t0: "tree_ok (sp_tree_cache ?pol)"
      using ok by (auto simp: sched_ok_def round_ok_def waiting_ok_def max_new_def mem_ok_tree)
    obtain fuel0 where f: "\<forall>fuel\<ge>fuel0. \<exists>b q p. calc_priority fuel shuffle (waiting_queue s) ?pol = Some (b, q, p)
        \<and> mset (map req_core q) = mset (map req_core (waiting_queue s)) \<and> tree_ok (sp_tree_cache p)"
      using calc_priority_spec [OF p shuffle w] t0 by metis
    have "\<exists>nb s'. get_new_batch_prefill cfg fuel shuffle result other None s = Some (nb, s')
      \<and> mset (map rid (waiting_queue s)) = mset (map rid (waiting_queue s')) + (case nb of None \<Rightarrow> {#} | Some b \<Rightarrow> mset (map rid (reqs b)))
      \<and> (\<forall>b. nb = Some b \<longrightarrow> reqs b \<noteq> [] \<and> (\<exists>out. out_cache_loc b = Some out))" if fuel: "fuel0 \<le> fuel" for fuel
    proof -
      obtain b q p where q: "calc_priority fuel shuffle (waiting_queue s) ?pol = Some (b, q, p)"
        "mset (map req_core q) = mset (map req_core (waiting_queue s))" "tree_ok (sp_tree_cache p)" using f fuel by blast
      show ?thesis by (rule prefill_after_priority [OF ok g run(1)  run(2) q])
    qed
    then show ?thesis by blast
  qed (use g in \<open>auto simp: get_new_batch_prefill_def Let_def\<close>)
qed

definition sample_cfg :: sched_cfg where
  "sample_cfg = \<lparr>cfg_page_size = 1, pp_size = 1, max_running_requests = 2, max_prefill_tokens = 100, chunked_prefill_size = None,
     is_mixed_chunk = False, cfg_overlap = False, init_new_token_ratio = init_ratio 1, min_new_token_ratio = min_ratio 1,
     new_token_ratio_decay = ratio_decay 1, decode_mem_cache_buf_multiplier = 1,
     cfg_retract = \<lparr>speculative_algorithm = False, speculative_eagle_topk = 0, speculative_num_steps = 0, speculative_num_draft_tokens = 0, server_page_size = 1\<rparr>,
     attention_backend = str ''triton'', max_req_len = 8, max_req_input_len = 3, allow_auto_truncate = False, hf_eos_token_id = None,
     cfg_vocab_size = 100, cfg_tokenizer = None, max_queued_requests = 10, max_total_num_tokens = 200, recursion_limit = 10,
     has_grammar_backend = True\<rparr>"

definition sample_scheduler :: scheduler where
  \<comment> \<open>two requests wait, nothing runs\<close>
  "sample_scheduler = \<lparr>waiting_queue = [(sample_req [1])\<lparr>rid := str ''a''\<rparr>, (sample_req [2, 3])\<lparr>rid := str ''b''\<rparr>], grammar_queue = [],
     running_batch = empty_batch False, last_batch = None, chunked_req = None,
     sched_policy = \<lparr>sp_policy = FCFS, sp_tree_cache = ChunkTree \<lparr>chunk_page_size = 1\<rparr>,
       waiting_queue_radix_tree = init_radix_cache 1 False False 0 int sum_list\<rparr>,
     sched_mem = chunk_memory 200 2 8, sched_ratio = init_ratio 1, max_micro_batch_size = 2, total_retracted_reqs = 0,
     sessions = [], sent_aborts = []\<rparr>"

lemma sample_scheduler_ok: "sched_ok sample_cfg sample_scheduler"
proof -
  have "round_ok sample_cfg sample_scheduler"
    by (simp add: round_ok_def sample_cfg_def sample_scheduler_def chunk_memory_ok(1) init_ratio_def empty_batch_def init_new_def)
  moreover have "policy_ok ((sched_policy sample_scheduler)\<lparr>sp_tree_cache := mem_tree (sched_mem sample_scheduler)\<rparr>)"
    using radix_ok_init [of 1] by (simp add: policy_ok_def sample_scheduler_def)
  moreover have "\<forall>r\<in>set (waiting_queue sample_scheduler). waiting_ok 8 r"
    by (simp add: sample_scheduler_def sample_req_def new_req_def waiting_ok_def max_new_def default_params_def)
  ultimately show ?thesis unfolding sched_ok_def
    by (simp add: sample_scheduler_def chunk_memory_ok(3) empty_batch_def init_new_def str_def)
      (simp add: chunk_memory_def init_req_pool_def)
qed

theorem prefill_batch_formed_witness:
  "\<exists>fuel nb s'. get_new_batch_prefill sample_cfg fuel rev (\<lambda>_. GrammarPending) 0 None sample_scheduler = Some (nb, s')
     \<and> mset (map rid (waiting_queue s')) + (case nb of None \<Rightarrow> {#} | Some b \<Rightarrow> mset (map rid (reqs b))) = {#str ''a'', str ''b''#}"
proof -
  have g: "grammar_queue sample_scheduler = []" by (simp add: sample_scheduler_def)
  obtain fuel nb s' where "get_new_batch_prefill sample_cfg fuel rev (\<lambda>_. GrammarPending) 0 None sample_scheduler = Some (nb, s')"
    "mset (map rid (waiting_queue sample_scheduler)) = mset (map rid (waiting_queue s')) + (case nb of None \<Rightarrow> {#} | Some b \<Rightarrow> mset (map rid (reqs b)))"
    using prefill_batch_formed [OF sample_scheduler_ok mset_rev g] by (meson order_refl)
  then show ?thesis by (intro exI [of _ fuel] exI [of _ nb] exI [of _ s']) (simp add: sample_scheduler_def)
qed

end
