(* ===== verification/Decode_Loop.thy ===== *)
theory Decode_Loop
  imports Scheduler_Correct
begin

text \<open>
  What the update of the running batch guarantees with the token allocator (page size 1) and the chunk cache, without
  speculative decoding: unless a single request is left without a free slot, it leads to a decode step, by
  retracting requests when memory is short, and every unfinished request keeps running or waits again.
\<close>

definition batch_rows :: "schedule_batch \<Rightarrow> kv_mem \<Rightarrow> bool" where
  \<comment> \<open>every request owns the row of its sequence\<close>
  "batch_rows b m \<longleftrightarrow> (\<forall>k<length (reqs b). has_row (mem_pool m) (reqs b ! k) (seq_lens b ! k))"

lemma gather_ready:
  assumes r: "decode_ready b m" "batch_rows b m" "batch_output_ids b = Some outs"
    and ks: "distinct ks" "\<And>k. k \<in> set ks \<Longrightarrow> k < length (reqs b)" "ks \<noteq> []" "length ks \<noteq> length (reqs b)"
    and f: "filter_batch ex (Some (map int ks)) b = Some b'"
  shows "decode_ready b' m" "batch_rows b' m" "reqs b' = map ((!) (reqs b)) ks" "\<exists>outs. batch_output_ids b' = Some outs"
proof -
  have ok: "batch_ok b" "distinct (req_pool_indices b)" "length (req_pool_indices b) = length (reqs b)" "length (seq_lens b) = length (reqs b)"
    using r(1) by (auto simp: decode_ready_def batch_ok_def)
  have b': "batch_ok b'" "reqs b' = map ((!) (reqs b)) ks" "req_pool_indices b' = map ((!) (req_pool_indices b)) ks"
    "seq_lens b' = map ((!) (seq_lens b)) ks" "\<exists>outs. batch_output_ids b' = Some outs"
    using filter_batch_gather [OF ok(1) r(3) ks(2-4), where ex = ex] f by auto
  have "inj_on ((!) (req_pool_indices b)) (set ks)" using ok(2,3) ks(2) by (auto simp: inj_on_def nth_eq_iff_index_eq)
  then have "distinct (req_pool_indices b')" using ks(1) by (simp add: b'(3) distinct_map)
  then show "decode_ready b' m" using r(1) b' ks(2) by (auto simp: decode_ready_def)
  show "batch_rows b' m" using r(2) b'(2,4) ks(2) by (auto simp: batch_rows_def)
  show "reqs b' = map ((!) (reqs b)) ks" by (rule b'(2))
  show "\<exists>outs. batch_output_ids b' = Some outs" by (rule b'(5))
qed

lemma filter_ready:
  assumes r: "decode_ready b m" "batch_rows b m" "batch_output_ids b = Some outs"
  shows "\<exists>b'. filter_batch [] None b = Some b' \<and> reqs b' = filter (\<lambda>r. \<not> finished r) (reqs b)
     \<and> (reqs b' \<noteq> [] \<longrightarrow> decode_ready b' m \<and> batch_rows b' m \<and> (\<exists>outs. batch_output_ids b' = Some outs))"
proof -
  let ?ks = "kept_indices [] b"
  have keep: "filter_batch [] None b = filter_batch [] (Some (map int ?ks)) b"
    by (simp add: filter_batch_def keep_unfinished_def kept_indices_def)
  have reqs: "map ((!) (reqs b)) ?ks = filter (\<lambda>r. \<not> finished r) (reqs b)" using kept_reqs [of b "[]"] by simp
  have ks: "\<And>k. k \<in> set ?ks \<Longrightarrow> k < length (reqs b)" "distinct ?ks" by (auto simp: kept_indices_def)
  consider "?ks = []" | "?ks \<noteq> []" "length ?ks = length (reqs b)" | "?ks \<noteq> []" "length ?ks \<noteq> length (reqs b)" by blast
  then show ?thesis
  proof cases
    case 1
    then show ?thesis using reqs unfolding keep by (simp add: filter_batch_def)
  next
    case 2
    then have "length (filter (\<lambda>r. \<not> finished r) (reqs b)) = length (reqs b)" unfolding reqs [symmetric] by simp
    then have "filter (\<lambda>r. \<not> finished r) (reqs b) = reqs b" by (metis filter_True filter_full)
    moreover have "filter_batch [] (Some (map int ?ks)) b = Some b" using 2 by (simp add: filter_batch_def)
    ultimately show ?thesis using r unfolding keep by simp
  next
    case 3
    have ok: "batch_ok b" using r(1) by (simp add: decode_ready_def)
    obtain b' where b': "filter_batch [] (Some (map int ?ks)) b = Some b'" using filter_batch_gather [OF ok r(3) ks(1) 3] by blast
    show ?thesis using gather_ready [OF r ks(2,1) 3 b'] b' unfolding keep reqs by blast
  qed
qed

lemma decode_ready_full [simp]: "decode_ready (b\<lparr>batch_is_full := x\<rparr>) m = decode_ready b m"
  by (simp add: decode_ready_def batch_ok_def)

lemma chunk_decode_mem:
  assumes "decode_ready b m" "chunk_mem m"
  shows "check_decode_mem 1 b m = Some (length (reqs b) \<le> size (kv_pool (mem_alloc m)), m)"
proof -
  have k: "kv_ok None (mem_alloc m)" using assms(2) by (simp add: chunk_mem_def)
  have "kv_page_size (mem_alloc m) = 1" using k by (cases "mem_alloc m") simp_all
  then show ?thesis using assms(2) tok_available [OF k]
    by (auto simp: check_decode_mem_def chunk_mem_def evict_tree_cache_if_needed_def is_available_size_sufficient_def new_page_count_next_decode_def Let_def)
qed

lemma decode_ready_table:
  assumes "decode_ready b m" "chunk_mem m'" "req_to_token (mem_pool m') = req_to_token (mem_pool m)" "max_context_len (mem_pool m') = max_context_len (mem_pool m)"
  shows "decode_ready b m'"
  using assms by (auto simp: decode_ready_def chunk_mem_def mem_ok_def row_ok_def)

lemma retract_ready:
  assumes r: "decode_ready b m" "batch_rows b m" "batch_output_ids b = Some outs" and m: "chunk_mem m" and sa: "\<not> speculative_algorithm sa"
    and two: "2 \<le> length (reqs b)" and lim: "\<forall>r\<in>set (reqs b). \<exists>n>0. max_new_tokens (req_sampling_params r) = Some n"
  shows "\<exists>retracted ratio b' m'. retract_decode sa b m = Some (retracted, ratio, b', m') \<and> decode_ready b' m' \<and> chunk_mem m' \<and> reqs b' \<noteq> []
     \<and> length (reqs b') \<le> size (kv_pool (mem_alloc m')) \<and> mset (map rid (reqs b')) + mset (map rid retracted) = mset (map rid (reqs b))"
proof -
  have rows: "\<forall>k<length (reqs b). has_row (mem_pool m) (reqs b ! k) (seq_lens b ! k)" "batch_ok b"
    using r(1,2) by (auto simp: batch_rows_def decode_ready_def)
  obtain gone ks ratio b' m' where x: "retract_decode sa b m = Some (map (\<lambda>i. reset_for_retract (reqs b ! i)) gone, ratio, b', m')"
    "filter_batch [] (Some (map int ks)) b = Some b'" "gone \<noteq> []" "ks \<noteq> []" "mset gone + mset ks = mset [0..<length (reqs b)]" "chunk_mem m'"
    "0 < size (kv_pool (mem_alloc m'))" "20 * length ks \<le> size (kv_pool (mem_alloc m')) \<or> length ks = 1"
    "req_to_token (mem_pool m') = req_to_token (mem_pool m)" "max_context_len (mem_pool m') = max_context_len (mem_pool m)"
    using retract_run [OF rows(2) r(3) m sa two rows(1) lim] by (elim exE conjE) (rule that)
  have "mset (gone @ ks) = mset [0..<length (reqs b)]" using x(5) by simp
  then have g: "distinct (gone @ ks)" "set (gone @ ks) = {0..<length (reqs b)}" "length gone + length ks = length (reqs b)"
    using mset_eq_imp_distinct_iff [of "gone @ ks" "[0..<length (reqs b)]"] mset_eq_setD [of "gone @ ks" "[0..<length (reqs b)]"]
      mset_eq_length [of "gone @ ks" "[0..<length (reqs b)]"] by auto
  have k: "distinct ks" "\<And>k. k \<in> set ks \<Longrightarrow> k < length (reqs b)" "ks \<noteq> []" "length ks \<noteq> length (reqs b)"
    using g x(3,4) by auto
  have b': "decode_ready b' m" "reqs b' = map ((!) (reqs b)) ks" using gather_ready [OF r k x(2)] by auto
  have "length (reqs b') \<le> size (kv_pool (mem_alloc m'))" using x(7,8) b'(2) by auto
  moreover have "mset (map rid (reqs b')) + mset (map rid (map (\<lambda>i. reset_for_retract (reqs b ! i)) gone)) = image_mset (\<lambda>i. rid (reqs b ! i)) (mset gone + mset ks)"
    unfolding b'(2) by (simp add: multiset.map_comp o_def reset_for_retract_def)
  moreover have "image_mset (\<lambda>i. rid (reqs b ! i)) (mset gone + mset ks) = mset (map rid (reqs b))"
    unfolding x(5) mset_map [symmetric] by (metis (no_types, lifting) comp_apply list.map_comp map_eq_conv map_nth)
  ultimately show ?thesis using x(1,4,6) b'(2) decode_ready_table [OF b'(1) x(6,9,10)]
    by - (rule exI [of _ "map (\<lambda>i. reset_for_retract (reqs b ! i)) gone"], rule exI [of _ ratio], rule exI [of _ b'], rule exI [of _ m'], simp)
qed

definition running_ok :: "sched_cfg \<Rightarrow> scheduler \<Rightarrow> bool" where
  \<comment> \<open>the batch is aligned and owns its rows, over the token allocator and the chunk cache\<close>
  "running_ok cfg s \<longleftrightarrow> decode_ready (running_batch s) (sched_mem s) \<and> batch_rows (running_batch s) (sched_mem s)
     \<and> batch_output_ids (running_batch s) \<noteq> None \<and> chunk_mem (sched_mem s)
     \<and> \<not> speculative_algorithm (cfg_retract cfg) \<and> decode_mem_cache_buf_multiplier cfg = 1
     \<and> (\<forall>r\<in>set (reqs (running_batch s)). \<exists>n>0. max_new_tokens (req_sampling_params r) = Some n)"

lemma decode_step:
  assumes "decode_ready b m" "length (reqs b) \<le> size (kv_pool (mem_alloc m))" "chunk_mem m"
  shows "\<exists>b' m' out. prepare_for_decode other (if c then b\<lparr>batch_is_full := x\<rparr> else b) m = Some (b', m')
     \<and> reqs b' = reqs b \<and> out_cache_loc b' = Some out \<and> forward_mode b' = Some DECODE"
proof -
  let ?b = "if c then b\<lparr>batch_is_full := x\<rparr> else b"
  have b: "decode_ready ?b m" "reqs ?b = reqs b" using assms(1) by simp_all
  have n: "int (length (reqs ?b)) \<le> int (size (kv_pool (mem_alloc m))) + tree_evictable (mem_tree m)"
    unfolding b(2) using assms(2,3) by (auto simp: chunk_mem_def tree_evictable_def)
  obtain b' m' out where d: "prepare_for_decode other ?b m = Some (b', m')" "out_cache_loc b' = Some out" "reqs b' = reqs ?b"
    using decode_run [OF b(1) n, of other] by (elim exE conjE) (rule that)
  then have "forward_mode b' = Some DECODE" by (auto simp: prepare_for_decode_def Let_def bind_eq_Some_conv)
  then show ?thesis using d unfolding b(2) by (intro exI conjI)
qed

lemma update_running_single:
  assumes "running_ok cfg s" "length (filter (\<lambda>r. \<not> finished r) (reqs (running_batch s))) = 1" "kv_available_size (mem_alloc (sched_mem s)) = 0"
  shows "update_running_batch cfg other s = None"
proof -
  let ?b = "running_batch s" and ?m = "sched_mem s"
  have ok: "decode_ready ?b ?m" "batch_rows ?b ?m" "chunk_mem ?m" "decode_mem_cache_buf_multiplier cfg = 1"
    using assms(1) by (auto simp: running_ok_def)
  obtain outs where outs: "batch_output_ids ?b = Some outs" using assms(1) by (auto simp: running_ok_def)
  obtain b where b: "filter_batch [] None ?b = Some b" "reqs b = filter (\<lambda>r. \<not> finished r) (reqs ?b)"
    "reqs b \<noteq> [] \<longrightarrow> decode_ready b ?m" using filter_ready [OF ok(1,2) outs] by blast
  have one: "length (reqs b) = 1" "reqs b \<noteq> []" using assms(2) b(2) by auto
  have "size (kv_pool (mem_alloc ?m)) = 0" using assms(3) ok(3) tok_available by (simp add: chunk_mem_def)
  moreover have "check_decode_mem 1 b ?m = Some (False, ?m)" using chunk_decode_mem [OF _ ok(3)] b(3) one calculation by simp
  moreover have "\<forall>r\<in>set (reqs b). \<exists>n>0. max_new_tokens (req_sampling_params r) = Some n" using assms(1) by (auto simp: running_ok_def b(2))
  moreover from retract_single [OF ok(3) one(1) this, of "cfg_retract cfg"] have "retract_decode (cfg_retract cfg) b ?m = None"
    using calculation(1) by auto
  ultimately show ?thesis using b(1) one(2) by (simp add: update_running_batch_def is_empty_def ok(4) Let_def)
qed

lemma update_running_returns:
  assumes "running_ok cfg s"
    "\<not> (length (filter (\<lambda>r. \<not> finished r) (reqs (running_batch s))) = 1 \<and> kv_available_size (mem_alloc (sched_mem s)) = 0)"
  shows "\<exists>s'. update_running_batch cfg other s = Some s'
     \<and> mset (map rid (reqs (running_batch s'))) + mset (map rid (waiting_queue s'))
       = mset (map rid (filter (\<lambda>r. \<not> finished r) (reqs (running_batch s)))) + mset (map rid (waiting_queue s))
     \<and> (filter (\<lambda>r. \<not> finished r) (reqs (running_batch s)) \<noteq> [] \<longrightarrow> reqs (running_batch s') \<noteq> []
          \<and> forward_mode (running_batch s') = Some DECODE \<and> (\<exists>out. out_cache_loc (running_batch s') = Some out))"
proof -
  let ?b = "running_batch s" and ?m = "sched_mem s"
  have ok: "decode_ready ?b ?m" "batch_rows ?b ?m" "chunk_mem ?m" "\<not> speculative_algorithm (cfg_retract cfg)" "decode_mem_cache_buf_multiplier cfg = 1"
    using assms(1) by (auto simp: running_ok_def)
  obtain outs where outs: "batch_output_ids ?b = Some outs" using assms(1) by (auto simp: running_ok_def)
  obtain b where b: "filter_batch [] None ?b = Some b" "reqs b = filter (\<lambda>r. \<not> finished r) (reqs ?b)"
    "reqs b \<noteq> [] \<longrightarrow> decode_ready b ?m \<and> batch_rows b ?m \<and> (\<exists>outs. batch_output_ids b = Some outs)"
    using filter_ready [OF ok(1,2) outs] by blast
  show ?thesis
  proof (cases "reqs b = []")
    case True
    then show ?thesis using b(1,2) by (simp add: update_running_batch_def is_empty_def)
  next
    case False
    then obtain outs' where r: "decode_ready b ?m" "batch_rows b ?m" "batch_output_ids b = Some outs'" using b(3) by blast
    note check = chunk_decode_mem [OF r(1) ok(3)]
    let ?full = "\<lambda>b1. if batch_size b1 < batch_size ?b then b1\<lparr>batch_is_full := False\<rparr> else b1"
    show ?thesis
    proof (cases "length (reqs b) \<le> size (kv_pool (mem_alloc ?m))")
      case True
      obtain b' m' out where d: "prepare_for_decode other (?full b) ?m = Some (b', m')" "reqs b' = reqs b" "out_cache_loc b' = Some out"
        "forward_mode b' = Some DECODE" using decode_step [OF r(1) True ok(3), of other "batch_size b < batch_size ?b" False] by (elim exE conjE) (rule that)
      have "update_running_batch cfg other s = Some (s\<lparr>sched_ratio := max (sched_ratio s - new_token_ratio_decay cfg) (min_new_token_ratio cfg),
          running_batch := b', sched_mem := m'\<rparr>)"
        using b(1) False check True d(1) by (simp add: update_running_batch_def is_empty_def ok(5) Let_def)
      then show ?thesis using d(2-4) False b(2) by simp
    next
      case short: False
      have "length (reqs b) \<noteq> 1" using assms(2) short tok_available [of "mem_alloc ?m"] ok(3) by (auto simp: b(2) not_le chunk_mem_def)
      then have two: "2 \<le> length (reqs b)" using False by (cases "reqs b" rule: remdups_adj.cases) auto
      have lim: "\<forall>r\<in>set (reqs b). \<exists>n>0. max_new_tokens (req_sampling_params r) = Some n" using assms(1) by (auto simp: running_ok_def b(2))
      obtain retracted ratio b1 m1 where x: "retract_decode (cfg_retract cfg) b ?m = Some (retracted, ratio, b1, m1)" "decode_ready b1 m1" "chunk_mem m1"
        "reqs b1 \<noteq> []" "length (reqs b1) \<le> size (kv_pool (mem_alloc m1))" "mset (map rid (reqs b1)) + mset (map rid retracted) = mset (map rid (reqs b))"
        using retract_ready [OF r ok(3,4) two lim] by (elim exE conjE) (rule that)
      obtain b' m' out where d: "prepare_for_decode other (?full b1) m1 = Some (b', m')" "reqs b' = reqs b1" "out_cache_loc b' = Some out"
        "forward_mode b' = Some DECODE" using decode_step [OF x(2,5,3), of other "batch_size b1 < batch_size ?b" False] by (elim exE conjE) (rule that)
      have "update_running_batch cfg other s = Some (s\<lparr>waiting_queue := waiting_queue s @ retracted, sched_ratio := ratio,
          total_retracted_reqs := total_retracted_reqs s + length retracted, running_batch := b', sched_mem := m'\<rparr>)"
        using b(1) False check short x(1) d(1) by (simp add: update_running_batch_def is_empty_def ok(5) Let_def extend_requests_to_queue_def)
      moreover have "mset (map rid (reqs b')) + mset (map rid (waiting_queue s @ retracted)) = mset (map rid (reqs b)) + mset (map rid (waiting_queue s))"
        using x(6) d(2) by (simp add: add_ac)
      ultimately show ?thesis using d(2-4) x(4) b(2) by simp
    qed
  qed
qed

text \<open>C2: updating the running batch fails in exactly one case. Scope: the token allocator (page size 1) over the chunk cache, no
  speculative decoding and the plain memory check (multiplier 1); the lists of the batch are aligned, every request owns its row with
  room for one more token and has a positive limit of new tokens. If exactly one unfinished request is left and no slot is free, the assertion
  ``No space left for only one request'' fails. In every other case the update returns. Finished requests are dropped; every other
  request is afterwards either in the running batch or in the waiting queue, exactly once; and when requests were left, a batch of at least
  one of them is ready for a decode step with its new locations.\<close>
theorem update_running_batch_outcome:
  assumes "running_ok cfg s"
  shows "if length (filter (\<lambda>r. \<not> finished r) (reqs (running_batch s))) = 1 \<and> kv_available_size (mem_alloc (sched_mem s)) = 0
    then update_running_batch cfg other s = None
    else \<exists>s'. update_running_batch cfg other s = Some s'
     \<and> mset (map rid (reqs (running_batch s'))) + mset (map rid (waiting_queue s'))
       = mset (map rid (filter (\<lambda>r. \<not> finished r) (reqs (running_batch s)))) + mset (map rid (waiting_queue s))
     \<and> (filter (\<lambda>r. \<not> finished r) (reqs (running_batch s)) \<noteq> [] \<longrightarrow> reqs (running_batch s') \<noteq> []
          \<and> forward_mode (running_batch s') = Some DECODE \<and> (\<exists>out. out_cache_loc (running_batch s') = Some out))"
  using update_running_single [OF assms] update_running_returns [OF assms] by (simp only: if_P if_not_P split: if_split) blast

definition sample_running :: scheduler where
  \<comment> \<open>two requests run, the memory has one free slot\<close>
  "sample_running = sample_scheduler\<lparr>waiting_queue := [], running_batch := sample_batch, sched_mem := chunk_memory 1 2 8\<rparr>"

theorem update_running_batch_outcome_witness:
  "\<exists>s'. update_running_batch sample_cfg 0 sample_running = Some s'
     \<and> mset (map rid (reqs (running_batch s'))) + mset (map rid (waiting_queue s')) = {#str ''a'', str ''b''#} \<and> reqs (running_batch s') \<noteq> []"
proof -
  have rs: "reqs sample_batch = [(sample_req [5])\<lparr>rid := str ''a'', req_pool_idx := Some 0\<rparr>, (sample_req [6])\<lparr>rid := str ''b'', req_pool_idx := Some 1\<rparr>]"
    "seq_lens sample_batch = [1, 1]" by (simp_all add: sample_batch_def init_new_def)
  have fin: "finished (sample_req ids\<lparr>rid := i, req_pool_idx := j\<rparr>) = False" for ids i j by (simp add: finished_def sample_req_def new_req_def)
  have "batch_rows sample_batch (chunk_memory 1 2 8)"
    by (auto simp: batch_rows_def rs has_row_def row_ok_def chunk_memory_def init_req_pool_def pool_row_def less_Suc_eq)
  then have "running_ok sample_cfg sample_running"
    using sample_batch_ok(2,3) chunk_memory_ok(2,4)
    by (simp add: running_ok_def sample_running_def sample_cfg_def rs sample_req_def new_req_def default_params_def)
  from update_running_batch_outcome [OF this, of 0] show ?thesis
    by (simp add: sample_running_def sample_scheduler_def rs fin) blast
qed

end
