(* ===== verification/Intake_Correct.thy ===== *)
theory Intake_Correct
  imports Decode_Loop
begin

text \<open>
  What the intake of requests guarantees: unless it asks for a grammar that cannot be looked up, a request outside a session is queued
  exactly once, and unless it was rejected its length and its limit of new tokens fit the memory of a request. And where it does not: a request that is
  rejected before its limit is set, and a request of an open session.
\<close>

definition queued :: "scheduler \<Rightarrow> req \<Rightarrow> scheduler \<Rightarrow> bool" where
  \<comment> \<open>the request was appended to one of the two queues\<close>
  "queued s r s' \<longleftrightarrow> s' = s\<lparr>waiting_queue := waiting_queue s @ [r]\<rparr> \<or> s' = s\<lparr>grammar_queue := grammar_queue s @ [(r, 0)]\<rparr>"

definition request_fits :: "sched_cfg \<Rightarrow> req \<Rightarrow> bool" where
  "request_fits cfg r \<longleftrightarrow> (\<exists>n. max_new r = Some n \<and> 0 \<le> n \<and> int (length (origin_input_ids r)) + n < max_req_len cfg)
     \<and> origin_input_ids r \<noteq> [] \<and> output_ids r = [] \<and> logprob_start_len r < int (length (origin_input_ids r))"

definition grammar_error :: "sched_cfg \<Rightarrow> sampling_params \<Rightarrow> py_error \<Rightarrow> bool" where
  \<comment> \<open>a grammar is asked for without a backend, or by an empty structural tag alone\<close>
  "grammar_error cfg p e \<longleftrightarrow> has_grammar_spec p
     \<and> (if has_grammar_backend cfg then e = UnboundLocalError \<and> json_schema p = None \<and> regex p = None \<and> ebnf p = None \<and> structural_tag p = Some []
        else e = AssertionError)"

definition accepted :: "sched_cfg \<Rightarrow> scheduler \<Rightarrow> sampling_params \<Rightarrow> text \<Rightarrow> scheduler res \<Rightarrow> bool" where
  "accepted cfg s p i res \<longleftrightarrow> (case res of
     Inl e \<Rightarrow> grammar_error cfg p e
   | Inr s' \<Rightarrow> \<exists>r. queued s r s' \<and> rid r = i \<and> (finished r \<or> request_fits cfg r))"

lemma grammar_spec_key_error:
  "has_grammar_spec p \<Longrightarrow> grammar_spec_key p = Inl e \<Longrightarrow> e = UnboundLocalError \<and> json_schema p = None \<and> regex p = None \<and> ebnf p = None \<and> structural_tag p = Some []"
  by (auto simp: has_grammar_spec_def grammar_spec_key_def split: option.splits if_splits)

lemma enqueue_request_queued:
  assumes "request_fits cfg r"
  shows "accepted cfg s (req_sampling_params r) (rid r) (enqueue_request cfg lookup r s)"
proof (cases "enqueue_request cfg lookup r s")
  case (Inl e)
  then have "grammar_error cfg (req_sampling_params r) e"
    using grammar_spec_key_error [of "req_sampling_params r" e]
    by (cases "grammar_spec_key (req_sampling_params r)")
      (auto simp: enqueue_request_def grammar_error_def res_simps split: if_splits grammar_answer.splits)
  then show ?thesis using Inl by (simp add: accepted_def)
next
  case (Inr s')
  then have "\<exists>r'. queued s r' s' \<and> rid r' = rid r \<and> (finished r' \<or> request_fits cfg r')"
    using assms
    by (cases "grammar_spec_key (req_sampling_params r)")
      (auto simp: enqueue_request_def add_request_to_queue_def queued_def request_fits_def max_new_def set_finish_with_abort_def finished_def
        res_simps split: if_splits grammar_answer.splits)
  then show ?thesis using Inr by (simp add: accepted_def)
qed

lemma with_limits_fits:
  assumes "int (length (origin_input_ids r)) < max_req_len cfg" "\<forall>n. max_new r = Some n \<longrightarrow> 0 \<le> n" "origin_input_ids r \<noteq> []" "output_ids r = []"
    "logprob_start_len r < int (length (origin_input_ids r))"
  shows "request_fits cfg (with_limits cfg r)"
  using assms by (cases "max_new_tokens (req_sampling_params r)") (auto simp: request_fits_def with_limits_def max_new_def)

lemma accept_request_queued:
  assumes r: "origin_input_ids r \<noteq> []" "output_ids r = []" "\<forall>n. max_new r = Some n \<longrightarrow> 0 \<le> n"
    and cfg: "0 < max_req_input_len cfg" "max_req_input_len cfg < max_req_len cfg"
  shows "accepted cfg s (req_sampling_params r) (rid r) (accept_request cfg lookup t r s)"
proof -
  obtain e r1 where v: "validate_input_length (max_req_input_len cfg) (allow_auto_truncate cfg) r = (e, r1)" by force
  have abort: "accepted cfg s p (rid x) (Inr (add_request_to_queue (set_finish_with_abort m x) s))" for m x p
    by (auto simp: accepted_def queued_def add_request_to_queue_def set_finish_with_abort_def finished_def)
  show ?thesis
  proof (cases e)
    case (Some m)
    then have "rid r1 = rid r" using v by (auto simp: validate_input_length_def split: if_splits)
    then show ?thesis using abort [of "req_sampling_params r" r1 m] v Some by (simp add: accept_request_def)
  next
    case None
    have r1: "rid r1 = rid r" "origin_input_ids r1 \<noteq> []" "output_ids r1 = []" "max_new r1 = max_new r"
      "int (length (origin_input_ids r1)) \<le> max_req_input_len cfg" "req_sampling_params r1 = req_sampling_params r"
      using v None r cfg(1) by (auto simp: validate_input_length_def max_new_def py_take_nat split: if_splits)
    define n where "n = int (length (origin_input_ids r1))"
    define start where "start = (if t_logprob_start_len t = - 1 \<or> \<not> t_return_logprob t then n - 1 else t_logprob_start_len t)"
    show ?thesis
    proof (cases "start \<ge> n")
      case True
      let ?m = "str ''logprob_start_len is higher than the number of input tokens. Please use a smaller logprob_start_len.''"
      have "accept_request cfg lookup t r s = Inr (add_request_to_queue (set_finish_with_abort ?m (r1\<lparr>logprob_start_len := n - 1\<rparr>)) s)"
        using v None True by (auto simp: accept_request_def Let_def n_def start_def split: if_splits)
      then show ?thesis using abort [of "req_sampling_params r" "r1\<lparr>logprob_start_len := n - 1\<rparr>" ?m] r1(1) by simp
    next
      case False
      have "accept_request cfg lookup t r s = enqueue_request cfg lookup (with_limits cfg (r1\<lparr>logprob_start_len := start\<rparr>)) s"
        using v None False by (auto simp: accept_request_def Let_def n_def start_def split: if_splits)
      moreover have "request_fits cfg (with_limits cfg (r1\<lparr>logprob_start_len := start\<rparr>))"
        by (rule with_limits_fits) (use r1 r(3) cfg(2) False in \<open>auto simp: max_new_def n_def\<close>)
      ultimately have "accepted cfg s (req_sampling_params (with_limits cfg r1)) (rid r1) (accept_request cfg lookup t r s)"
        using enqueue_request_queued [of cfg "with_limits cfg (r1\<lparr>logprob_start_len := start\<rparr>)" s lookup] by (simp add: with_limits_def)
      moreover have "grammar_error cfg (req_sampling_params (with_limits cfg r1)) = grammar_error cfg (req_sampling_params r)"
        using r1(6) by (intro ext) (simp add: grammar_error_def has_grammar_spec_def with_limits_def)
      ultimately show ?thesis using r1(1) by (cases "accept_request cfg lookup t r s") (simp_all add: accepted_def)
    qed
  qed
qed

text \<open>C12: accepting a generation request raises only for its grammar. Scope: no session and no input embeddings, a prompt of at least
  one token, a limit of new tokens that is absent or not negative, and a maximal input length that is positive and below the maximal
  length of a request. The request is queued exactly once, in the waiting queue or in the grammar queue, and nothing else changes; unless it was
  rejected, its prompt together with its limit of new tokens stays below the maximal length of a request, so it satisfies what
  the scheduler requires of waiting requests. The only failures: the request asks for a grammar and there is no grammar backend
  (an assertion), or all it asks for is an empty structural tag (an unbound variable).\<close>
theorem accepted_request_fits:
  assumes "t_session_params t = None" "t_input_embeds t = None" "t_input_ids t \<noteq> []"
    "\<forall>n. max_new_tokens (t_sampling_params t) = Some n \<longrightarrow> 0 \<le> n" "0 < max_req_input_len cfg" "max_req_input_len cfg < max_req_len cfg"
  shows "case handle_generate_request cfg lookup bos t s of
      Inl e \<Rightarrow> grammar_error cfg (t_sampling_params t) e
    | Inr s' \<Rightarrow> \<exists>r. queued s r s' \<and> rid r = t_rid t \<and> (finished r \<or> request_fits cfg r \<and> waiting_ok (nat (max_req_len cfg)) r)"
proof -
  let ?r = "(new_req (t_rid t) (t_input_text t) (t_input_ids t) (t_sampling_params t) (t_return_logprob t) (t_top_logprobs_num t)
      (t_stream t) None (t_lora_id t) None (hf_eos_token_id cfg) (Some (cfg_vocab_size cfg)))\<lparr>req_tokenizer := cfg_tokenizer cfg\<rparr>"
  have r: "origin_input_ids ?r = t_input_ids t" "output_ids ?r = []" "req_sampling_params ?r = t_sampling_params t" "rid ?r = t_rid t"
    by (simp_all add: new_req_def)
  have "handle_generate_request cfg lookup bos t s = accept_request cfg lookup t ?r s"
    using assms(1,2) by (simp add: handle_generate_request_def Let_def)
  moreover have "accepted cfg s (t_sampling_params t) (t_rid t) (accept_request cfg lookup t ?r s)"
    using accept_request_queued [of ?r cfg s lookup t] assms(3-6) r by (simp add: max_new_def)
  moreover have "request_fits cfg r \<Longrightarrow> waiting_ok (nat (max_req_len cfg)) r" for r
    by (auto simp: request_fits_def waiting_ok_def)
  ultimately show ?thesis by (auto simp: accepted_def split: sum.splits)
qed

definition sample_tokenized :: "int list \<Rightarrow> int option \<Rightarrow> tokenized_req" where
  "sample_tokenized ids limit = \<lparr>t_rid = str ''a'', t_input_text = [], t_input_ids = ids,
     t_sampling_params = default_params\<lparr>max_new_tokens := limit\<rparr>, t_return_logprob = False, t_logprob_start_len = - 1,
     t_top_logprobs_num = 0, t_stream = False, t_lora_id = None, t_input_embeds = None, t_session_params = None\<rparr>"

theorem accepted_request_fits_witness:
  "(\<exists>s' r. handle_generate_request sample_cfg (\<lambda>_. GrammarPending) None (sample_tokenized [5, 6] None) sample_scheduler = Inr s'
     \<and> queued sample_scheduler r s' \<and> rid r = str ''a'')
   \<and> (case handle_generate_request (sample_cfg\<lparr>has_grammar_backend := False\<rparr>) (\<lambda>_. GrammarPending) None
          ((sample_tokenized [5, 6] None)\<lparr>t_sampling_params := default_params\<lparr>regex := Some (str ''a'')\<rparr>\<rparr>) sample_scheduler of
        Inl e \<Rightarrow> e = AssertionError | Inr s' \<Rightarrow> \<exists>r. queued sample_scheduler r s')"
proof -
  let ?t = "sample_tokenized [5, 6] None"
  let ?g = "?t\<lparr>t_sampling_params := default_params\<lparr>regex := Some (str ''a'')\<rparr>\<rparr>" and ?c = "sample_cfg\<lparr>has_grammar_backend := False\<rparr>"
  have t: "t_session_params ?t = None" "t_input_embeds ?t = None" "t_input_ids ?t \<noteq> []" "\<forall>n. max_new_tokens (t_sampling_params ?t) = Some n \<longrightarrow> 0 \<le> n"
    "0 < max_req_input_len sample_cfg" "max_req_input_len sample_cfg < max_req_len sample_cfg"
    by (simp_all add: sample_tokenized_def sample_cfg_def)
  have g: "t_session_params ?g = None" "t_input_embeds ?g = None" "t_input_ids ?g \<noteq> []" "\<forall>n. max_new_tokens (t_sampling_params ?g) = Some n \<longrightarrow> 0 \<le> n"
    "0 < max_req_input_len ?c" "max_req_input_len ?c < max_req_len ?c"
    by (simp_all add: sample_tokenized_def sample_cfg_def default_params_def)
  have "\<not> grammar_error sample_cfg (t_sampling_params ?t) e" for e
    by (simp add: grammar_error_def has_grammar_spec_def sample_tokenized_def default_params_def)
  moreover have "t_rid ?t = str ''a''" by (simp add: sample_tokenized_def)
  ultimately have "\<exists>s' r. handle_generate_request sample_cfg (\<lambda>_. GrammarPending) None ?t sample_scheduler = Inr s'
     \<and> queued sample_scheduler r s' \<and> rid r = str ''a''"
    using accepted_request_fits [OF t, where lookup = "\<lambda>_. GrammarPending" and bos = None and s = sample_scheduler] by (auto split: sum.splits)
  moreover have "grammar_error ?c p e \<Longrightarrow> e = AssertionError" for p e by (simp add: grammar_error_def)
  then have "case handle_generate_request ?c (\<lambda>_. GrammarPending) None ?g sample_scheduler of
        Inl e \<Rightarrow> e = AssertionError | Inr s' \<Rightarrow> \<exists>r. queued sample_scheduler r s'"
    using accepted_request_fits [OF g, where lookup = "\<lambda>_. GrammarPending" and bos = None and s = sample_scheduler] by (auto split: sum.splits)
  ultimately show ?thesis by blast
qed

lemma no_limit_raises:
  assumes "max_new r = None"
  shows "tree_next_round r t = None"
proof -
  obtain e where "adjust_max_prefix_ids r = Inl e" using assms by (auto simp: adjust_max_prefix_ids_def max_new_def Let_def)
  then show ?thesis by (cases t) (auto simp: tree_next_round_def init_next_round_input_def)
qed

lemma new_adder_empty: "start_adder cfg None s = Some (cr, a) \<Longrightarrow> can_run_list a = []"
  by (auto simp: start_adder_def new_adder_def Let_def split: if_splits)

text \<open>C34: a request without a limit of new tokens that is rejected for the length of its prompt is still queued, and then
  the next round of a scheduler that is otherwise idle (empty queues, first come first served, a running batch that is not full and leaves room for a
  request) raises: the limit is only filled in for requests that pass the validation, and
  preparing the request compares it with a number.\<close>
theorem rejected_unlimited_request_raises:
  assumes "t_session_params t = None" "t_input_embeds t = None" "max_new_tokens (t_sampling_params t) = None"
    and "max_req_input_len cfg \<le> int (length (t_input_ids t))" "\<not> allow_auto_truncate cfg"
    and "waiting_queue s = []" "grammar_queue s = []" "\<not> batch_is_full (running_batch s)" "sp_policy (sched_policy s) = FCFS"
    and "get_num_allocatable_reqs cfg s (length (reqs (running_batch s))) > 0"
  shows "\<exists>s' r. handle_generate_request cfg lookup bos t s = Inr s' \<and> waiting_queue s' = [r] \<and> rid r = t_rid t
    \<and> get_new_batch_prefill cfg fuel shuffle result other None s' = None"
proof -
  let ?msg = "str ''Input length exceeds the maximum allowed length.''"
  define r where "r = set_finish_with_abort ?msg ((new_req (t_rid t) (t_input_text t) (t_input_ids t) (t_sampling_params t) (t_return_logprob t)
      (t_top_logprobs_num t) (t_stream t) None (t_lora_id t) None (hf_eos_token_id cfg) (Some (cfg_vocab_size cfg)))\<lparr>req_tokenizer := cfg_tokenizer cfg\<rparr>)"
  define s' where "s' = s\<lparr>waiting_queue := [r]\<rparr>"
  have h: "handle_generate_request cfg lookup bos t s = Inr s'"
    using assms(1-6) by (simp add: handle_generate_request_def accept_request_def validate_input_length_def add_request_to_queue_def r_def s'_def
        new_req_def Let_def)
  have r: "rid r = t_rid t" "max_new r = None" using assms(3) by (simp_all add: r_def set_finish_with_abort_def new_req_def max_new_def)
  define s1 where "s1 = s'\<lparr>waiting_queue := [r], sched_policy := (sched_policy s')\<lparr>sp_tree_cache := mem_tree (sched_mem s')\<rparr>\<rparr>"
  have n: "get_num_allocatable_reqs cfg s' (length (reqs (running_batch s))) = get_num_allocatable_reqs cfg s (length (reqs (running_batch s)))"
    "get_num_allocatable_reqs cfg s1 (length (reqs (running_batch s))) = get_num_allocatable_reqs cfg s (length (reqs (running_batch s)))"
    by (simp_all add: get_num_allocatable_reqs_def s'_def s1_def Let_def)
  have q: "waiting_queue s' = [r]" "running_batch s' = running_batch s" "grammar_queue s' = []" "sp_policy (sched_policy s') = FCFS"
    using assms(7,9) by (simp_all add: s'_def)
  have "admit_loop (get_num_allocatable_reqs cfg s1 (length (reqs (running_batch s)))) [r] a full = None" if "start_adder cfg None s1 = Some (cr, a)" for cr a full
    using no_limit_raises [OF r(2)] new_adder_empty [OF that] assms(10) n(2) by simp
  then have "get_new_batch_prefill cfg fuel shuffle result other None s' = None"
    using assms(8,10) n(1) q by (cases "start_adder cfg None s1") (auto simp: get_new_batch_prefill_def calc_priority_def s1_def Let_def simp del: admit_loop.simps)
  then show ?thesis using h r(1) by (auto simp: s'_def)
qed

theorem rejected_unlimited_request_raises_witness:
  "\<exists>s' r. handle_generate_request sample_cfg (\<lambda>_. GrammarPending) None (sample_tokenized [5, 6, 7] None) (sample_scheduler\<lparr>waiting_queue := []\<rparr>) = Inr s'
     \<and> waiting_queue s' = [r] \<and> get_new_batch_prefill sample_cfg 1 id (\<lambda>_. GrammarPending) 0 None s' = None"
proof -
  let ?t = "sample_tokenized [5, 6, 7] None" and ?s = "sample_scheduler\<lparr>waiting_queue := []\<rparr>"
  have "t_session_params ?t = None" "t_input_embeds ?t = None" "max_new_tokens (t_sampling_params ?t) = None"
    "max_req_input_len sample_cfg \<le> int (length (t_input_ids ?t))" "\<not> allow_auto_truncate sample_cfg"
    "waiting_queue ?s = []" "grammar_queue ?s = []" "\<not> batch_is_full (running_batch ?s)" "sp_policy (sched_policy ?s) = FCFS"
    "get_num_allocatable_reqs sample_cfg ?s (length (reqs (running_batch ?s))) > 0"
    by (simp_all add: sample_tokenized_def sample_cfg_def sample_scheduler_def empty_batch_def init_new_def get_num_allocatable_reqs_def)
  from rejected_unlimited_request_raises [OF this] show ?thesis by blast
qed

lemma empty_structural_tag_raises:
  \<comment> \<open>the tag counts as a grammar but gives no key\<close>
  assumes "t_session_params t = None" "t_input_embeds t = None" "int (length (t_input_ids t)) < max_req_input_len cfg" "\<not> t_return_logprob t"
    "has_grammar_backend cfg" "json_schema (t_sampling_params t) = None" "regex (t_sampling_params t) = None" "ebnf (t_sampling_params t) = None"
    "structural_tag (t_sampling_params t) = Some []"
  shows "handle_generate_request cfg lookup bos t s = Inl UnboundLocalError"
  using assms by (simp add: handle_generate_request_def accept_request_def validate_input_length_def enqueue_request_def with_limits_def
      has_grammar_spec_def grammar_spec_key_def new_req_def Let_def res_simps)

lemma session_request_raises:
  \<comment> \<open>no request of an open session is accepted\<close>
  assumes "t_session_params t = Some p" "sp_id p = Some i" "map_of (sessions s) i = Some sess"
  shows "\<exists>e. handle_generate_request cfg lookup bos t s = Inl e"
proof -
  have "\<exists>e. create_req (recursion_limit cfg) bos t sess = Inl e"
    using assms(1) by (cases "find_last_req (recursion_limit cfg) p sess") (auto simp: create_req_def res_bind_def)
  then show ?thesis using assms by (auto simp: handle_generate_request_def Let_def res_bind_def)
qed

end
