(* ===== verification/Batch_Paged.thy ===== *)
theory Batch_Paged
  imports Batch_Correct
begin

text \<open>
  Preparing a batch with either allocator: the token allocator (page size 1) with eviction, and the paged
  allocator, whose kernels continue the last page of every request. The two properties at the end cover
  both branches of \<^verbatim>\<open>prepare_for_extend\<close>, \<^verbatim>\<open>check_decode_mem\<close> and \<^verbatim>\<open>prepare_for_decode\<close>.
\<close>

section \<open>What the paged allocator hands out\<close>

definition pages_taken :: "int list \<Rightarrow> int list \<Rightarrow> int list \<Rightarrow> int list \<Rightarrow> paged_allocator \<Rightarrow> kv_alloc \<Rightarrow> bool" where
  \<comment> \<open>the locations \<open>out\<close> follow the page table over the fresh pages, which left the pool\<close>
  "pages_taken pre seq lst out a s' \<longleftrightarrow> (\<exists>a' pages. s' = PagedAlloc a'
     \<and> int (length pages) = new_pages (int (al_page_size a)) pre seq (length seq) \<and> pool_pages a = mset pages + pool_pages a'
     \<and> out = concat (extend_table (int (al_page_size a)) pre seq lst pages))"

lemma pages_taken_length: "extend_args pre seq lst \<Longrightarrow> pages_taken pre seq lst out a s' \<Longrightarrow> int (length out) = new_tokens pre seq (length seq)"
  using extend_table_length by (auto simp: pages_taken_def)

lemma available_pages: "available_size a = size (pool_pages a) * al_page_size a"
  by (simp add: available_size_def pool_pages_def)

lemma evict_not_needed: "num \<le> int (kv_available_size (mem_alloc m)) \<Longrightarrow> evict_tree_cache_if_needed num m = Some m"
  by (simp add: evict_tree_cache_if_needed_def split: tree_cache.splits)

lemma alloc_paged_extend_spec:
  assumes a: "mem_alloc m = PagedAlloc a" "paged_ok ps a" and args: "extend_args pre seq lst"
    and n: "int n = new_tokens pre seq (length seq)" "n < 2 ^ 32" "n + length seq * ps \<le> available_size a"
  shows "\<exists>out s'. alloc_paged_token_slots_extend other pre seq lst n m = Some (out, m\<lparr>mem_alloc := s'\<rparr>) \<and> pages_taken pre seq lst out a s'"
proof -
  have p: "al_page_size a = ps" "0 < ps" "\<not> debug_mode a" "need_sort a \<or> release_pages a = []" using a(2) by (auto simp: paged_ok_def)
  let ?N = "new_pages (int ps) pre seq (length seq)"
  have "?N \<le> int n div int ps + int (length seq)"
    using new_pages_estimate [of "int ps" "length seq" pre seq] extend_args_nth [OF args] p(2) n(1) by simp
  also have "\<dots> = int (n div ps + length seq)" by (simp add: zdiv_int)
  also have "n div ps + length seq = (n + length seq * ps) div ps" using p(2) by simp
  also have "\<dots> \<le> size (pool_pages a)" using div_le_mono [OF n(3), of ps] p(1,2) by (simp add: available_pages)
  finally have N: "?N \<le> int (size (pool_pages a))" by simp
  have ev: "evict_tree_cache_if_needed (int (n + length seq * ps)) m = Some m" by (rule evict_not_needed) (simp only: a(1) kv_available_size.simps of_nat_le_iff n(3))
  obtain r a' where r: "paged_alloc_extend other pre seq lst n a = Inr (r, a')" "case r of
       None \<Rightarrow> ?N > int (size (pool_pages a)) \<and> pool_pages a' = pool_pages a
     | Some out \<Rightarrow> \<exists>pages. int (length pages) = ?N \<and> pool_pages a = mset pages + pool_pages a'
               \<and> out = concat (extend_table (int ps) pre seq lst pages)"
    using paged_alloc_extend_spec [of a pre seq lst n other] p args n(1,2) by auto
  then obtain out where "r = Some out" using N by (cases r) auto
  then show ?thesis using r ev a(1) p(1) unfolding alloc_paged_token_slots_extend_def Let_def
    by (auto simp: allocated_def pages_taken_def)
qed

lemma paged_decode_pages:
  assumes "0 < ps"
  shows "cdiv_page ps (s + 1) - cdiv_page ps s = (if s mod ps = 0 then 1 else 0)"
proof (cases "s mod ps = 0")
  case True
  have "cdiv_page ps (s + 1) = s div ps + 1" unfolding cdiv_page_def using assms by simp
  then show ?thesis using True cdiv_page_dvd [OF assms, of s] by (simp add: mod_eq_0_iff_dvd)
next
  case False
  have "cdiv_page ps (s + 1) = s div ps + 1" unfolding cdiv_page_def using assms by simp
  then show ?thesis using False cdiv_page_not_dvd [OF assms, of s] by simp
qed

lemma new_pages_decode_step:
  assumes "0 < ps"
  shows "new_pages ps seq (map (\<lambda>s. s + 1) seq) (length seq) = int (length (filter (\<lambda>s. s mod ps = 0) seq))"
proof -
  have "map (\<lambda>i. cdiv_page ps (map (\<lambda>s. s + 1) seq ! i) - cdiv_page ps (seq ! i)) [0..<length seq]
      = map (\<lambda>s. if s mod ps = 0 then 1 else 0) seq"
    using paged_decode_pages [OF assms] by (intro nth_equalityI) simp_all
  moreover have "sum_list (map (\<lambda>s. if s mod ps = 0 then 1 else 0) seq) = int (length (filter (\<lambda>s. s mod ps = 0) seq))"
    by (induction seq) auto
  ultimately show ?thesis by (simp add: new_pages_def)
qed

lemma alloc_paged_decode_spec:
  assumes a: "mem_alloc m = PagedAlloc a" "paged_ok ps a" and c: "mem_tree m = ChunkTree c"
    and args: "seq \<noteq> []" "list_all (\<lambda>s. 0 \<le> s) seq" "length lst = length seq"
    and n: "length (filter (\<lambda>s. s mod int ps = 0) seq) \<le> size (pool_pages a)"
  shows "\<exists>out s'. alloc_paged_token_slots_decode other (map (\<lambda>s. s + 1) seq) lst m = Some (out, m\<lparr>mem_alloc := s'\<rparr>)
     \<and> pages_taken seq (map (\<lambda>s. s + 1) seq) lst out a s'"
proof -
  have p: "al_page_size a = ps" "0 < ps" "\<not> debug_mode a" "need_sort a \<or> release_pages a = []" using a(2) by (auto simp: paged_ok_def)
  let ?seq = "map (\<lambda>s. s + 1) seq" and ?N = "new_pages (int ps) seq (map (\<lambda>s. s + 1) seq) (length seq)"
  have d: "decode_args ?seq lst" "seq = map (\<lambda>s. s - 1) ?seq" using args by (simp_all add: decode_args_def list_all_iff o_def)
  have N: "?N \<le> int (size (pool_pages a))" unfolding new_pages_decode_step [of "int ps" seq] using n p(2) new_pages_decode_step [of "int ps" seq] by simp
  obtain r a' where r: "paged_alloc_decode other ?seq lst a = Inr (r, a')" "case r of
       None \<Rightarrow> ?N > int (size (pool_pages a)) \<and> pool_pages a' = pool_pages a
     | Some out \<Rightarrow> \<exists>pages. int (length pages) = ?N \<and> pool_pages a = mset pages + pool_pages a'
               \<and> out = concat (extend_table (int ps) seq ?seq lst pages)"
    using paged_alloc_decode_spec [OF _ p(3,4) d, of other, unfolded p(1) length_map, OF p(2)] by (elim exE conjE) (rule that)
  then obtain out where "r = Some out" using N by (cases r) auto
  then show ?thesis using r a(1) p(1) c unfolding alloc_paged_token_slots_decode_def Let_def
    by (auto simp: allocated_def pages_taken_def evict_tree_cache_if_needed_def)
qed

section \<open>Extending with the paged allocator\<close>

definition last_locs :: "req list \<Rightarrow> int list" where
  \<comment> \<open>the slot of the last cached token of every request\<close>
  "last_locs rs = map (\<lambda>r. if prefix_indices r = [] then - 1 else last (prefix_indices r)) rs"

lemma get_last_loc_rows:
  assumes t: "rect w (req_to_token p)" "0 < w" and idx: "length idx = length rs" "\<forall>i\<in>set idx. row_ok i p"
    and rs: "\<forall>r\<in>set rs. extend_ready w r"
    and rows: "\<forall>k<length rs. take (length (prefix_indices (rs ! k))) (pool_row (idx ! k) p) = prefix_indices (rs ! k)"
  shows "get_last_loc backend other (req_to_token p) (int w) idx (map (\<lambda>r. int (length (prefix_indices r))) rs) = Inr (last_locs rs)"
proof -
  let ?pre = "map (\<lambda>r. int (length (prefix_indices r))) rs"
  have le: "length (prefix_indices (rs ! i)) \<le> w" if "i < length rs" for i
    using bspec [OF rs nth_mem [OF that]] by (simp add: extend_ready_def)
  have b: "\<forall>i<length ?pre. 0 \<le> idx ! i \<and> idx ! i < int (length (req_to_token p)) \<and> 0 \<le> ?pre ! i \<and> ?pre ! i \<le> int w"
    using idx le by (auto simp: row_ok_def)
  have nat_minus: "nat (int n - 1) = n - Suc 0" for n by simp
  have cell: "pool_row (idx ! i) p ! (length (prefix_indices (rs ! i)) - 1) = last (prefix_indices (rs ! i))"
    if i: "i < length rs" and ne: "prefix_indices (rs ! i) \<noteq> []" for i
    using rows [rule_format, OF i] ne by (metis diff_less last_conv_nth length_greater_0_conv nth_take zero_less_one)
  have "map (\<lambda>i. if ?pre ! i > 0 then req_to_token p ! nat (idx ! i) ! nat (?pre ! i - 1) else - 1) [0..<length ?pre] = last_locs rs"
    using cell by (intro nth_equalityI) (auto simp: last_locs_def pool_row_def nat_minus)
  then show ?thesis using get_last_loc_cells [OF t _ b, of backend other] idx(1) by simp
qed

definition extend_fits :: "req list \<Rightarrow> kv_mem \<Rightarrow> bool" where
  \<comment> \<open>the memory has the slots for the new tokens: for the token allocator with those that eviction frees, for the
    paged allocator the code's own overestimate of one more page per request is free\<close>
  "extend_fits rs m \<longleftrightarrow> (case mem_alloc m of
     TokAlloc _ \<Rightarrow> mem_ok m \<and> int (extend_offset rs (length rs)) \<le> int (size (kv_pool (mem_alloc m))) + tree_evictable (mem_tree m)
   | PagedAlloc a \<Rightarrow> paged_ok (al_page_size a) a \<and> al_page_size a \<noteq> 1 \<and> rs \<noteq> [] \<and> 0 < max_context_len (mem_pool m)
       \<and> extend_offset rs (length rs) < 2 ^ 32 \<and> extend_offset rs (length rs) + length rs * al_page_size a \<le> available_size a)"

definition extend_taken :: "req list \<Rightarrow> int list \<Rightarrow> kv_mem \<Rightarrow> kv_alloc \<Rightarrow> tree_cache \<Rightarrow> bool" where
  \<comment> \<open>where the new locations come from\<close>
  "extend_taken rs out m a' t' \<longleftrightarrow> (case mem_alloc m of
     TokAlloc _ \<Rightarrow> mset out + kv_pool a' + tree_slots t' = kv_pool (mem_alloc m) + tree_slots (mem_tree m)
   | PagedAlloc a \<Rightarrow> t' = mem_tree m \<and> pages_taken (map (\<lambda>r. int (length (prefix_indices r))) rs)
       (map (\<lambda>r. int (length (fill_ids r))) rs) (last_locs rs) out a a')"

lemma new_tokens_offset:
  assumes "\<forall>r\<in>set rs. extend_ready w r"
  shows "new_tokens (map (\<lambda>r. int (length (prefix_indices r))) rs) (map (\<lambda>r. int (length (fill_ids r))) rs) (length rs)
    = int (extend_offset rs (length rs))"
proof -
  have "map (\<lambda>i. map (\<lambda>r. int (length (fill_ids r))) rs ! i - map (\<lambda>r. int (length (prefix_indices r))) rs ! i) [0..<length rs]
      = map (\<lambda>r. int (length (fill_ids r) - length (prefix_indices r))) rs"
    using assms by (intro nth_equalityI) (auto simp: extend_ready_def of_nat_diff)
  then show ?thesis unfolding new_tokens_def extend_offset_def by (simp add: sum_list_int)
qed

lemma extend_alloc_fits:
  assumes f: "extend_fits rs m" and idx: "length idx = length rs" "\<forall>i\<in>set idx. row_ok i p1"
    and t: "rect (max_context_len (mem_pool m)) (req_to_token p1)" "max_context_len p1 = max_context_len (mem_pool m)"
    and rows: "\<forall>k<length rs. take (length (prefix_indices (rs ! k))) (pool_row (idx ! k) p1) = prefix_indices (rs ! k)"
    and rs: "\<forall>r\<in>set rs. extend_ready (max_context_len (mem_pool m)) r"
  shows "\<exists>out m3. extend_alloc backend other idx rs (m\<lparr>mem_pool := p1\<rparr>) = Some (out, m3) \<and> length out = extend_offset rs (length rs)
     \<and> mem_pool m3 = p1 \<and> extend_taken rs out m (mem_alloc m3) (mem_tree m3)"
proof (cases "mem_alloc m")
  case (TokAlloc a)
  then have "mem_ok m" "int (extend_offset rs (length rs)) \<le> int (size (kv_pool (mem_alloc m))) + tree_evictable (mem_tree m)"
    using f by (simp_all add: extend_fits_def)
  from extend_alloc_tok [OF this, of backend other idx p1] show ?thesis by (simp add: extend_taken_def TokAlloc)
next
  case (PagedAlloc a)
  let ?m = "m\<lparr>mem_pool := p1\<rparr>" and ?pre = "map (\<lambda>r. int (length (prefix_indices r))) rs" and ?seq = "map (\<lambda>r. int (length (fill_ids r))) rs"
  let ?n = "extend_offset rs (length rs)"
  have a: "mem_alloc ?m = PagedAlloc a" "paged_ok (al_page_size a) a" "al_page_size a \<noteq> 1" "rs \<noteq> []" "0 < max_context_len (mem_pool m)"
    "?n < 2 ^ 32" "?n + length ?seq * al_page_size a \<le> available_size a" using f PagedAlloc by (simp_all add: extend_fits_def)
  have args: "extend_args ?pre ?seq (last_locs rs)"
    using a(4) rs by (auto simp: extend_args_def last_locs_def list_all2_conv_all_nth extend_ready_def)
  have n: "int ?n = new_tokens ?pre ?seq (length ?seq)" using new_tokens_offset [OF rs] by simp
  have lst: "get_last_loc backend other (req_to_token p1) (int (max_context_len p1)) idx ?pre = Inr (last_locs rs)"
    unfolding t(2) by (rule get_last_loc_rows [OF t(1) a(5) idx rs rows])
  from alloc_paged_extend_spec [OF a(1,2) args n a(6,7), of other]
  obtain out s' where o: "alloc_paged_token_slots_extend other ?pre ?seq (last_locs rs) ?n ?m = Some (out, ?m\<lparr>mem_alloc := s'\<rparr>)"
    "pages_taken ?pre ?seq (last_locs rs) out a s'" by blast
  have "length out = ?n" using pages_taken_length [OF args o(2)] n by simp
  moreover have "extend_alloc backend other idx rs ?m = Some (out, ?m\<lparr>mem_alloc := s'\<rparr>)"
    using o(1) lst a(3) PagedAlloc by (simp add: extend_alloc_def Let_def)
  ultimately show ?thesis using o(2) PagedAlloc by (simp add: extend_taken_def)
qed

section \<open>A decode step with the paged allocator\<close>

definition paged_decode_ready :: "schedule_batch \<Rightarrow> kv_mem \<Rightarrow> bool" where
  \<comment> \<open>the requests have rows of their own with at least one token and room for one more; the lengths of the batch are those the
    requests have, which with overlap scheduling lack the token still being computed\<close>
  "paged_decode_ready b m \<longleftrightarrow> batch_ok b \<and> reqs b \<noteq> [] \<and> distinct (req_pool_indices b)
     \<and> (\<exists>a c. mem_alloc m = PagedAlloc a \<and> paged_ok (al_page_size a) a \<and> al_page_size a \<noteq> 1 \<and> mem_tree m = ChunkTree c)
     \<and> rect (max_context_len (mem_pool m)) (req_to_token (mem_pool m))
     \<and> (\<forall>k<length (reqs b). row_ok (req_pool_indices b ! k) (mem_pool m) \<and> 1 \<le> seq_lens b ! k
          \<and> seq_lens b ! k < int (max_context_len (mem_pool m))
          \<and> seq_lens b ! k = int (seqlen (reqs b ! k)) - (if enable_overlap b then 0 else 1))"

definition decode_need :: "schedule_batch \<Rightarrow> kv_mem \<Rightarrow> nat" where
  \<comment> \<open>the slots a decode step takes: one per request, or one page per request whose last page is full\<close>
  "decode_need b m = (case mem_alloc m of
     TokAlloc _ \<Rightarrow> length (reqs b)
   | PagedAlloc a \<Rightarrow> length (filter (\<lambda>s. s mod int (al_page_size a) = 0) (seq_lens b)) * al_page_size a)"

definition last_tokens :: "schedule_batch \<Rightarrow> req_to_token_pool \<Rightarrow> int list" where
  "last_tokens b p = map (\<lambda>k. pool_row (req_pool_indices b ! k) p ! nat (seq_lens b ! k - 1)) [0..<length (reqs b)]"

definition decode_taken :: "schedule_batch \<Rightarrow> int list \<Rightarrow> kv_mem \<Rightarrow> kv_mem \<Rightarrow> bool" where
  "decode_taken b out m m' \<longleftrightarrow> (case mem_alloc m of
     TokAlloc _ \<Rightarrow> mset out + kv_pool (mem_alloc m') + tree_slots (mem_tree m') = kv_pool (mem_alloc m) + tree_slots (mem_tree m)
   | PagedAlloc a \<Rightarrow> mem_tree m' = mem_tree m
       \<and> pages_taken (seq_lens b) (map (\<lambda>s. s + 1) (seq_lens b)) (last_tokens b (mem_pool m)) out a (mem_alloc m'))"

lemma size_paged_pool: "size (paged_pool (al_page_size a) a) = available_size a"
  by (simp add: paged_pool_def available_size_def page_slots_def length_concat o_def sum_list_triv add_mult_distrib)

lemma paged_page_count:
  assumes "paged_decode_ready b m" "mem_alloc m = PagedAlloc a"
  shows "new_page_count_next_decode b m = length (filter (\<lambda>s. s mod int (al_page_size a) = 0) (seq_lens b))"
proof -
  have l: "length (seq_lens b) = length (reqs b)" using assms(1) by (simp add: paged_decode_ready_def batch_ok_def)
  have "seq_lens b = map (\<lambda>r. int (seqlen r) - (if enable_overlap b then 0 else 1)) (reqs b)"
    by (rule nth_equalityI) (use assms(1) l in \<open>simp_all add: paged_decode_ready_def\<close>)
  then have "filter (\<lambda>s. s mod int (al_page_size a) = 0) (seq_lens b) = map (\<lambda>r. int (seqlen r) - (if enable_overlap b then 0 else 1))
      (filter (\<lambda>r. (int (seqlen r) - (if enable_overlap b then 0 else 1)) mod int (al_page_size a) = 0) (reqs b))"
    by (simp add: filter_map o_def)
  then show ?thesis using assms by (auto simp: new_page_count_next_decode_def Let_def paged_decode_ready_def)
qed

lemma paged_decode_check:
  assumes "paged_decode_ready b m"
  shows "check_decode_mem k b m = Some (int (decode_need b m * k) \<le> int (size (kv_pool (mem_alloc m))) + tree_evictable (mem_tree m), m)"
proof -
  obtain a c where a: "mem_alloc m = PagedAlloc a" "mem_tree m = ChunkTree c" using assms by (auto simp: paged_decode_ready_def)
  then show ?thesis
    by (simp add: check_decode_mem_def Let_def paged_page_count [OF assms a(1)] evict_tree_cache_if_needed_def decode_need_def
        is_available_size_sufficient_def size_paged_pool tree_evictable_def mult_ac)
qed

lemma paged_decode_run:
  assumes r: "paged_decode_ready b m" and n: "int (decode_need b m) \<le> int (size (kv_pool (mem_alloc m)))"
  shows "\<exists>b' m' out. prepare_for_decode other b m = Some (b', m') \<and> out_cache_loc b' = Some out \<and> batch_ok b'
     \<and> reqs b' = reqs b \<and> seq_lens b' = map (\<lambda>s. s + 1) (seq_lens b) \<and> input_ids b' = batch_output_ids b \<and> decode_taken b out m m'
     \<and> (\<forall>k<length (reqs b). pool_row (req_pool_indices b ! k) (mem_pool m')
          = (pool_row (req_pool_indices b ! k) (mem_pool m))[nat (seq_lens b ! k) := out ! k])"
proof -
  let ?p = "mem_pool m" and ?sl = "map (\<lambda>s. s + 1) (seq_lens b)"
  obtain a c where a: "mem_alloc m = PagedAlloc a" "paged_ok (al_page_size a) a" "al_page_size a \<noteq> 1" "mem_tree m = ChunkTree c"
    using r by (auto simp: paged_decode_ready_def)
  have ok: "batch_ok b" "rect (max_context_len ?p) (req_to_token ?p)" "distinct (req_pool_indices b)" "reqs b \<noteq> []"
    and rows: "\<forall>k<length (reqs b). row_ok (req_pool_indices b ! k) ?p \<and> 1 \<le> seq_lens b ! k \<and> seq_lens b ! k < int (max_context_len ?p)"
    using r by (auto simp: paged_decode_ready_def)
  have lens: "length (req_pool_indices b) = length (reqs b)" "length (seq_lens b) = length (reqs b)" using ok(1) by (auto simp: batch_ok_def)
  have w: "length (req_to_token ?p ! nat (req_pool_indices b ! k)) = max_context_len ?p" if "k < length (reqs b)" for k
    using ok(2) rows that by (auto simp: rect_def row_ok_def)
  have ix: "py_index (length (req_to_token ?p ! nat (req_pool_indices b ! k))) (map (\<lambda>s. s - 2) ?sl ! k) = Some (nat (seq_lens b ! k - 1))"
    if "k < length (reqs b)" for k using rows w [OF that] that lens by (auto simp: py_index_def)
  have g: "gather_cells (req_to_token ?p) (req_pool_indices b) (map (\<lambda>s. s - 2) ?sl) = Inr (last_tokens b ?p)"
    using gather_cells_map [of "map (\<lambda>s. s - 2) ?sl" "req_pool_indices b" "req_to_token ?p"] ix rows lens
    by (simp add: row_ok_def last_tokens_def pool_row_def)
  have args: "seq_lens b \<noteq> []" "list_all (\<lambda>s. 0 \<le> s) (seq_lens b)" "length (last_tokens b ?p) = length (seq_lens b)"
    using rows lens ok(4) by (force simp: list_all_length last_tokens_def)+
  have "length (filter (\<lambda>s. s mod int (al_page_size a) = 0) (seq_lens b)) \<le> size (pool_pages a)"
    using n a(1,2) by (simp add: decode_need_def size_paged_pool available_pages paged_ok_def)
  from alloc_paged_decode_spec [OF a(1,2,4) args this, of other]
  obtain out s' where o: "alloc_paged_token_slots_decode other ?sl (last_tokens b ?p) m = Some (out, m\<lparr>mem_alloc := s'\<rparr>)"
    "pages_taken (seq_lens b) ?sl (last_tokens b ?p) out a s'" by blast
  have e: "extend_args (seq_lens b) ?sl (last_tokens b ?p)"
    using args lens by (auto simp: extend_args_def list_all2_conv_all_nth list_all_length)
  have "map (\<lambda>i. ?sl ! i - seq_lens b ! i) [0..<length ?sl] = replicate (length (reqs b)) 1"
    using lens(2) by (intro nth_equalityI) simp_all
  then have lo: "length out = length (reqs b)"
    using pages_taken_length [OF e o(2)] unfolding new_tokens_def by (simp add: sum_list_replicate del: length_map)
  have "\<exists>b' p. prepare_for_decode other b m = Some (b', m\<lparr>mem_alloc := s'\<rparr>\<lparr>mem_pool := p\<rparr>) \<and> out_cache_loc b' = Some out \<and> batch_ok b'
     \<and> reqs b' = reqs b \<and> req_pool_indices b' = req_pool_indices b \<and> seq_lens b' = ?sl \<and> input_ids b' = batch_output_ids b
     \<and> (\<forall>k<length (reqs b). pool_row (req_pool_indices b ! k) p = (pool_row (req_pool_indices b ! k) ?p)[nat (seq_lens b ! k) := out ! k])"
    by (rule decode_write [OF ok(1-3) _ _ lo]) (use rows a(1,3) g o(1) in \<open>auto\<close>)
  then obtain b' p where "prepare_for_decode other b m = Some (b', m\<lparr>mem_alloc := s'\<rparr>\<lparr>mem_pool := p\<rparr>)" "out_cache_loc b' = Some out" "batch_ok b'"
    "reqs b' = reqs b" "seq_lens b' = ?sl" "input_ids b' = batch_output_ids b"
    "\<forall>k<length (reqs b). pool_row (req_pool_indices b ! k) p = (pool_row (req_pool_indices b ! k) ?p)[nat (seq_lens b ! k) := out ! k]"
    by (elim exE conjE) (rule that)
  then show ?thesis using o(2) a(1)
    by (intro exI [of _ b'] exI [of _ "m\<lparr>mem_alloc := s'\<rparr>\<lparr>mem_pool := p\<rparr>"] exI [of _ out]) (simp add: decode_taken_def)
qed

section \<open>Properties\<close>

text \<open>
  C9: preparing an extend batch writes the table of token locations correctly, with either attention
  backend and either allocator. Premises: there are free rows for the requests, every request's tokens fit
  into a row and extend its cached prefix, and the memory has the slots: with the token allocator (page size 1) free or
  evictable ones, with the paged allocator as many free ones as the code's overestimate (one page per request more than the tokens
  need), so that nothing is evicted. Then it returns; every request has its own row, which starts with the cached
  prefix of the request followed by the new locations of its remaining tokens, consecutive in the order of the requests;
  and the lists of the batch are aligned with its requests. With the token allocator the locations come out of the free
  slots and the tree without loss; with the paged allocator they continue the page of the last cached token of
  each request and then fill fresh pages, which leave the pool.
\<close>

theorem prepare_for_extend_rows:
  assumes "extend_fits rs m" "rows_ok (mem_pool m)" "\<forall>r\<in>set rs. extend_ready (max_context_len (mem_pool m)) r"
    "length rs \<le> length (free_slots (mem_pool m))"
  shows "\<exists>b' m' out. prepare_for_extend backend other (init_new rs overlap) m = Some (b', m') \<and> batch_ok b'
     \<and> out_cache_loc b' = Some out \<and> distinct (req_pool_indices b')
     \<and> map req_pool_idx (reqs b') = map Some (req_pool_indices b')
     \<and> extend_taken rs out m (mem_alloc m') (mem_tree m')
     \<and> (\<forall>i<length rs. take (length (fill_ids (rs ! i))) (pool_row (req_pool_indices b' ! i) (mem_pool m'))
          = prefix_indices (rs ! i) @ slice (extend_offset rs i) (extend_offset rs (Suc i)) out)"
proof -
  let ?b = "init_new rs overlap"
  have b: "reqs ?b = rs" "batch_output_ids ?b = None" "batch_return_logprob ?b = list_ex return_logprob rs" "top_logprobs_nums ?b = None"
    by (simp_all add: init_new_def)
  have "\<exists>b' m' out. prepare_for_extend backend other ?b m = Some (b', m') \<and> reqs b' = map2 extend_req (req_pool_indices b') rs
     \<and> out_cache_loc b' = Some out \<and> length out = extend_offset rs (length rs)
     \<and> req_pool_indices b' = take (length rs) (free_slots (mem_pool m))
     \<and> seq_lens b' = map (\<lambda>r. int (length (fill_ids r))) rs \<and> length (orig_seq_lens b') = length rs
     \<and> seq_lens_sum b' = sum_list (seq_lens b') \<and> batch_output_ids b' = None \<and> batch_return_logprob b' = list_ex return_logprob rs
     \<and> top_logprobs_nums b' = (if list_ex return_logprob rs then Some (map top_logprobs_num (reqs b')) else None)
     \<and> extend_taken rs out m (mem_alloc m') (mem_tree m')
     \<and> (\<forall>i<length rs. take (length (fill_ids (rs ! i))) (pool_row (req_pool_indices b' ! i) (mem_pool m'))
          = prefix_indices (rs ! i) @ slice (extend_offset rs i) (extend_offset rs (Suc i)) out)"
    by (rule extend_run_any [of m ?b backend other "\<lambda>out a t. extend_taken rs out m a t", unfolded b, OF assms(2-4)])
      (rule extend_alloc_fits [OF assms(1) _ _ _ _ _ assms(3)])
  then obtain b' m' out where r: "prepare_for_extend backend other ?b m = Some (b', m')"
    "reqs b' = map2 extend_req (req_pool_indices b') rs"
    "out_cache_loc b' = Some out"
    "length out = extend_offset rs (length rs)"
    "req_pool_indices b' = take (length rs) (free_slots (mem_pool m))"
    "seq_lens b' = map (\<lambda>r. int (length (fill_ids r))) rs"
    "length (orig_seq_lens b') = length rs"
    "seq_lens_sum b' = sum_list (seq_lens b')"
    "batch_output_ids b' = None"
    "batch_return_logprob b' = list_ex return_logprob rs"
    "top_logprobs_nums b' = (if list_ex return_logprob rs then Some (map top_logprobs_num (reqs b')) else None)"
    "extend_taken rs out m (mem_alloc m') (mem_tree m')"
    "\<forall>i<length rs. take (length (fill_ids (rs ! i))) (pool_row (req_pool_indices b' ! i) (mem_pool m'))
          = prefix_indices (rs ! i) @ slice (extend_offset rs i) (extend_offset rs (Suc i)) out"
    by (elim exE conjE) (rule that)
  have len: "length (req_pool_indices b') = length rs" "length (reqs b') = length rs" using r(2,5) assms(4) by auto
  have "map req_pool_idx (reqs b') = map Some (req_pool_indices b')"
    using len unfolding r(2) by (intro nth_equalityI) (simp_all add: extend_req_def Let_def)
  moreover have "list_ex return_logprob (reqs b') \<longrightarrow> list_ex return_logprob rs"
    using len unfolding r(2) by (auto simp: list_ex_iff extend_req_def Let_def dest: set_zip_rightD)
  then have "batch_ok b'" using r(6-11) len unfolding batch_ok_def by auto
  moreover have "distinct (req_pool_indices b')" using assms(2) unfolding r(5) by (simp add: rows_ok_def)
  ultimately show ?thesis using r(1,3,12,13) by blast
qed

definition paged_memory :: "nat \<Rightarrow> nat \<Rightarrow> nat \<Rightarrow> kv_mem" where
  \<comment> \<open>a fresh paged allocator with pages of four slots\<close>
  "paged_memory n rs w = \<lparr>mem_pool = init_req_pool rs w, mem_alloc = PagedAlloc (paged_init n 4 True False 0),
     mem_tree = ChunkTree \<lparr>chunk_page_size = 4\<rparr>\<rparr>"

definition sample_cached_req :: req where
  \<comment> \<open>the first of its three tokens is cached, in slot 68\<close>
  "sample_cached_req = (sample_req [5, 6, 7])\<lparr>prefix_indices := [68], extend_input_len := 2\<rparr>"

theorem prepare_for_extend_rows_witness:
  "(\<exists>b' m' out. prepare_for_extend (str ''triton'') 0 (init_new [sample_req [5, 6], sample_req [7]] False) (chunk_memory 4 2 8) = Some (b', m')
     \<and> take 2 (pool_row (req_pool_indices b' ! 0) (mem_pool m')) = slice 0 2 out
     \<and> take 1 (pool_row (req_pool_indices b' ! 1) (mem_pool m')) = slice 2 3 out)
   \<and> (\<exists>b' m'. prepare_for_extend (str ''torch_native'') 0 (init_new [sample_cached_req] False) (paged_memory 64 2 8) = Some (b', m')
     \<and> take 3 (pool_row (req_pool_indices b' ! 0) (mem_pool m')) = [68, 69, 70])"
proof
  let ?rs = "[sample_req [5, 6], sample_req [7]]" and ?m = "chunk_memory 4 2 8"
  have s: "fill_ids (sample_req ids) = ids" "prefix_indices (sample_req ids) = []" "extend_input_len (sample_req ids) = int (length ids)" for ids
    by (simp_all add: sample_req_def new_req_def)
  have m: "max_context_len (mem_pool ?m) = 8" "length (free_slots (mem_pool ?m)) = 2" by (simp_all add: chunk_memory_def init_req_pool_def)
  have o: "extend_offset ?rs 0 = 0" "extend_offset ?rs (Suc 0) = 2" "extend_offset ?rs (Suc (Suc 0)) = 3" "length ?rs = Suc (Suc 0)"
    by (simp_all add: extend_offset_def s)
  have al: "mem_alloc ?m = TokAlloc (tok_init 4 False)" by (simp add: chunk_memory_def)
  have "int (extend_offset ?rs (length ?rs)) \<le> int (size (kv_pool (mem_alloc ?m))) + tree_evictable (mem_tree ?m)"
    unfolding o chunk_memory_ok(4,5) by simp
  with chunk_memory_ok(1) [of 4 2 8] have fits: "extend_fits ?rs ?m" unfolding extend_fits_def al by simp
  have "\<forall>r\<in>set ?rs. extend_ready (max_context_len (mem_pool ?m)) r" by (simp add: extend_ready_def s m(1))
  from prepare_for_extend_rows [OF fits chunk_memory_ok(3) this, of "str ''triton''" 0 False]
  obtain b' m' out where r: "prepare_for_extend (str ''triton'') 0 (init_new ?rs False) ?m = Some (b', m')"
    "\<forall>i<length ?rs. take (length (fill_ids (?rs ! i))) (pool_row (req_pool_indices b' ! i) (mem_pool m'))
          = prefix_indices (?rs ! i) @ slice (extend_offset ?rs i) (extend_offset ?rs (Suc i)) out"
    by (auto simp: m(2) o)
  have "take 2 (pool_row (req_pool_indices b' ! 0) (mem_pool m')) = slice 0 2 out"
    "take 1 (pool_row (req_pool_indices b' ! 1) (mem_pool m')) = slice 2 3 out"
    using r(2)[rule_format, of 0] r(2)[rule_format, of 1] by (simp_all add: s o numeral_2_eq_2)
  then show "(\<exists>b' m' out. prepare_for_extend (str ''triton'') 0 (init_new [sample_req [5, 6], sample_req [7]] False) (chunk_memory 4 2 8) = Some (b', m')
     \<and> take 2 (pool_row (req_pool_indices b' ! 0) (mem_pool m')) = slice 0 2 out
     \<and> take 1 (pool_row (req_pool_indices b' ! 1) (mem_pool m')) = slice 2 3 out)" using r(1) by blast
next
  let ?r = sample_cached_req and ?m = "paged_memory 64 2 8"
  have r: "fill_ids ?r = [5, 6, 7]" "prefix_indices ?r = [68]" "extend_input_len ?r = 2"
    by (simp_all add: sample_cached_req_def sample_req_def new_req_def)
  have m: "max_context_len (mem_pool ?m) = 8" "length (free_slots (mem_pool ?m)) = 2" "rows_ok (mem_pool ?m)"
    "mem_alloc ?m = PagedAlloc (paged_init 64 4 True False 0)"
    by (auto simp: paged_memory_def init_req_pool_def rows_ok_def rect_def row_ok_def distinct_map)
  have o: "extend_offset [?r] 0 = 0" "extend_offset [?r] (Suc 0) = 2" by (simp_all add: extend_offset_def r)
  have a: "al_page_size (paged_init 64 4 True False 0) = 4" "available_size (paged_init 64 4 True False 0) = 64"
    by (simp_all add: paged_init_def paged_clear_def available_size_def)
  have "extend_fits [?r] ?m" using paged_init_ok [of 4 64 True 0] by (simp add: extend_fits_def m a o)
  moreover have "\<forall>r\<in>set [?r]. extend_ready (max_context_len (mem_pool ?m)) r" by (simp add: extend_ready_def r m(1))
  ultimately obtain b' m' out where x: "prepare_for_extend (str ''torch_native'') 0 (init_new [?r] False) ?m = Some (b', m')"
    "extend_taken [?r] out ?m (mem_alloc m') (mem_tree m')"
    "\<forall>i<length [?r]. take (length (fill_ids ([?r] ! i))) (pool_row (req_pool_indices b' ! i) (mem_pool m'))
          = prefix_indices ([?r] ! i) @ slice (extend_offset [?r] i) (extend_offset [?r] (Suc i)) out"
    using prepare_for_extend_rows [of "[?r]" ?m "str ''torch_native''" 0 False] m(2,3) by (auto simp del: split_paired_Ex)
  have "out = [69, 70]" using x(2)
    by (auto simp: extend_taken_def m(4) pages_taken_def a r last_locs_def extend_table_def page_table_loc_def new_pages_def cdiv_page_def upt_rec)
  then have "take 3 (pool_row (req_pool_indices b' ! 0) (mem_pool m')) = [68, 69, 70]"
    using x(3) by (simp add: r o numeral_3_eq_3)
  then show "(\<exists>b' m'. prepare_for_extend (str ''torch_native'') 0 (init_new [sample_cached_req] False) (paged_memory 64 2 8) = Some (b', m')
     \<and> take 3 (pool_row (req_pool_indices b' ! 0) (mem_pool m')) = [68, 69, 70])" using x(1) by blast
qed

text \<open>
  C29: the memory check before a decode step is exact, for either allocator and for any multiplier of at least 1. Scope: the
  token allocator (page size 1) with either cache, or the paged allocator over the chunk cache when the lengths of the batch are those of
  its requests (with overlap scheduling all tokens of a request, without it all but the last). The check returns
  whether the multiple of what the step takes can be had, evictable slots included: one slot per request, or one page per
  request whose last page is full. When it says so, preparing the decode step returns: each request gets one new location,
  written behind its current tokens, the sequence lengths grow by one, and the lists stay aligned. The locations leave the free slots
  and the tree without loss, or continue the page of the last token of each request and start fresh pages.
\<close>

theorem decode_after_check:
  assumes "decode_ready b m \<or> paged_decode_ready b m" "1 \<le> k"
  shows "\<exists>ok m1. check_decode_mem k b m = Some (ok, m1)
     \<and> ok = (int (decode_need b m * k) \<le> int (size (kv_pool (mem_alloc m))) + tree_evictable (mem_tree m))
     \<and> (ok \<longrightarrow> (\<exists>b' m' out. prepare_for_decode other b m1 = Some (b', m') \<and> out_cache_loc b' = Some out \<and> batch_ok b'
          \<and> reqs b' = reqs b \<and> seq_lens b' = map (\<lambda>s. s + 1) (seq_lens b) \<and> input_ids b' = batch_output_ids b
          \<and> decode_taken b out m m'
          \<and> (\<forall>k<length (reqs b). pool_row (req_pool_indices b ! k) (mem_pool m')
               = (pool_row (req_pool_indices b ! k) (mem_pool m))[nat (seq_lens b ! k) := out ! k])))"
  using assms(1)
proof
  assume r: "decode_ready b m"
  have mok: "mem_ok m" using r by (simp add: decode_ready_def)
  obtain a where a: "mem_alloc m = TokAlloc a" using mok by (cases "mem_alloc m") (simp_all add: mem_ok_def)
  let ?ok = "int (length (reqs b) * k) \<le> int (size (kv_pool (mem_alloc m))) + tree_evictable (mem_tree m)"
  obtain m1 where m1: "check_decode_mem k b m = Some (?ok, m1)" "mem_ok m1" "mem_pool m1 = mem_pool m"
    "kv_pool (mem_alloc m1) + tree_slots (mem_tree m1) = kv_pool (mem_alloc m) + tree_slots (mem_tree m)"
    "int (size (kv_pool (mem_alloc m1))) + tree_evictable (mem_tree m1)
       = int (size (kv_pool (mem_alloc m))) + tree_evictable (mem_tree m)"
    using check_decode_mem_iff [OF mok, of k b] by (elim exE conjE) (rule that)
  have ready: "decode_ready b m1" using r m1(2,3) by (simp add: decode_ready_def)
  have "length (reqs b) * 1 \<le> length (reqs b) * k" using assms(2) by (intro mult_le_mono2)
  then have n: "int (length (reqs b)) \<le> int (length (reqs b) * k)" by (simp only: of_nat_le_iff mult_1_right)
  have need: "decode_need b m = length (reqs b)" by (simp add: decode_need_def a)
  have taken: "decode_taken b out m m' \<longleftrightarrow> mset out + kv_pool (mem_alloc m') + tree_slots (mem_tree m') = kv_pool (mem_alloc m) + tree_slots (mem_tree m)"
    for out m' by (simp add: decode_taken_def a)
  have "?ok \<longrightarrow> int (length (reqs b)) \<le> int (size (kv_pool (mem_alloc m1))) + tree_evictable (mem_tree m1)"
    unfolding m1(5) using n by linarith
  with decode_run [OF ready, of other] show ?thesis using m1(1) unfolding m1(3,4) need taken
    by (intro exI [of _ ?ok] exI [of _ m1] conjI refl) blast+
next
  assume r: "paged_decode_ready b m"
  let ?ok = "int (decode_need b m * k) \<le> int (size (kv_pool (mem_alloc m))) + tree_evictable (mem_tree m)"
  have "decode_need b m * 1 \<le> decode_need b m * k" using assms(2) by (intro mult_le_mono2)
  then have n: "int (decode_need b m) \<le> int (decode_need b m * k)" by (simp only: of_nat_le_iff mult_1_right)
  have "tree_evictable (mem_tree m) = 0" using r by (auto simp: paged_decode_ready_def tree_evictable_def)
  then have "?ok \<longrightarrow> int (decode_need b m) \<le> int (size (kv_pool (mem_alloc m)))" using n by linarith
  with paged_decode_run [OF r, of other] show ?thesis using paged_decode_check [OF r, of k]
    by (intro exI [of _ ?ok] exI [of _ m] conjI refl) blast+
qed

definition sample_paged_batch :: schedule_batch where
  \<comment> \<open>two running requests, one with a full page\<close>
  "sample_paged_batch = (init_new [(sample_req [1, 2, 3, 4])\<lparr>rid := str ''a'', req_pool_idx := Some 0, output_ids := [9]\<rparr>,
       (sample_req [6])\<lparr>rid := str ''b'', req_pool_idx := Some 1, output_ids := [9]\<rparr>] False)
     \<lparr>req_pool_indices := [0, 1], seq_lens := [4, 1], orig_seq_lens := [4, 1], seq_lens_sum := 5, batch_output_ids := Some [9, 9]\<rparr>"

theorem decode_after_check_witness:
  "(\<exists>m1 b' m'. check_decode_mem 1 sample_batch (chunk_memory 4 2 8) = Some (True, m1)
     \<and> prepare_for_decode 0 sample_batch m1 = Some (b', m') \<and> seq_lens b' = [2, 2])
   \<and> (\<exists>m1 b' m'. check_decode_mem 2 sample_paged_batch (paged_memory 8 2 8) = Some (True, m1)
     \<and> prepare_for_decode 0 sample_paged_batch m1 = Some (b', m') \<and> seq_lens b' = [5, 2])
   \<and> (\<exists>m1. check_decode_mem 3 sample_paged_batch (paged_memory 8 2 8) = Some (False, m1))"
proof -
  have "reqs sample_batch = [(sample_req [5])\<lparr>rid := str ''a'', req_pool_idx := Some 0\<rparr>, (sample_req [6])\<lparr>rid := str ''b'', req_pool_idx := Some 1\<rparr>]"
    "seq_lens sample_batch = [1, 1]" by (simp_all add: sample_batch_def init_new_def)
  moreover have "decode_need sample_batch (chunk_memory 4 2 8) = 2" by (simp add: decode_need_def chunk_memory_def calculation)
  ultimately have one: "\<exists>m1 b' m'. check_decode_mem 1 sample_batch (chunk_memory 4 2 8) = Some (True, m1)
     \<and> prepare_for_decode 0 sample_batch m1 = Some (b', m') \<and> seq_lens b' = [2, 2]"
    using decode_after_check [OF disjI1 [OF sample_batch_ok(2) [of 4]], of 1 0] by (auto simp: chunk_memory_ok)
  let ?b = sample_paged_batch and ?m = "paged_memory 8 2 8"
  have sl: "seq_lens ?b = [4, 1]" by (simp add: sample_paged_batch_def init_new_def)
  have a: "mem_alloc ?m = PagedAlloc (paged_init 8 4 True False 0)" "al_page_size (paged_init 8 4 True False 0) = 4" "available_size (paged_init 8 4 True False 0) = 8"
    "tree_evictable (mem_tree ?m) = 0" by (simp_all add: paged_memory_def paged_init_def paged_clear_def available_size_def tree_evictable_def)
  have s: "size (kv_pool (mem_alloc ?m)) = 8" unfolding a(1) kv_pool.simps size_paged_pool by (rule a(3))
  have "paged_decode_ready ?b ?m"
    using paged_init_ok [of 4 8 True 0]
    by (auto simp: paged_decode_ready_def a(2) sample_paged_batch_def init_new_def batch_ok_def paged_memory_def init_req_pool_def rect_def row_ok_def
        less_Suc_eq seqlen_def sample_req_def new_req_def)
  note d = decode_after_check [OF disjI2 [OF this]]
  have need: "decode_need ?b ?m = 4" by (simp add: decode_need_def a sl)
  from one d [of 2 0] d [of 3 0] show ?thesis unfolding need s a(4) sl by auto
qed

end
