(* ===== verification/Py_Run.thy ===== *)
theory Py_Run
  imports Prelude
begin

text \<open>
  Computations that may raise and that may also not return: the vocabulary for components
  whose loops follow pointers and whose assertions the properties speak about. A value of
  type \<open>'a run\<close> is \<open>None\<close> when the code does not return, \<open>Some (Inl e)\<close> when it raises \<open>e\<close> and
  \<open>Some (Inr x)\<close> when it returns \<open>x\<close>. The monotonicity rule makes \<^const>\<open>Option.bind\<close>'s
  recursion scheme \<open>partial_function (option)\<close> available through these steps.
\<close>

type_synonym 'a run = "'a res option"

definition run_bind :: "'a run \<Rightarrow> ('a \<Rightarrow> 'b run) \<Rightarrow> 'b run" where
  "run_bind m f = Option.bind m (case_sum (\<lambda>e. Some (Inl e)) f)"

definition deref :: "'a option \<Rightarrow> 'a res" where
  \<comment> \<open>an attribute of a reference that may be \<open>None\<close>\<close>
  "deref p = (case p of None \<Rightarrow> Inl AttributeError | Some x \<Rightarrow> Inr x)"

definition py_key :: "'a option \<Rightarrow> 'a res" where
  \<comment> \<open>\<open>key[0]\<close> on a key that may be empty\<close>
  "py_key p = (case p of None \<Rightarrow> Inl IndexError | Some x \<Rightarrow> Inr x)"

lemma run_bind_simps [simp]:
  "run_bind None f = None"
  "run_bind (Some (Inl e)) f = Some (Inl e)"
  "run_bind (Some (Inr x)) f = f x"
  by (simp_all add: run_bind_def)

lemma deref_simps [simp]:
  "deref None = Inl AttributeError"
  "deref (Some x) = Inr x"
  by (simp_all add: deref_def)

lemma py_key_simps [simp]:
  "py_key None = Inl IndexError"
  "py_key (Some x) = Inr x"
  by (simp_all add: py_key_def)

lemma run_bind_eq_return [res_simps]:
  "run_bind m f = Some (Inr y) \<longleftrightarrow> (\<exists>x. m = Some (Inr x) \<and> f x = Some (Inr y))"
  by (auto simp: run_bind_def split: sum.splits bind_splits)

lemma deref_eq_Inr [res_simps]: "deref p = Inr x \<longleftrightarrow> p = Some x"
  by (cases p) auto

lemma py_key_eq_Inr [res_simps]: "py_key p = Inr x \<longleftrightarrow> p = Some x"
  by (cases p) auto

lemma run_bind_mono [partial_function_mono]:
  assumes "mono_option B" "\<And>y. mono_option (\<lambda>f. C y f)"
  shows "mono_option (\<lambda>f. run_bind (B f) (\<lambda>y. C y f))"
proof -
  have "mono_option (\<lambda>f. case_sum (\<lambda>e. Some (Inl e)) (\<lambda>y. C y f) r)" for r
    by (cases r) (auto intro: assms(2) option.const_mono)
  then show ?thesis
    unfolding run_bind_def by (intro bind_mono assms(1))
qed

end
