(* ===== verification/Lru_List.thy ===== *)
theory Lru_List
  imports Py_Run Complex_Main "HOL-Library.AList"
begin

text \<open>
  The nodes of the hybrid prefix cache and its two recency lists, after \<open>TreeNode\<close> and
  \<open>LRUList\<close> of \<^verbatim>\<open>mem_cache/swa_radix_cache.py\<close>. The nodes live in a store indexed by their
  number (\<open>TreeNode.counter\<close>, which is also \<open>node.id\<close>); a recency list is a pair of dummy
  nodes in the same store, linked through two of the nodes' four pointer fields, and a
  dictionary of the members. Every method of \<open>LRUList\<close> but the debugging comparison with a
  heap of access times is a function on the store and the list's record.
\<close>

section \<open>TreeNode\<close>

record swa_node =
  swa_children :: "(int list \<times> nat) list"
  swa_parent :: "nat option"
  swa_key :: "int list"
  swa_value :: "int list"
  swa_tombstone :: bool
  full_lock_ref :: int
  swa_lock_ref :: int
  swa_last_access_time :: rat
  swa_hit_count :: int
  swa_loading :: bool
  swa_host_value :: "int list option"
  prev_node :: "nat option"
  next_node :: "nat option"
  swa_prev :: "nat option"
  swa_next :: "nat option"
  swa_uuid :: "int option"

type_synonym swa_heap = "nat \<Rightarrow> swa_node option"

record swa_store =
  swa_nodes :: swa_heap
  swa_counter :: nat
  swa_monotonic :: "nat \<Rightarrow> rat"
  swa_ticks :: nat

definition new_swa_node :: "rat \<Rightarrow> swa_node" where
  \<comment> \<open>the constructor, given the reading of the clock. The key and the value of a node are
    set before they are read; \<open>[]\<close> stands for their initial \<open>None\<close>\<close>
  "new_swa_node t = \<lparr>swa_children = [], swa_parent = None, swa_key = [], swa_value = [],
     swa_tombstone = False, full_lock_ref = 0, swa_lock_ref = 0, swa_last_access_time = t,
     swa_hit_count = 0, swa_loading = False, swa_host_value = None, prev_node = None,
     next_node = None, swa_prev = None, swa_next = None, swa_uuid = None\<rparr>"

definition load :: "nat \<Rightarrow> swa_heap \<Rightarrow> swa_node res" where
  "load n h = deref (h n)"

definition upd :: "nat \<Rightarrow> (swa_node \<Rightarrow> swa_node) \<Rightarrow> swa_heap \<Rightarrow> swa_heap" where
  "upd n f h = h(n := map_option f (h n))"

definition create_swa_node :: "(swa_node \<Rightarrow> swa_node) \<Rightarrow> 'a swa_store_scheme \<Rightarrow> nat \<times> 'a swa_store_scheme" where
  \<comment> \<open>\<open>TreeNode()\<close> followed by the assignments \<open>f\<close> to its fields\<close>
  "create_swa_node f s =
     (swa_counter s,
      s\<lparr>swa_nodes := (swa_nodes s)(swa_counter s \<mapsto> f (new_swa_node (swa_monotonic s (swa_ticks s)))),
        swa_counter := swa_counter s + 1, swa_ticks := swa_ticks s + 1\<rparr>)"

section \<open>LRUList\<close>

record lru_list =
  lru_swa :: bool
  head_node :: nat
  tail_node :: nat
  lru_cache :: "(nat \<times> nat) list"

definition prv :: "lru_list \<Rightarrow> swa_node \<Rightarrow> nat option" where
  "prv l x = (if lru_swa l then swa_prev x else prev_node x)"

definition nxt :: "lru_list \<Rightarrow> swa_node \<Rightarrow> nat option" where
  "nxt l x = (if lru_swa l then swa_next x else next_node x)"

definition lru_lock_ref :: "lru_list \<Rightarrow> swa_node \<Rightarrow> int" where
  "lru_lock_ref l x = (if lru_swa l then swa_lock_ref x else full_lock_ref x)"

definition set_prv :: "lru_list \<Rightarrow> nat option \<Rightarrow> swa_node \<Rightarrow> swa_node" where
  "set_prv l v x = (if lru_swa l then x\<lparr>swa_prev := v\<rparr> else x\<lparr>prev_node := v\<rparr>)"

definition set_nxt :: "lru_list \<Rightarrow> nat option \<Rightarrow> swa_node \<Rightarrow> swa_node" where
  "set_nxt l v x = (if lru_swa l then x\<lparr>swa_next := v\<rparr> else x\<lparr>next_node := v\<rparr>)"

definition in_lru_cache :: "lru_list \<Rightarrow> nat \<Rightarrow> bool" where
  \<comment> \<open>\<open>node.id in self.cache\<close>\<close>
  "in_lru_cache l n = (n \<in> fst ` set (lru_cache l))"

definition lru_init :: "bool \<Rightarrow> 'a swa_store_scheme \<Rightarrow> lru_list \<times> 'a swa_store_scheme" where
  "lru_init swa s =
     (let (hd_n, s1) = create_swa_node id s;
          (tl_n, s2) = create_swa_node id s1;
          l = \<lparr>lru_swa = swa, head_node = hd_n, tail_node = tl_n, lru_cache = []\<rparr>
      in (l, s2\<lparr>swa_nodes := upd tl_n (set_prv l (Some hd_n)) (upd hd_n (set_nxt l (Some tl_n)) (swa_nodes s2))\<rparr>))"

definition add_node_after :: "lru_list \<Rightarrow> nat \<Rightarrow> nat \<Rightarrow> swa_heap \<Rightarrow> swa_heap res" where
  "add_node_after l old_node new_node h =
     (let h1 = upd new_node (set_prv l (Some old_node)) h
      in res_bind (load old_node h1) (\<lambda>x1.
      let h2 = upd new_node (set_nxt l (nxt l x1)) h1
      in res_bind (load old_node h2) (\<lambda>x2.
      res_bind (deref (nxt l x2)) (\<lambda>m.
      let h3 = upd m (set_prv l (Some new_node)) h2
      in Inr (upd old_node (set_nxt l (Some new_node)) h3)))))"

definition add_node :: "lru_list \<Rightarrow> nat \<Rightarrow> swa_heap \<Rightarrow> swa_heap res" where
  "add_node l node h = add_node_after l (head_node l) node h"

definition unlink_node :: "lru_list \<Rightarrow> nat \<Rightarrow> swa_heap \<Rightarrow> swa_heap res" where
  \<comment> \<open>\<open>_remove_node\<close>\<close>
  "unlink_node l node h =
     res_bind (load node h) (\<lambda>x.
     res_bind (deref (prv l x)) (\<lambda>p.
     let h1 = upd p (set_nxt l (nxt l x)) h
     in res_bind (load node h1) (\<lambda>x1.
     res_bind (deref (nxt l x1)) (\<lambda>q.
     Inr (upd q (set_prv l (prv l x1)) h1)))))"

definition get_lru :: "lru_list \<Rightarrow> swa_heap \<Rightarrow> nat option res" where
  "get_lru l h =
     (if length (lru_cache l) = 0 then Inr None
      else res_bind (load (tail_node l) h) (\<lambda>t. Inr (prv l t)))"

definition reset_node_mru :: "lru_list \<Rightarrow> nat \<Rightarrow> swa_heap \<Rightarrow> swa_heap res" where
  "reset_node_mru l node h =
     res_bind (load node h) (\<lambda>x.
     res_bind (py_assert (in_lru_cache l node)) (\<lambda>_.
     res_bind (py_assert (\<not> lru_swa l \<or> \<not> swa_tombstone x)) (\<lambda>_.
     res_bind (unlink_node l node h) (\<lambda>h1. add_node l node h1))))"

definition reset_one :: "lru_list \<Rightarrow> nat \<Rightarrow> nat \<Rightarrow> swa_heap \<Rightarrow> (nat \<times> swa_heap) res" where
  \<comment> \<open>the conditional of the loop body of \<open>reset_node_and_parents_mru\<close>: the next \<open>prev_node\<close>\<close>
  "reset_one l prev node h =
     res_bind (load node h) (\<lambda>x.
     if \<not> lru_swa l \<or> \<not> swa_tombstone x then
       res_bind (py_assert (in_lru_cache l node)) (\<lambda>_.
       res_bind (unlink_node l node h) (\<lambda>h1.
       res_bind (add_node_after l prev node h1) (\<lambda>h2. Inr (node, h2))))
     else Inr (prev, h))"

partial_function (option) reset_parents_loop :: "lru_list \<Rightarrow> nat \<Rightarrow> nat \<Rightarrow> nat \<Rightarrow> swa_heap \<Rightarrow> swa_heap run" where
  "reset_parents_loop l prev node root_n h =
     (if node \<noteq> root_n then
        run_bind (Some (reset_one l prev node h)) (\<lambda>r.
        run_bind (Some (load node (snd r))) (\<lambda>x.
        run_bind (Some (deref (swa_parent x))) (\<lambda>p.
        reset_parents_loop l (fst r) p root_n (snd r))))
      else Some (Inr h))"

definition reset_node_and_parents_mru :: "lru_list \<Rightarrow> nat \<Rightarrow> nat \<Rightarrow> swa_heap \<Rightarrow> swa_heap run" where
  "reset_node_and_parents_mru l node root_n h = reset_parents_loop l (head_node l) node root_n h"

definition insert_mru :: "nat \<Rightarrow> lru_list \<Rightarrow> swa_heap \<Rightarrow> (lru_list \<times> swa_heap) res" where
  "insert_mru node l h =
     res_bind (load node h) (\<lambda>x.
     res_bind (py_assert (\<not> lru_swa l \<or> \<not> swa_tombstone x)) (\<lambda>_.
     res_bind (py_assert (\<not> in_lru_cache l node)) (\<lambda>_.
     let l1 = l\<lparr>lru_cache := AList.update node node (lru_cache l)\<rparr>
     in res_bind (add_node l1 node h) (\<lambda>h1. Inr (l1, h1)))))"

definition remove_node :: "nat \<Rightarrow> lru_list \<Rightarrow> swa_heap \<Rightarrow> (lru_list \<times> swa_heap) res" where
  "remove_node node l h =
     res_bind (load node h) (\<lambda>x.
     res_bind (py_assert (in_lru_cache l node)) (\<lambda>_.
     res_bind (py_assert (\<not> lru_swa l \<or> \<not> swa_tombstone x)) (\<lambda>_.
     let l1 = l\<lparr>lru_cache := AList.delete node (lru_cache l)\<rparr>
     in res_bind (unlink_node l1 node h) (\<lambda>h1. Inr (l1, h1)))))"

partial_function (option) prev_no_lock_loop :: "(swa_node \<Rightarrow> bool) \<Rightarrow> lru_list \<Rightarrow> nat option \<Rightarrow> swa_heap \<Rightarrow> nat run" where
  \<comment> \<open>the loop of \<open>get_prev_no_lock\<close> and of \<open>get_prev_leaf_no_lock\<close>, which skip the nodes with \<open>skip\<close>\<close>
  "prev_no_lock_loop skip l x h =
     run_bind (Some (deref x)) (\<lambda>n.
     run_bind (Some (load n h)) (\<lambda>nd.
     if skip nd then prev_no_lock_loop skip l (prv l nd) h else Some (Inr n)))"

definition get_prev_where :: "(swa_node \<Rightarrow> bool) \<Rightarrow> lru_list \<Rightarrow> nat \<Rightarrow> bool \<Rightarrow> swa_heap \<Rightarrow> nat option run" where
  \<comment> \<open>what \<open>get_prev_no_lock\<close> and \<open>get_prev_leaf_no_lock\<close> share\<close>
  "get_prev_where skip l node check_id h =
     run_bind (Some (py_assert (\<not> check_id \<or> in_lru_cache l node))) (\<lambda>_.
     run_bind (Some (load node h)) (\<lambda>x.
     run_bind (prev_no_lock_loop skip l (prv l x) h) (\<lambda>y.
     Some (Inr (if y = head_node l then None else Some y)))))"

definition get_prev_no_lock :: "lru_list \<Rightarrow> nat \<Rightarrow> bool \<Rightarrow> swa_heap \<Rightarrow> nat option run" where
  "get_prev_no_lock l node check_id h = get_prev_where (\<lambda>x. lru_lock_ref l x > 0) l node check_id h"

definition get_prev_leaf_no_lock :: "lru_list \<Rightarrow> nat \<Rightarrow> bool \<Rightarrow> swa_heap \<Rightarrow> nat option run" where
  "get_prev_leaf_no_lock l node check_id h =
     get_prev_where (\<lambda>x. lru_lock_ref l x > 0 \<or> length (swa_children x) > 0) l node check_id h"

definition get_lru_no_lock :: "lru_list \<Rightarrow> swa_heap \<Rightarrow> nat option run" where
  "get_lru_no_lock l h = get_prev_no_lock l (tail_node l) False h"

definition get_leaf_lru_no_lock :: "lru_list \<Rightarrow> swa_heap \<Rightarrow> nat option run" where
  "get_leaf_lru_no_lock l h = get_prev_leaf_no_lock l (tail_node l) False h"

definition in_list :: "lru_list \<Rightarrow> nat option \<Rightarrow> bool" where
  "in_list l node = (case node of None \<Rightarrow> False | Some n \<Rightarrow> in_lru_cache l n)"

partial_function (option) evictable_size_loop :: "lru_list \<Rightarrow> nat option \<Rightarrow> int \<Rightarrow> swa_heap \<Rightarrow> int run" where
  "evictable_size_loop l node evictable_size h =
     (if in_list l node then
        run_bind (Some (deref node)) (\<lambda>n.
        run_bind (Some (load n h)) (\<lambda>x.
        run_bind (get_prev_no_lock l n True h) (\<lambda>y.
        evictable_size_loop l y (evictable_size + int (length (swa_value x))) h)))
      else Some (Inr evictable_size))"

definition sanity_check_evictable_size :: "lru_list \<Rightarrow> swa_heap \<Rightarrow> int run" where
  "sanity_check_evictable_size l h =
     run_bind (get_lru_no_lock l h) (\<lambda>node. evictable_size_loop l node 0 h)"

declare
  reset_parents_loop.simps [code]
  prev_no_lock_loop.simps [code]
  evictable_size_loop.simps [code]

end
