(* ===== verification/SWA_Cache.thy ===== *)
theory SWA_Cache
  imports Lru_List Radix_Cache Allocator Memory_Pool Request "HOL-Library.Extended_Nat"
begin

text \<open>
  The prefix cache for models that mix full and sliding-window attention, after
  \<open>SWARadixCache\<close> of \<^verbatim>\<open>mem_cache/swa_radix_cache.py\<close>: a radix tree in which an inner node may be
  a tombstone (its slots of the sliding-window layers were freed), with separate locks, sizes
  and recency lists for the two kinds of layers. Every method but the printing and the
  debugging comparison of access times is a function on the cache's record, which extends the
  store of nodes, and on the allocator of both pools. Assertions of the code are errors of the
  result; a loop that follows pointers is a \<open>partial_function (option)\<close>.
\<close>

section \<open>State\<close>

record swa_cache = swa_store +
  sw_page_size :: nat
  sw_disable :: bool
  sliding_window_size :: nat
  sw_root_node :: nat
  full_evictable_sz :: int
  swa_evictable_sz :: int
  full_protected_sz :: int
  swa_protected_sz :: int
  full_lru_list :: lru_list
  swa_lru_list :: lru_list
  swa_uuid_counter :: int

definition node_at :: "nat \<Rightarrow> swa_cache \<Rightarrow> swa_node res" where
  "node_at n c = load n (swa_nodes c)"

definition set_node :: "nat \<Rightarrow> (swa_node \<Rightarrow> swa_node) \<Rightarrow> swa_cache \<Rightarrow> swa_cache" where
  "set_node n f c = c\<lparr>swa_nodes := upd n f (swa_nodes c)\<rparr>"

definition touch_swa :: "nat \<Rightarrow> swa_cache \<Rightarrow> swa_cache" where
  \<comment> \<open>\<open>node.last_access_time = time.monotonic()\<close>\<close>
  "touch_swa n c =
     (set_node n (\<lambda>x. x\<lparr>swa_last_access_time := swa_monotonic c (swa_ticks c)\<rparr>) c)\<lparr>swa_ticks := swa_ticks c + 1\<rparr>"

definition on_full :: "(lru_list \<Rightarrow> swa_heap \<Rightarrow> (lru_list \<times> swa_heap) res) \<Rightarrow> swa_cache \<Rightarrow> swa_cache res" where
  \<comment> \<open>a method of \<open>self.full_lru_list\<close>\<close>
  "on_full f c = res_bind (f (full_lru_list c) (swa_nodes c)) (\<lambda>(l, h). Inr (c\<lparr>full_lru_list := l, swa_nodes := h\<rparr>))"

definition on_swa :: "(lru_list \<Rightarrow> swa_heap \<Rightarrow> (lru_list \<times> swa_heap) res) \<Rightarrow> swa_cache \<Rightarrow> swa_cache res" where
  \<comment> \<open>a method of \<open>self.swa_lru_list\<close>\<close>
  "on_swa f c = res_bind (f (swa_lru_list c) (swa_nodes c)) (\<lambda>(l, h). Inr (c\<lparr>swa_lru_list := l, swa_nodes := h\<rparr>))"

definition swa_reset :: "swa_cache \<Rightarrow> swa_cache" where
  "swa_reset c =
     (let (r, c1) = create_swa_node (\<lambda>x. x\<lparr>swa_key := [], swa_value := [], full_lock_ref := 1, swa_lock_ref := 1\<rparr>) c;
          c2 = c1\<lparr>sw_root_node := r, full_evictable_sz := 0, swa_evictable_sz := 0, full_protected_sz := 0,
                  swa_protected_sz := 0\<rparr>;
          (fl, c3) = lru_init False c2;
          (sl, c4) = lru_init True c3
      in c4\<lparr>full_lru_list := fl, swa_lru_list := sl\<rparr>)"

definition new_swa_cache :: "nat \<Rightarrow> nat \<Rightarrow> bool \<Rightarrow> (nat \<Rightarrow> rat) \<Rightarrow> swa_cache" where
  \<comment> \<open>the constructor in a fresh process: the class counters start at 0 and 1\<close>
  "new_swa_cache window ps dis clock =
     (let l = \<lparr>lru_swa = False, head_node = 0, tail_node = 0, lru_cache = []\<rparr>
      in swa_reset \<lparr>swa_nodes = Map.empty, swa_counter = 0, swa_monotonic = clock, swa_ticks = 0,
           sw_page_size = ps, sw_disable = dis, sliding_window_size = window, sw_root_node = 0,
           full_evictable_sz = 0, swa_evictable_sz = 0, full_protected_sz = 0, swa_protected_sz = 0,
           full_lru_list = l, swa_lru_list = l, swa_uuid_counter = 1\<rparr>)"

definition gen_swa_uuid :: "swa_cache \<Rightarrow> int \<times> swa_cache" where
  "gen_swa_uuid c = (swa_uuid_counter c + 1, c\<lparr>swa_uuid_counter := swa_uuid_counter c + 1\<rparr>)"

definition sw_child_key :: "swa_cache \<Rightarrow> int list \<Rightarrow> int list res" where
  "sw_child_key c key = py_key (get_child_key_fn (sw_page_size c) key)"

section \<open>Splitting a node\<close>

definition swa_split_node :: "int list \<Rightarrow> nat \<Rightarrow> nat \<Rightarrow> swa_cache \<Rightarrow> (nat \<times> swa_cache) res" where
  "swa_split_node key child split_len c =
     res_bind (node_at child c) (\<lambda>cd.
     res_bind (sw_child_key c (drop split_len key)) (\<lambda>ck.
     let (new_node, c1) = create_swa_node (\<lambda>x. x\<lparr>swa_children := [(ck, child)], swa_parent := swa_parent cd,
           swa_tombstone := swa_tombstone cd, full_lock_ref := full_lock_ref cd, swa_lock_ref := swa_lock_ref cd,
           swa_key := take split_len (swa_key cd), swa_value := take split_len (swa_value cd),
           swa_uuid := swa_uuid cd\<rparr>) c;
         c2 = touch_swa child (set_node child (\<lambda>x. x\<lparr>swa_uuid := None\<rparr>) c1)
     in res_bind (on_full (remove_node child) c2) (\<lambda>c3.
     res_bind (if \<not> swa_tombstone cd then on_swa (remove_node child) c3 else Inr c3) (\<lambda>c4.
     let c5 = set_node child (\<lambda>x. x\<lparr>swa_parent := Some new_node, swa_key := drop split_len (swa_key x),
                swa_value := drop split_len (swa_value x)\<rparr>) c4
     in res_bind (deref (swa_parent cd)) (\<lambda>p.
     res_bind (sw_child_key c key) (\<lambda>pk.
     let c6 = set_node p (\<lambda>x. x\<lparr>swa_children := AList.update pk new_node (swa_children x)\<rparr>) c5
     in res_bind (on_full (insert_mru new_node) c6) (\<lambda>c7.
     res_bind (on_full (insert_mru child) c7) (\<lambda>c8.
     res_bind (if \<not> swa_tombstone cd
               then res_bind (on_swa (insert_mru new_node) c8) (on_swa (insert_mru child))
               else Inr c8) (\<lambda>c9.
     Inr (new_node, c9))))))))))"

section \<open>Matching a prefix\<close>

record match_state =
  ms_node :: nat
  ms_value :: "int list list"
  match_len_since_tombstone :: enat
  best_value_len :: nat
  best_last_node :: nat

definition note_best :: "match_state \<Rightarrow> match_state" where
  "note_best m = m\<lparr>best_value_len := length (ms_value m), best_last_node := ms_node m\<rparr>"

definition see_child :: "nat \<Rightarrow> swa_node \<Rightarrow> match_state \<Rightarrow> match_state" where
  \<comment> \<open>what the loop does on a child before it compares the keys\<close>
  "see_child window cd m =
     (if swa_tombstone cd \<and> match_len_since_tombstone m \<ge> enat window
      then (note_best m)\<lparr>match_len_since_tombstone := 0\<rparr> else m)"

definition take_node :: "nat \<Rightarrow> swa_node \<Rightarrow> match_state \<Rightarrow> match_state" where
  "take_node n x m =
     m\<lparr>ms_node := n, ms_value := ms_value m @ [swa_value x],
       match_len_since_tombstone := (if \<not> swa_tombstone x then match_len_since_tombstone m + enat (length (swa_value x))
                                     else match_len_since_tombstone m)\<rparr>"

partial_function (option) swa_match_loop ::
  "int list \<Rightarrow> int list \<Rightarrow> match_state \<Rightarrow> swa_cache \<Rightarrow> (match_state \<times> swa_cache) run" where
  "swa_match_loop key child_key m c =
     (if length key > 0 then
        run_bind (Some (node_at (ms_node m) c)) (\<lambda>nd.
        case map_of (swa_children nd) child_key of
          None \<Rightarrow> Some (Inr (m, c))
        | Some child \<Rightarrow>
            run_bind (Some (node_at child c)) (\<lambda>cd.
            if key_match_fn (sw_page_size c) (swa_key cd) key < length (swa_key cd) then
              run_bind (Some (swa_split_node (swa_key cd) child
                 (key_match_fn (sw_page_size c) (swa_key cd) key) c)) (\<lambda>r.
              run_bind (Some (node_at (fst r) (snd r))) (\<lambda>nn.
              Some (Inr (take_node (fst r) nn (see_child (sliding_window_size c) cd m), snd r))))
            else
              run_bind (Some (if length (drop (key_match_fn (sw_page_size c) (swa_key cd) key) key) > 0
                 then sw_child_key c (drop (key_match_fn (sw_page_size c) (swa_key cd) key) key)
                 else Inr child_key)) (\<lambda>ck.
              swa_match_loop (drop (key_match_fn (sw_page_size c) (swa_key cd) key) key) ck
                (take_node child cd (see_child (sliding_window_size c) cd m)) c)))
      else Some (Inr (m, c)))"

partial_function (option) touch_path :: "nat option \<Rightarrow> rat \<Rightarrow> swa_heap \<Rightarrow> swa_heap run" where
  \<comment> \<open>the access times from the matched node to the root, each \<open>0.0001\<close> before its child's\<close>
  "touch_path node cur_time h =
     (case node of None \<Rightarrow> Some (Inr h)
      | Some n \<Rightarrow> run_bind (Some (load n h)) (\<lambda>x.
          touch_path (swa_parent x) (cur_time - 1 / 10000) (upd n (\<lambda>y. y\<lparr>swa_last_access_time := cur_time\<rparr>) h)))"

definition swa_match_prefix_helper :: "int list \<Rightarrow> swa_cache \<Rightarrow> (int list list \<times> nat \<times> swa_cache) run" where
  "swa_match_prefix_helper key c =
     run_bind (Some (sw_child_key c key)) (\<lambda>ck.
     run_bind (swa_match_loop key ck \<lparr>ms_node = sw_root_node c, ms_value = [], match_len_since_tombstone = \<infinity>,
        best_value_len = 0, best_last_node = sw_root_node c\<rparr> c) (\<lambda>(m, c1).
     let m1 = (if match_len_since_tombstone m \<ge> enat (sliding_window_size c1) then note_best m else m)
     in run_bind (reset_node_and_parents_mru (full_lru_list c1) (best_last_node m1) (sw_root_node c1) (swa_nodes c1)) (\<lambda>h1.
     run_bind (reset_node_and_parents_mru (swa_lru_list c1) (best_last_node m1) (sw_root_node c1) h1) (\<lambda>h2.
     run_bind (touch_path (Some (ms_node m1)) (swa_monotonic c1 (swa_ticks c1)) h2) (\<lambda>h3.
     Some (Inr (take (best_value_len m1) (ms_value m1), best_last_node m1,
       c1\<lparr>swa_nodes := h3, swa_ticks := swa_ticks c1 + 1\<rparr>)))))))"

definition swa_match_prefix :: "int list \<Rightarrow> swa_cache \<Rightarrow> (match_result \<times> swa_cache) run" where
  "swa_match_prefix key c =
     (if sw_disable c \<or> length key = 0
      then Some (Inr (\<lparr>device_indices = [], last_device_node = sw_root_node c,
                       last_host_node = sw_root_node c, host_hit_length = 0\<rparr>, c))
      else let key' = (if sw_page_size c \<noteq> 1
                       then take (length key div sw_page_size c * sw_page_size c) key else key)
      in run_bind (swa_match_prefix_helper key' c) (\<lambda>(value, last_node, c').
         Some (Inr (\<lparr>device_indices = concat value, last_device_node = last_node,
                     last_host_node = last_node, host_hit_length = 0\<rparr>, c'))))"

section \<open>Inserting a key\<close>

definition reset_mru_both :: "nat \<Rightarrow> swa_cache \<Rightarrow> swa_cache res" where
  \<comment> \<open>moving a visited node to the front of the lists that hold it\<close>
  "reset_mru_both node c =
     res_bind (node_at node c) (\<lambda>x.
     res_bind (reset_node_mru (full_lru_list c) node (swa_nodes c)) (\<lambda>h1.
     res_bind (if \<not> swa_tombstone x then reset_node_mru (swa_lru_list c) node h1 else Inr h1) (\<lambda>h2.
     Inr (c\<lparr>swa_nodes := h2\<rparr>))))"

definition update_kv :: "nat \<Rightarrow> nat \<Rightarrow> nat \<Rightarrow> nat \<Rightarrow> int list \<Rightarrow> swa_cache \<Rightarrow> swa_allocator \<Rightarrow> (swa_cache \<times> swa_allocator) res" where
  \<comment> \<open>a matched node beyond the request's own prefix: a tombstone takes the request's slots, any
    other node makes them redundant\<close>
  "update_kv update_kv_after_len total_prefix_length prefix_len node value c a =
     (if update_kv_after_len < total_prefix_length + prefix_len then
        let first_diff_idx = update_kv_after_len - total_prefix_length
        in res_bind (node_at node c) (\<lambda>x.
           if swa_tombstone x then
             res_bind (py_assert (swa_lock_ref x = 0)) (\<lambda>_.
             res_bind (swa_free (drop first_diff_idx (swa_value x)) a) (\<lambda>a1.
             let c1 = set_node node (\<lambda>y. y\<lparr>swa_value := take prefix_len value, swa_tombstone := False\<rparr>) c
             in res_bind (on_swa (insert_mru node) c1) (\<lambda>c2.
             Inr (c2\<lparr>swa_evictable_sz := swa_evictable_sz c2 + int (length (take prefix_len value))\<rparr>, a1))))
           else
             res_bind (swa_free (slice first_diff_idx prefix_len value) a) (\<lambda>a1. Inr (c, a1)))
      else Inr (c, a))"

definition add_swa_leaf :: "nat \<Rightarrow> int list \<Rightarrow> int list \<Rightarrow> int list \<Rightarrow> swa_cache \<Rightarrow> swa_cache res" where
  \<comment> \<open>what is left of the key becomes a new leaf\<close>
  "add_swa_leaf node key value child_key c =
     (let (new_node, c1) = create_swa_node (\<lambda>x. x\<lparr>swa_parent := Some node, swa_key := key, swa_value := value\<rparr>) c
      in res_bind (on_full (insert_mru new_node) c1) (\<lambda>c2.
      res_bind (on_swa (insert_mru new_node) c2) (\<lambda>c3.
      let c4 = set_node node (\<lambda>x. x\<lparr>swa_children := AList.update child_key new_node (swa_children x)\<rparr>) c3
      in Inr (c4\<lparr>full_evictable_sz := full_evictable_sz c4 + int (length value),
                 swa_evictable_sz := swa_evictable_sz c4 + int (length value)\<rparr>))))"

partial_function (option) swa_insert_loop ::
  "nat \<Rightarrow> nat \<Rightarrow> int list \<Rightarrow> int list \<Rightarrow> int list \<Rightarrow> nat \<Rightarrow> swa_cache \<Rightarrow> swa_allocator
     \<Rightarrow> (nat \<times> swa_cache \<times> swa_allocator) run" where
  "swa_insert_loop update_kv_after_len node key value child_key total_prefix_length c a =
     (if length key > 0 then
        run_bind (Some (node_at node c)) (\<lambda>nd.
        case map_of (swa_children nd) child_key of
          None \<Rightarrow> run_bind (Some (add_swa_leaf node key value child_key c)) (\<lambda>c1. Some (Inr (total_prefix_length, c1, a)))
        | Some child \<Rightarrow>
            run_bind (Some (reset_mru_both child (touch_swa child c))) (\<lambda>c1.
            run_bind (Some (node_at child c1)) (\<lambda>cd.
            run_bind (Some (if key_match_fn (sw_page_size c) (swa_key cd) key < length (swa_key cd)
                then swa_split_node (swa_key cd) child (key_match_fn (sw_page_size c) (swa_key cd) key) c1
                else Inr (child, c1))) (\<lambda>r.
            run_bind (Some (update_kv update_kv_after_len total_prefix_length
                (key_match_fn (sw_page_size c) (swa_key cd) key) (fst r) value (snd r) a)) (\<lambda>s.
            run_bind (Some (if length (drop (key_match_fn (sw_page_size c) (swa_key cd) key) key) > 0
                then sw_child_key c (drop (key_match_fn (sw_page_size c) (swa_key cd) key) key)
                else Inr child_key)) (\<lambda>ck.
            swa_insert_loop update_kv_after_len (fst r)
              (drop (key_match_fn (sw_page_size c) (swa_key cd) key) key)
              (drop (key_match_fn (sw_page_size c) (swa_key cd) key) value) ck
              (total_prefix_length + key_match_fn (sw_page_size c) (swa_key cd) key) (fst s) (snd s)))))))
      else Some (Inr (total_prefix_length, c, a)))"

definition swa_insert_helper ::
  "nat \<Rightarrow> int list \<Rightarrow> int list \<Rightarrow> nat \<Rightarrow> swa_cache \<Rightarrow> swa_allocator \<Rightarrow> (nat \<times> swa_cache \<times> swa_allocator) run" where
  "swa_insert_helper node key value update_kv_after_len c a =
     (let c1 = touch_swa node c
      in run_bind (Some (if node \<noteq> sw_root_node c1 then reset_mru_both node c1 else Inr c1)) (\<lambda>c2.
         if length key = 0 then Some (Inr (0, c2, a))
         else run_bind (Some (sw_child_key c2 key)) (\<lambda>ck.
              swa_insert_loop update_kv_after_len node key value ck 0 c2 a)))"

definition swa_insert :: "int list \<Rightarrow> int list option \<Rightarrow> nat \<Rightarrow> swa_cache \<Rightarrow> swa_allocator \<Rightarrow> (nat \<times> swa_cache \<times> swa_allocator) run" where
  "swa_insert key value prev_prefix_len c a =
     (if sw_disable c then Some (Inr (0, c, a))
      else swa_insert_helper (sw_root_node c) key (case value of None \<Rightarrow> key | Some v \<Rightarrow> v) prev_prefix_len c a)"

section \<open>Locking a path\<close>

definition inc_full_lock :: "nat \<Rightarrow> swa_node \<Rightarrow> swa_cache \<Rightarrow> swa_cache" where
  "inc_full_lock node x c =
     set_node node (\<lambda>y. y\<lparr>full_lock_ref := full_lock_ref y + 1\<rparr>)
       (if full_lock_ref x = 0
        then c\<lparr>full_evictable_sz := full_evictable_sz c - int (length (swa_value x)),
               full_protected_sz := full_protected_sz c + int (length (swa_value x))\<rparr>
        else c)"

definition inc_swa_lock :: "nat \<Rightarrow> swa_node \<Rightarrow> swa_cache \<Rightarrow> swa_cache" where
  "inc_swa_lock node x c =
     set_node node (\<lambda>y. y\<lparr>swa_lock_ref := swa_lock_ref y + 1\<rparr>)
       (if swa_lock_ref x = 0
        then c\<lparr>swa_evictable_sz := swa_evictable_sz c - int (length (swa_value x)),
               swa_protected_sz := swa_protected_sz c + int (length (swa_value x))\<rparr>
        else c)"

definition mark_uuid :: "nat \<Rightarrow> swa_node \<Rightarrow> swa_cache \<Rightarrow> int \<times> swa_cache" where
  \<comment> \<open>the boundary of the window gets a number unless it has one\<close>
  "mark_uuid node x c =
     (case swa_uuid x of
        Some u \<Rightarrow> (u, c)
      | None \<Rightarrow> let (u, c1) = gen_swa_uuid c in (u, set_node node (\<lambda>y. y\<lparr>swa_uuid := Some u\<rparr>) c1))"

definition inc_lock_node :: "nat \<Rightarrow> nat \<Rightarrow> int option \<Rightarrow> swa_cache \<Rightarrow> (nat \<times> int option \<times> swa_cache) res" where
  \<comment> \<open>the loop body of \<open>inc_lock_ref\<close>\<close>
  "inc_lock_node node swa_lock_size uuid c =
     res_bind (node_at node c) (\<lambda>x.
     res_bind (py_assert (full_lock_ref x \<ge> 0)) (\<lambda>_.
     let c1 = inc_full_lock node x c
     in if swa_lock_size < sliding_window_size c then
          res_bind (py_assert (\<not> swa_tombstone x)) (\<lambda>_.
          let c2 = inc_swa_lock node x c1;
              sz = swa_lock_size + length (swa_value x)
          in if sz \<ge> sliding_window_size c
             then (let (u, c3) = mark_uuid node x c2 in Inr (sz, Some u, c3))
             else Inr (sz, uuid, c2))
        else Inr (swa_lock_size, uuid, c1)))"

partial_function (option) inc_swa_loop :: "nat \<Rightarrow> nat \<Rightarrow> int option \<Rightarrow> swa_cache \<Rightarrow> (int option \<times> swa_cache) run" where
  "inc_swa_loop node swa_lock_size uuid c =
     (if node \<noteq> sw_root_node c then
        run_bind (Some (inc_lock_node node swa_lock_size uuid c)) (\<lambda>r.
        run_bind (Some (node_at node (snd (snd r)))) (\<lambda>x.
        run_bind (Some (deref (swa_parent x))) (\<lambda>p.
        inc_swa_loop p (fst r) (fst (snd r)) (snd (snd r)))))
      else Some (Inr (uuid, c)))"

definition swa_inc_lock_ref :: "nat \<Rightarrow> swa_cache \<Rightarrow> (int option \<times> swa_cache) run" where
  "swa_inc_lock_ref node c = (if sw_disable c then Some (Inr (None, c)) else inc_swa_loop node 0 None c)"

definition dec_full_lock :: "nat \<Rightarrow> swa_node \<Rightarrow> swa_cache \<Rightarrow> swa_cache" where
  "dec_full_lock node x c =
     set_node node (\<lambda>y. y\<lparr>full_lock_ref := full_lock_ref y - 1\<rparr>)
       (if full_lock_ref x = 1
        then c\<lparr>full_evictable_sz := full_evictable_sz c + int (length (swa_value x)),
               full_protected_sz := full_protected_sz c - int (length (swa_value x))\<rparr>
        else c)"

definition dec_swa_lock :: "nat \<Rightarrow> swa_node \<Rightarrow> swa_cache \<Rightarrow> swa_cache" where
  "dec_swa_lock node x c =
     set_node node (\<lambda>y. y\<lparr>swa_lock_ref := swa_lock_ref y - 1\<rparr>)
       (if swa_lock_ref x = 1
        then c\<lparr>swa_evictable_sz := swa_evictable_sz c + int (length (swa_value x)),
               swa_protected_sz := swa_protected_sz c - int (length (swa_value x))\<rparr>
        else c)"

definition uuid_hit :: "int option \<Rightarrow> swa_node \<Rightarrow> bool" where
  \<comment> \<open>\<open>swa_uuid_for_lock and node.swa_uuid == swa_uuid_for_lock\<close>\<close>
  "uuid_hit uuid x = (case uuid of None \<Rightarrow> False | Some u \<Rightarrow> u \<noteq> 0 \<and> swa_uuid x = Some u)"

definition dec_lock_node :: "nat \<Rightarrow> int option \<Rightarrow> bool \<Rightarrow> swa_cache \<Rightarrow> (bool \<times> swa_cache) res" where
  \<comment> \<open>the loop body of \<open>dec_lock_ref\<close>\<close>
  "dec_lock_node node uuid dec_lock_swa c =
     res_bind (node_at node c) (\<lambda>x.
     res_bind (py_assert (full_lock_ref x > 0)) (\<lambda>_.
     let c1 = dec_full_lock node x c
     in if dec_lock_swa then
          res_bind (py_assert (\<not> swa_tombstone x)) (\<lambda>_.
          res_bind (py_assert (swa_lock_ref x > 0)) (\<lambda>_.
          Inr (\<not> uuid_hit uuid x, dec_swa_lock node x c1)))
        else Inr (False, c1)))"

partial_function (option) dec_swa_loop :: "nat \<Rightarrow> int option \<Rightarrow> bool \<Rightarrow> swa_cache \<Rightarrow> swa_cache run" where
  "dec_swa_loop node uuid dec_lock_swa c =
     (if node \<noteq> sw_root_node c then
        run_bind (Some (dec_lock_node node uuid dec_lock_swa c)) (\<lambda>r.
        run_bind (Some (node_at node (snd r))) (\<lambda>x.
        run_bind (Some (deref (swa_parent x))) (\<lambda>p.
        dec_swa_loop p uuid (fst r) (snd r))))
      else Some (Inr c))"

definition swa_dec_lock_ref :: "nat \<Rightarrow> int option \<Rightarrow> swa_cache \<Rightarrow> swa_cache run" where
  "swa_dec_lock_ref node uuid c = (if sw_disable c then Some (Inr c) else dec_swa_loop node uuid True c)"

section \<open>Eviction\<close>

definition drop_child :: "nat \<Rightarrow> nat \<Rightarrow> swa_cache \<Rightarrow> swa_cache res" where
  \<comment> \<open>the search for the node among its parent's children and its deletion; when it is not there the
    loop variable is left at the last key, and unbound if there are no children\<close>
  "drop_child p node c =
     res_bind (node_at p c) (\<lambda>pd.
     res_bind (case find (\<lambda>(k, v). v = node) (swa_children pd) of
         Some (k, v) \<Rightarrow> Inr k
       | None \<Rightarrow> if swa_children pd = [] then Inl RuntimeError else Inr (fst (last (swa_children pd)))) (\<lambda>k.
     Inr (set_node p (\<lambda>x. x\<lparr>swa_children := AList.delete k (swa_children x)\<rparr>) c)))"

definition swa_delete_leaf :: "nat \<Rightarrow> swa_cache \<Rightarrow> swa_cache res" where
  "swa_delete_leaf node c =
     res_bind (node_at node c) (\<lambda>x.
     res_bind (py_assert (\<not> swa_tombstone x)) (\<lambda>_.
     res_bind (py_assert (length (swa_children x) = 0)) (\<lambda>_.
     res_bind (deref (swa_parent x)) (\<lambda>p.
     res_bind (drop_child p node c) (\<lambda>c1.
     Inr (c1\<lparr>full_evictable_sz := full_evictable_sz c1 - int (length (swa_key x)),
             swa_evictable_sz := swa_evictable_sz c1 - int (length (swa_key x))\<rparr>))))))"

definition tombstone_internal_node :: "nat \<Rightarrow> swa_cache \<Rightarrow> swa_cache res" where
  "tombstone_internal_node node c =
     res_bind (node_at node c) (\<lambda>x.
     res_bind (py_assert (length (swa_children x) \<noteq> 0)) (\<lambda>_.
     let c1 = set_node node (\<lambda>y. y\<lparr>swa_tombstone := True\<rparr>) c
     in Inr (c1\<lparr>swa_evictable_sz := swa_evictable_sz c1 - int (length (swa_key x))\<rparr>)))"

definition delete_tombstone_leaf :: "nat \<Rightarrow> swa_cache \<Rightarrow> swa_cache res" where
  "delete_tombstone_leaf node c =
     res_bind (node_at node c) (\<lambda>x.
     res_bind (py_assert (swa_tombstone x)) (\<lambda>_.
     res_bind (py_assert (length (swa_children x) = 0)) (\<lambda>_.
     res_bind (deref (swa_parent x)) (\<lambda>p.
     res_bind (drop_child p node c) (\<lambda>c1.
     Inr (c1\<lparr>full_evictable_sz := full_evictable_sz c1 - int (length (swa_key x))\<rparr>))))))"

definition parent_of :: "nat \<Rightarrow> swa_cache \<Rightarrow> (nat \<times> swa_node) res" where
  \<comment> \<open>\<open>node.parent\<close>, dereferenced\<close>
  "parent_of node c =
     res_bind (node_at node c) (\<lambda>x.
     res_bind (deref (swa_parent x)) (\<lambda>p.
     res_bind (node_at p c) (\<lambda>pd. Inr (p, pd))))"

partial_function (option) tombstone_leaf_loop ::
  "nat \<Rightarrow> int \<Rightarrow> swa_cache \<Rightarrow> swa_allocator \<Rightarrow> (nat \<times> int \<times> swa_cache \<times> swa_allocator) run" where
  "tombstone_leaf_loop node full_num_evicted c a =
     run_bind (Some (parent_of node c)) (\<lambda>(p, pd).
     if swa_tombstone pd \<and> length (swa_children pd) = 0 \<and> p \<noteq> sw_root_node c \<and> \<not> full_lock_ref pd > 0 then
       run_bind (Some (py_assert (swa_lock_ref pd = 0))) (\<lambda>_.
       run_bind (Some (swa_free (swa_value pd) a)) (\<lambda>a1.
       run_bind (Some (on_full (remove_node p) c)) (\<lambda>c1.
       run_bind (Some (delete_tombstone_leaf p c1)) (\<lambda>c2.
       tombstone_leaf_loop p (full_num_evicted + int (length (swa_value pd))) c2 a1))))
     else Some (Inr (node, full_num_evicted, c, a)))"

definition iteratively_delete_tombstone_leaf ::
  "nat \<Rightarrow> swa_cache \<Rightarrow> swa_allocator \<Rightarrow> (nat \<times> int \<times> swa_cache \<times> swa_allocator) run" where
  "iteratively_delete_tombstone_leaf node c a = tombstone_leaf_loop node 0 c a"

definition evict_leaf :: "nat \<Rightarrow> swa_cache \<Rightarrow> swa_allocator \<Rightarrow> (nat \<times> int \<times> swa_cache \<times> swa_allocator) run" where
  \<comment> \<open>both kinds of layers lose a leaf and the tombstones that become leaves; its slots are free already\<close>
  "evict_leaf n c a =
     run_bind (Some (on_full (remove_node n) c)) (\<lambda>c1.
     run_bind (Some (on_swa (remove_node n) c1)) (\<lambda>c2.
     run_bind (Some (swa_delete_leaf n c2)) (\<lambda>c3.
     iteratively_delete_tombstone_leaf n c3 a)))"

partial_function (option) evict_full_loop ::
  "int \<Rightarrow> nat option \<Rightarrow> int \<Rightarrow> int \<Rightarrow> swa_cache \<Rightarrow> swa_allocator \<Rightarrow> (int \<times> int \<times> swa_cache \<times> swa_allocator) run" where
  "evict_full_loop full_num_tokens x full_num_evicted swa_num_evicted c a =
     (if full_num_evicted < full_num_tokens \<and> in_list (full_lru_list c) x then
        run_bind (Some (deref x)) (\<lambda>n.
        run_bind (Some (node_at n c)) (\<lambda>nd.
        run_bind (Some (py_assert (n \<noteq> sw_root_node c))) (\<lambda>_.
        run_bind (Some (py_assert (full_lock_ref nd = 0))) (\<lambda>_.
        run_bind (Some (swa_free (swa_value nd) a)) (\<lambda>a1.
        run_bind (get_prev_leaf_no_lock (full_lru_list c) n True (swa_nodes c)) (\<lambda>x_next.
        run_bind (evict_leaf n c a1) (\<lambda>(y, leaf_full_num_evicted, c1, a2).
        run_bind (Some (parent_of y c1)) (\<lambda>(p, pd).
        run_bind (if length (swa_children pd) = 0 then get_leaf_lru_no_lock (full_lru_list c1) (swa_nodes c1)
                  else Some (Inr x_next)) (\<lambda>x'.
        evict_full_loop full_num_tokens x'
          (full_num_evicted + int (length (swa_value nd)) + leaf_full_num_evicted)
          (swa_num_evicted + int (length (swa_value nd))) c1 a2)))))))))
      else Some (Inr (full_num_evicted, swa_num_evicted, c, a)))"

definition evict_swa_node :: "nat \<Rightarrow> swa_node \<Rightarrow> swa_cache \<Rightarrow> swa_allocator \<Rightarrow> (swa_cache \<times> swa_allocator) run" where
  \<comment> \<open>an inner node becomes a tombstone, a leaf is deleted\<close>
  "evict_swa_node n xd c a =
     (if length (swa_children xd) > 0 then
        run_bind (Some (on_swa (remove_node n) c)) (\<lambda>c1.
        run_bind (Some (tombstone_internal_node n c1)) (\<lambda>c2. Some (Inr (c2, a))))
      else run_bind (evict_leaf n c a) (\<lambda>(y, k, c1, a1). Some (Inr (c1, a1))))"

partial_function (option) evict_swa_loop ::
  "int \<Rightarrow> nat option \<Rightarrow> int \<Rightarrow> swa_cache \<Rightarrow> swa_allocator \<Rightarrow> (swa_cache \<times> swa_allocator) run" where
  "evict_swa_loop swa_num_tokens x swa_num_evicted c a =
     (if swa_num_evicted < swa_num_tokens \<and> in_list (swa_lru_list c) x then
        run_bind (Some (deref x)) (\<lambda>n.
        run_bind (Some (node_at n c)) (\<lambda>nd.
        run_bind (Some (py_assert (\<not> swa_tombstone nd))) (\<lambda>_.
        run_bind (Some (py_assert (n \<noteq> sw_root_node c))) (\<lambda>_.
        run_bind (Some (py_assert (swa_lock_ref nd = 0))) (\<lambda>_.
        run_bind (Some (py_assert (length (swa_children nd) > 0 \<or> full_lock_ref nd = 0))) (\<lambda>_.
        run_bind (Some (if length (swa_children nd) > 0 then swa_free_swa (swa_value nd) a
                        else swa_free (swa_value nd) a)) (\<lambda>a1.
        run_bind (get_prev_no_lock (swa_lru_list c) n True (swa_nodes c)) (\<lambda>x_next.
        run_bind (evict_swa_node n nd c a1) (\<lambda>(c1, a2).
        evict_swa_loop swa_num_tokens x_next (swa_num_evicted + int (length (swa_value nd))) c1 a2)))))))))
      else Some (Inr (c, a)))"

definition swa_evict :: "int \<Rightarrow> int \<Rightarrow> swa_cache \<Rightarrow> swa_allocator \<Rightarrow> (swa_cache \<times> swa_allocator) run" where
  "swa_evict full_num_tokens swa_num_tokens c a =
     (if sw_disable c then Some (Inr (c, a))
      else run_bind
        (if full_num_tokens > 0
         then run_bind (get_leaf_lru_no_lock (full_lru_list c) (swa_nodes c)) (\<lambda>x.
              evict_full_loop full_num_tokens x 0 0 c a)
         else Some (Inr (0, 0, c, a))) (\<lambda>(full_num_evicted, swa_num_evicted, c1, a1).
         if swa_num_evicted < swa_num_tokens
         then run_bind (get_lru_no_lock (swa_lru_list c1) (swa_nodes c1)) (\<lambda>x.
              evict_swa_loop swa_num_tokens x swa_num_evicted c1 a1)
         else Some (Inr (c1, a1))))"

section \<open>Sizes and traversals\<close>

partial_function (option) swa_total_size_loop :: "nat list \<Rightarrow> nat \<Rightarrow> nat \<Rightarrow> swa_cache \<Rightarrow> (nat \<times> nat) run" where
  "swa_total_size_loop stack tot tot_swa c =
     (if stack = [] then Some (Inr (tot, tot_swa))
      else run_bind (Some (node_at (last stack) c)) (\<lambda>x.
        swa_total_size_loop (butlast stack @ map snd (swa_children x)) (tot + length (swa_value x))
          (if \<not> swa_tombstone x then tot_swa + length (swa_value x) else tot_swa) c))"

definition swa_total_size :: "swa_cache \<Rightarrow> (nat \<times> nat) run" where
  "swa_total_size c = swa_total_size_loop [sw_root_node c] 0 0 c"

definition full_lru_list_evictable_size :: "swa_cache \<Rightarrow> int run" where
  "full_lru_list_evictable_size c = sanity_check_evictable_size (full_lru_list c) (swa_nodes c)"

definition swa_lru_list_evictable_size :: "swa_cache \<Rightarrow> int run" where
  "swa_lru_list_evictable_size c = sanity_check_evictable_size (swa_lru_list c) (swa_nodes c)"

partial_function (option) collect_swa_loop :: "(swa_node \<Rightarrow> bool) \<Rightarrow> nat list \<Rightarrow> nat list \<Rightarrow> swa_cache \<Rightarrow> nat list run" where
  \<comment> \<open>the traversal that the three \<open>_collect\<close> methods share\<close>
  "collect_swa_loop keep stack ret_list c =
     (if stack = [] then Some (Inr ret_list)
      else run_bind (Some (node_at (last stack) c)) (\<lambda>x.
        collect_swa_loop keep (butlast stack @ map snd (swa_children x))
          (if keep x then ret_list @ [last stack] else ret_list) c))"

definition swa_collect_leaves :: "swa_cache \<Rightarrow> nat list run" where
  "swa_collect_leaves c = collect_swa_loop (\<lambda>x. length (swa_children x) = 0) [sw_root_node c] [] c"

definition collect_nontombstone_nodes :: "swa_cache \<Rightarrow> nat list run" where
  "collect_nontombstone_nodes c = collect_swa_loop (\<lambda>x. \<not> swa_tombstone x) [sw_root_node c] [] c"

definition collect_all_nodes :: "swa_cache \<Rightarrow> nat list run" where
  "collect_all_nodes c = collect_swa_loop (\<lambda>_. True) [sw_root_node c] [] c"

section \<open>Requests\<close>

definition swa_cache_finished_req ::
  "req \<Rightarrow> swa_cache \<Rightarrow> req_to_token_pool \<Rightarrow> swa_allocator \<Rightarrow> (swa_cache \<times> req_to_token_pool \<times> swa_allocator) run" where
  "swa_cache_finished_req r c p a =
     (if sw_disable c then
        Some (res_bind (deref (req_pool_idx r)) (\<lambda>i.
          res_bind (read_row i (int (length (origin_input_ids r)) + max (int (length (output_ids r)) - 1) 0) p) (\<lambda>kv_indices.
          res_bind (swa_free kv_indices a) (\<lambda>a1. Inr (c, free_row i p, a1)))))
      else
        let token_ids = py_take (- 1) (origin_input_ids r @ output_ids r)
        in run_bind (Some (deref (req_pool_idx r))) (\<lambda>i.
        run_bind (Some (read_row i (int (length token_ids)) p)) (\<lambda>kv_indices.
        let page_aligned_len = (if sw_page_size c \<noteq> 1 then length kv_indices div sw_page_size c * sw_page_size c
                                else length kv_indices);
            page_aligned_kv_indices = take page_aligned_len kv_indices
        in run_bind (Some (if sw_page_size c \<noteq> 1 then swa_free (drop page_aligned_len kv_indices) a else Inr a)) (\<lambda>a1.
        run_bind (swa_insert (take page_aligned_len token_ids) (Some page_aligned_kv_indices)
            (length (prefix_indices r)) c a1) (\<lambda>(new_prefix_len, c1, a2).
        let p1 = free_row i p
        in run_bind (Some (deref (last_node r))) (\<lambda>n.
        run_bind (swa_dec_lock_ref n (swa_uuid_for_lock r) c1) (\<lambda>c2.
        Some (Inr (c2, p1, a2)))))))))"

definition swa_cache_unfinished_req ::
  "req \<Rightarrow> swa_cache \<Rightarrow> req_to_token_pool \<Rightarrow> swa_allocator
     \<Rightarrow> (req \<times> swa_cache \<times> req_to_token_pool \<times> swa_allocator) run" where
  "swa_cache_unfinished_req r c p a =
     run_bind (Some (deref (req_pool_idx r))) (\<lambda>i.
     run_bind (Some (read_row i (int (length (fill_ids r))) p)) (\<lambda>kv_indices.
     if sw_disable c then Some (Inr (r\<lparr>prefix_indices := kv_indices\<rparr>, c, p, a))
     else
       let page_aligned_len = (if sw_page_size c \<noteq> 1 then length kv_indices div sw_page_size c * sw_page_size c
                               else length kv_indices);
           page_aligned_kv_indices = take page_aligned_len kv_indices;
           page_aligned_token_ids = take page_aligned_len (fill_ids r)
       in run_bind (swa_insert page_aligned_token_ids (Some page_aligned_kv_indices)
            (length (prefix_indices r)) c a) (\<lambda>(new_prefix_len, c1, a1).
       run_bind (swa_match_prefix page_aligned_token_ids c1) (\<lambda>(m, c2).
       let new_indices = device_indices m
       in run_bind (Some (py_assert (length (prefix_indices r) \<le> length new_indices))) (\<lambda>_.
       run_bind (Some (py_assert (new_prefix_len \<le> length new_indices))) (\<lambda>_.
       run_bind (Some (write_row i (int (length (prefix_indices r))) (int (length new_indices))
            (drop (length (prefix_indices r)) new_indices) p)) (\<lambda>p1.
       run_bind (Some (deref (last_node r))) (\<lambda>n.
       run_bind (swa_dec_lock_ref n (swa_uuid_for_lock r) c2) (\<lambda>c3.
       run_bind (swa_inc_lock_ref (last_device_node m) c3) (\<lambda>(uuid, c4).
       let pre = (if sw_page_size c \<noteq> 1 then new_indices @ drop (length new_indices) kv_indices else new_indices)
       in Some (Inr (r\<lparr>prefix_indices := pre, last_node := Some (last_device_node m), swa_uuid_for_lock := uuid\<rparr>,
            c4, p1, a1))))))))))))"

declare
  swa_match_loop.simps [code]
  touch_path.simps [code]
  swa_insert_loop.simps [code]
  inc_swa_loop.simps [code]
  dec_swa_loop.simps [code]
  tombstone_leaf_loop.simps [code]
  evict_full_loop.simps [code]
  evict_swa_loop.simps [code]
  swa_total_size_loop.simps [code]
  collect_swa_loop.simps [code]

end
