(* ===== verification/Lru_Correct.thy ===== *)
theory Lru_Correct
  imports Lru_List
begin

text \<open>
  The recency lists of the hybrid cache refine plain lists. \<open>lru_rep l h xs\<close> says that the
  pointers of the store \<open>h\<close> link exactly the nodes \<open>xs\<close>, most recent first, between the
  dummies of \<open>l\<close>, and that \<open>xs\<close> are the keys of its dictionary; \<open>frame l\<close> that two stores
  differ in the pointers of \<open>l\<close> only, so that neither the tree nor the other list notices.
  Each operation is shown to act on \<open>xs\<close> as its description says, in every store, and the
  property composes them over arbitrary sequences of operations, errors included.
\<close>

section \<open>Linked segments\<close>

definition link :: "lru_list \<Rightarrow> swa_heap \<Rightarrow> nat \<Rightarrow> nat \<Rightarrow> bool" where
  "link l h x y = (\<exists>a b. h x = Some a \<and> h y = Some b \<and> nxt l a = Some y \<and> prv l b = Some x)"

fun linked :: "lru_list \<Rightarrow> swa_heap \<Rightarrow> nat list \<Rightarrow> bool" where
  "linked l h (x # y # zs) \<longleftrightarrow> link l h x y \<and> linked l h (y # zs)"
| "linked l h _ \<longleftrightarrow> True"

definition clear_links :: "lru_list \<Rightarrow> swa_node \<Rightarrow> swa_node" where
  "clear_links l x = set_prv l None (set_nxt l None x)"

definition frame :: "lru_list \<Rightarrow> swa_heap \<Rightarrow> swa_heap \<Rightarrow> bool" where
  "frame l h h' = (\<forall>n. map_option (clear_links l) (h' n) = map_option (clear_links l) (h n))"

lemmas ptr_defs = prv_def nxt_def set_prv_def set_nxt_def

lemma ptr_simps [simp]:
  "prv l (set_prv l v x) = v" "nxt l (set_prv l v x) = nxt l x"
  "nxt l (set_nxt l v x) = v" "prv l (set_nxt l v x) = prv l x"
  "clear_links l (set_prv l v x) = clear_links l x"
  "clear_links l (set_nxt l v x) = clear_links l x"
  by (simp_all add: ptr_defs clear_links_def)

lemma upd_apply [simp]:
  "upd n f h n = map_option f (h n)"
  "m \<noteq> n \<Longrightarrow> upd n f h m = h m"
  by (simp_all add: upd_def)

lemma load_eq_Inr [res_simps]: "load n h = Inr x \<longleftrightarrow> h n = Some x"
  by (simp add: load_def deref_eq_Inr)

lemma load_Some [simp]: "h n = Some x \<Longrightarrow> load n h = Inr x"
  by (simp add: load_def)

lemma frame_refl [simp]: "frame l h h"
  by (simp add: frame_def)

lemma frame_trans [trans]: "frame l h h1 \<Longrightarrow> frame l h1 h2 \<Longrightarrow> frame l h h2"
  by (simp add: frame_def)

lemma frame_upd [simp]:
  "frame l h (upd n (set_prv l v) h1) \<longleftrightarrow> frame l h h1"
  "frame l h (upd n (set_nxt l v) h1) \<longleftrightarrow> frame l h h1"
  by (auto simp: frame_def upd_def option.map_comp comp_def)

lemma frame_dom: "frame l h h' \<Longrightarrow> dom h' = dom h"
proof -
  assume "frame l h h'"
  then have "(h' n = None) = (h n = None)" for n
    unfolding frame_def by (metis option.map_disc_iff)
  then show ?thesis by (simp add: dom_def)
qed

lemma frame_Some:
  assumes "frame l h h'" "h n = Some x"
  obtains x' where "h' n = Some x'" "clear_links l x' = clear_links l x"
proof -
  from assms have "map_option (clear_links l) (h' n) = Some (clear_links l x)"
    by (simp add: frame_def)
  then show ?thesis using that by auto
qed

lemma linked_append: "linked l h (xs @ y # zs) \<longleftrightarrow> linked l h (xs @ [y]) \<and> linked l h (y # zs)"
proof (induction xs)
  case (Cons x xs)
  then show ?case by (cases xs) auto
qed simp

lemma linked_nth_dom: "linked l h zs \<Longrightarrow> 2 \<le> length zs \<Longrightarrow> set zs \<subseteq> dom h"
proof (induction l h zs rule: linked.induct)
  case (1 l h x y zs)
  then show ?case by (cases zs) (auto simp: link_def)
qed auto

lemma link_upd [simp]:
  "y \<noteq> n \<Longrightarrow> link l h x y \<Longrightarrow> link l (upd n (set_prv l v) h) x y"
  "x \<noteq> n \<Longrightarrow> link l h x y \<Longrightarrow> link l (upd n (set_nxt l v) h) x y"
  by (auto simp: link_def upd_def)

lemma linked_upd_prv:
  "linked l h zs \<Longrightarrow> n \<notin> set (tl zs) \<Longrightarrow> linked l (upd n (set_prv l v) h) zs"
  by (induction l h zs rule: linked.induct) auto

lemma linked_upd_nxt:
  "linked l h zs \<Longrightarrow> n \<notin> set (butlast zs) \<Longrightarrow> linked l (upd n (set_nxt l v) h) zs"
  by (induction l h zs rule: linked.induct) auto

lemma linked_upd [simp]:
  assumes "linked l h zs"
  shows "n \<notin> set zs \<Longrightarrow> linked l (upd n (set_prv l v) h) zs"
    and "n \<notin> set zs \<Longrightarrow> linked l (upd n (set_nxt l v) h) zs"
    and "zs = n # ys \<Longrightarrow> n \<notin> set ys \<Longrightarrow> linked l (upd n (set_prv l v) h) zs"
    and "zs = ys @ [n] \<Longrightarrow> n \<notin> set ys \<Longrightarrow> linked l (upd n (set_nxt l v) h) zs"
  using assms linked_upd_prv [of l h zs n v] linked_upd_nxt [of l h zs n v]
  by (auto dest: list.set_sel(2) in_set_butlastD) (cases zs; auto)+

section \<open>The two pointer operations\<close>

lemma add_node_after_linked:
  assumes lk: "linked l h (us @ p # q # vs)" and d: "distinct (us @ p # q # vs)"
    and n: "n \<notin> set (us @ p # q # vs)" "n \<in> dom h"
  obtains h' where "add_node_after l p n h = Inr h'" "linked l h' (us @ p # n # q # vs)" "frame l h h'"
proof -
  define h2 where "h2 = upd n (set_nxt l (Some q)) (upd n (set_prv l (Some p)) h)"
  define h' where "h' = upd p (set_nxt l (Some n)) (upd q (set_prv l (Some n)) h2)"
  have l0: "linked l h (us @ [p])" and pq: "link l h p q" and l1: "linked l h (q # vs)"
    using lk linked_append [of l h us p "q # vs"] by auto
  obtain a b c where s: "h p = Some a" "nxt l a = Some q" "h q = Some b" "prv l b = Some p" "h n = Some c"
    using pq n(2) by (auto simp: link_def)
  have ne: "p \<noteq> n" "q \<noteq> n" "p \<noteq> q" using d n(1) by auto
  have 1: "add_node_after l p n h = Inr h'"
    using s ne by (simp add: add_node_after_def Let_def h'_def h2_def)
  have "linked l h2 (us @ [p])" "linked l h2 (q # vs)"
    using l0 l1 n(1) by (auto simp: h2_def)
  then have "linked l (upd q (set_prv l (Some n)) h2) (us @ [p])"
      "linked l (upd q (set_prv l (Some n)) h2) (q # vs)"
    using d by auto
  then have 2: "linked l h' (us @ [p])" "linked l h' (q # vs)"
    using d by (auto simp: h'_def)
  have "link l h' p n" "link l h' n q"
    using s ne by (auto simp: link_def h'_def h2_def)
  with 2 have "linked l h' (us @ p # n # q # vs)"
    using linked_append [of l h' us p "n # q # vs"] by simp
  with 1 show ?thesis by (rule that) (simp add: h'_def h2_def)
qed

lemma unlink_node_linked:
  assumes lk: "linked l h (us @ p # n # q # vs)" and d: "distinct (us @ p # n # q # vs)"
  obtains h' where "unlink_node l n h = Inr h'" "linked l h' (us @ p # q # vs)" "frame l h h'"
proof -
  define h' where "h' = upd q (set_prv l (Some p)) (upd p (set_nxt l (Some q)) h)"
  have l0: "linked l h (us @ [p])" and pn: "link l h p n" "link l h n q" and l1: "linked l h (q # vs)"
    using lk linked_append [of l h us p "n # q # vs"] by auto
  obtain a b c where s: "h p = Some a" "h n = Some b" "h q = Some c" "nxt l a = Some n"
      "prv l b = Some p" "nxt l b = Some q" "prv l c = Some n"
    using pn by (auto simp: link_def)
  have ne: "p \<noteq> n" "q \<noteq> n" "p \<noteq> q" using d by auto
  have 1: "unlink_node l n h = Inr h'"
    using s ne by (simp add: unlink_node_def Let_def h'_def)
  have "linked l (upd p (set_nxt l (Some q)) h) (us @ [p])" "linked l (upd p (set_nxt l (Some q)) h) (q # vs)"
    using l0 l1 d by auto
  then have 2: "linked l h' (us @ [p])" "linked l h' (q # vs)"
    using d by (auto simp: h'_def)
  have "link l h' p q" using s ne by (auto simp: link_def h'_def)
  with 2 have "linked l h' (us @ p # q # vs)"
    using linked_append [of l h' us p "q # vs"] by simp
  with 1 show ?thesis by (rule that) (simp add: h'_def)
qed

section \<open>Represented lists\<close>

definition dummy :: "swa_node \<Rightarrow> bool" where
  "dummy x = (full_lock_ref x = 0 \<and> swa_lock_ref x = 0 \<and> swa_children x = [])"

definition lru_rep :: "lru_list \<Rightarrow> swa_heap \<Rightarrow> nat list \<Rightarrow> bool" where
  "lru_rep l h xs \<longleftrightarrow>
     linked l h (head_node l # xs @ [tail_node l]) \<and> distinct (head_node l # xs @ [tail_node l]) \<and>
     fst ` set (lru_cache l) = set xs \<and> pred_option dummy (h (head_node l))"

lemma frame_attr:
  assumes "frame l h h'" "\<And>x. P (clear_links l x) = P x"
  shows "map_option P (h' n) = map_option P (h n)"
proof -
  have "map_option P (map_option (clear_links l) (h' n)) = map_option P (map_option (clear_links l) (h n))"
    using assms(1) by (simp add: frame_def)
  then show ?thesis by (simp add: option.map_comp comp_def assms(2))
qed

lemma clear_links_attrs [simp]:
  "dummy (clear_links l x) = dummy x" "swa_tombstone (clear_links l x) = swa_tombstone x"
  "swa_parent (clear_links l x) = swa_parent x" "swa_children (clear_links l x) = swa_children x"
  "swa_value (clear_links l x) = swa_value x" "lru_lock_ref m (clear_links l x) = lru_lock_ref m x"
  by (simp_all add: clear_links_def ptr_defs dummy_def lru_lock_ref_def)

lemma pred_dummy_frame: "frame l h h' \<Longrightarrow> pred_option dummy (h' n) = pred_option dummy (h n)"
  using frame_attr [of l h h' dummy n] by (cases "h n"; cases "h' n") auto

lemma lru_init_rep:
  assumes "lru_init swa s = (l, s')"
  shows "lru_rep l (swa_nodes s') []" "lru_swa l = swa" "swa_counter s' = swa_counter s + 2"
    and "m < swa_counter s \<Longrightarrow> swa_nodes s' m = swa_nodes s m"
  using assms
  by (cases swa; auto simp: lru_init_def create_swa_node_def Let_def lru_rep_def link_def dummy_def ptr_defs
      new_swa_node_def)+

lemma in_lru_cache_rep: "lru_rep l h xs \<Longrightarrow> in_lru_cache l n \<longleftrightarrow> n \<in> set xs"
  by (simp add: lru_rep_def in_lru_cache_def)

lemma lru_rep_dom: "lru_rep l h xs \<Longrightarrow> {head_node l, tail_node l} \<union> set xs \<subseteq> dom h"
  using linked_nth_dom [of l h "head_node l # xs @ [tail_node l]"] by (auto simp: lru_rep_def)

lemma list_neighbours:
  obtains us p q vs where "hd_n # as = us @ [p]" "bs @ [tl_n] = q # vs"
    "p = last (hd_n # as)" "q = hd (bs @ [tl_n])"
proof -
  obtain us p where "hd_n # as = us @ [p]" by (metis append_butlast_last_id list.distinct(1))
  moreover obtain q vs where "bs @ [tl_n] = q # vs" by (cases "bs @ [tl_n]") auto
  ultimately show ?thesis using that by (metis last_snoc list.sel(1))
qed

lemma add_after_rep:
  assumes r: "lru_rep l h (as @ bs)" and n: "n \<notin> set (as @ bs)" "n \<in> dom h" "n \<noteq> head_node l" "n \<noteq> tail_node l"
  obtains h' where "add_node_after l (last (head_node l # as)) n h = Inr h'"
    "linked l h' (head_node l # (as @ n # bs) @ [tail_node l])" "frame l h h'"
proof -
  obtain us p q vs where e: "head_node l # as = us @ [p]" "bs @ [tail_node l] = q # vs"
      "p = last (head_node l # as)" "q = hd (bs @ [tail_node l])"
    by (rule list_neighbours)
  have e0: "head_node l # (as @ bs) @ [tail_node l] = us @ p # q # vs"
    using e(1,2) by (metis append.assoc append_Cons append_Nil)
  have e1: "head_node l # (as @ n # bs) @ [tail_node l] = us @ p # n # q # vs"
    using e(1,2) by (metis append.assoc append_Cons append_Nil)
  have "n \<notin> set (us @ p # q # vs)" unfolding e0 [symmetric] using n by auto
  moreover have "linked l h (us @ p # q # vs)" "distinct (us @ p # q # vs)"
    using r unfolding lru_rep_def e0 by blast+
  ultimately obtain h' where "add_node_after l p n h = Inr h'" "linked l h' (us @ p # n # q # vs)" "frame l h h'"
    using n(2) by (rule_tac add_node_after_linked)
  then show ?thesis using that e(3) unfolding e1 [symmetric] by blast
qed

lemma unlink_rep:
  assumes r: "lru_rep l h (as @ n # bs)"
  obtains h' where "unlink_node l n h = Inr h'"
    "linked l h' (head_node l # (as @ bs) @ [tail_node l])" "frame l h h'"
proof -
  obtain us p q vs where e: "head_node l # as = us @ [p]" "bs @ [tail_node l] = q # vs"
      "p = last (head_node l # as)" "q = hd (bs @ [tail_node l])"
    by (rule list_neighbours)
  have e0: "head_node l # (as @ n # bs) @ [tail_node l] = us @ p # n # q # vs"
    using e(1,2) by (metis append.assoc append_Cons append_Nil)
  have e1: "head_node l # (as @ bs) @ [tail_node l] = us @ p # q # vs"
    using e(1,2) by (metis append.assoc append_Cons append_Nil)
  have "linked l h (us @ p # n # q # vs)" "distinct (us @ p # n # q # vs)"
    using r unfolding lru_rep_def e0 by blast+
  then obtain h' where "unlink_node l n h = Inr h'" "linked l h' (us @ p # q # vs)" "frame l h h'"
    by (rule unlink_node_linked)
  then show ?thesis unfolding e1 [symmetric] by (rule that)
qed

section \<open>Each operation on the represented list\<close>

definition barred :: "bool \<Rightarrow> swa_heap \<Rightarrow> nat \<Rightarrow> bool" where
  \<comment> \<open>tombstones may not enter the list of the sliding window\<close>
  "barred swa h n \<longleftrightarrow> swa \<and> pred_option swa_tombstone (h n) \<and> h n \<noteq> None"

lemma cache_upd_ptrs [simp]:
  "prv (l\<lparr>lru_cache := c\<rparr>) = prv l" "nxt (l\<lparr>lru_cache := c\<rparr>) = nxt l"
  "set_prv (l\<lparr>lru_cache := c\<rparr>) = set_prv l" "set_nxt (l\<lparr>lru_cache := c\<rparr>) = set_nxt l"
  by (simp_all add: fun_eq_iff ptr_defs)

lemma cache_upd_simps [simp]:
  "clear_links (l\<lparr>lru_cache := c\<rparr>) = clear_links l" "frame (l\<lparr>lru_cache := c\<rparr>) = frame l"
  "link (l\<lparr>lru_cache := c\<rparr>) = link l"
  "unlink_node (l\<lparr>lru_cache := c\<rparr>) = unlink_node l" "add_node_after (l\<lparr>lru_cache := c\<rparr>) = add_node_after l"
proof -
  show c: "clear_links (l\<lparr>lru_cache := c\<rparr>) = clear_links l"
    by (simp add: fun_eq_iff clear_links_def)
  show "frame (l\<lparr>lru_cache := c\<rparr>) = frame l"
    unfolding frame_def c ..
qed (simp_all add: fun_eq_iff link_def unlink_node_def add_node_after_def)

lemma linked_cache_upd [simp]: "linked (l\<lparr>lru_cache := c\<rparr>) h zs = linked l h zs"
  by (induction l h zs rule: linked.induct) auto

lemma keys_delete: "fst ` set (AList.delete n al) = fst ` set al - {n}"
  by (induction al) (auto simp: AList.delete_eq)

lemma barred_frame: "frame l h h' \<Longrightarrow> barred swa h' n = barred swa h n"
  using frame_attr [of l h h' swa_tombstone n] by (cases "h n"; cases "h' n") (auto simp: barred_def)

lemma lru_repI:
  assumes "linked l h' (head_node l # xs @ [tail_node l])" "distinct (head_node l # xs @ [tail_node l])"
    "fst ` set (lru_cache l) = set xs" "frame l h h'" "pred_option dummy (h (head_node l))"
  shows "lru_rep l h' xs"
  using assms by (simp add: lru_rep_def pred_dummy_frame)

lemma insert_mru_rep:
  assumes r: "lru_rep l h xs" and n: "n \<in> dom h" "n \<noteq> head_node l" "n \<noteq> tail_node l"
    and ok: "n \<notin> set xs" "\<not> barred (lru_swa l) h n"
  obtains l' h' where "insert_mru n l h = Inr (l', h')" "lru_rep l' h' (n # xs)" "frame l h h'"
    "l' = l\<lparr>lru_cache := AList.update n n (lru_cache l)\<rparr>"
proof -
  obtain x where x: "h n = Some x" using n(1) by auto
  obtain h' where h': "add_node_after l (head_node l) n h = Inr h'"
      "linked l h' (head_node l # (n # xs) @ [tail_node l])" "frame l h h'"
    using add_after_rep [of l h "[]" xs n] r n ok(1) by auto
  have "\<not> lru_swa l \<or> \<not> swa_tombstone x" using ok(2) x by (auto simp: barred_def)
  moreover have "\<not> in_lru_cache l n" using r ok(1) by (simp add: in_lru_cache_rep)
  ultimately have "insert_mru n l h = Inr (l\<lparr>lru_cache := AList.update n n (lru_cache l)\<rparr>, h')"
    using x h'(1) by (simp add: insert_mru_def add_node_def)
  moreover have "lru_rep (l\<lparr>lru_cache := AList.update n n (lru_cache l)\<rparr>) h' (n # xs)"
    by (rule lru_repI [of _ _ _ h]) (use r h' n ok in \<open>auto simp: lru_rep_def dom_update\<close>)
  ultimately show ?thesis using h'(3) by (rule that) simp
qed

lemma insert_mru_fails:
  assumes "lru_rep l h xs" "n \<in> set xs \<or> barred (lru_swa l) h n"
  shows "insert_mru n l h \<noteq> Inr r"
  using assms by (auto simp: insert_mru_def res_simps in_lru_cache_rep barred_def Let_def)

lemma remove_node_rep:
  assumes r: "lru_rep l h xs" and ok: "n \<in> set xs" "\<not> barred (lru_swa l) h n"
  obtains l' h' where "remove_node n l h = Inr (l', h')" "lru_rep l' h' (remove1 n xs)" "frame l h h'"
    "l' = l\<lparr>lru_cache := AList.delete n (lru_cache l)\<rparr>"
proof -
  obtain x where x: "h n = Some x" using lru_rep_dom [OF r] ok(1) by auto
  obtain as bs where e: "xs = as @ n # bs" "n \<notin> set as" using split_list_first [OF ok(1)] by auto
  have d: "distinct xs" using r by (simp add: lru_rep_def)
  have e': "remove1 n xs = as @ bs" using e by (simp add: remove1_append)
  obtain h' where h': "unlink_node l n h = Inr h'"
      "linked l h' (head_node l # (as @ bs) @ [tail_node l])" "frame l h h'"
    using unlink_rep [of l h as n bs] r e(1) by auto
  have "\<not> lru_swa l \<or> \<not> swa_tombstone x" using ok(2) x by (auto simp: barred_def)
  moreover have "in_lru_cache l n" using r ok(1) by (simp add: in_lru_cache_rep)
  ultimately have "remove_node n l h = Inr (l\<lparr>lru_cache := AList.delete n (lru_cache l)\<rparr>, h')"
    using x h'(1) by (simp add: remove_node_def)
  moreover have "fst ` set (AList.delete n (lru_cache l)) = set (as @ bs)"
    using r e d by (simp add: lru_rep_def keys_delete)
  then have "lru_rep (l\<lparr>lru_cache := AList.delete n (lru_cache l)\<rparr>) h' (remove1 n xs)"
    unfolding e' by (rule_tac lru_repI [of _ _ _ h]) (use r h' e(1) in \<open>auto simp: lru_rep_def\<close>)
  ultimately show ?thesis using h'(3) by (rule that) simp
qed

lemma remove_node_fails:
  assumes "lru_rep l h xs" "n \<notin> set xs \<or> barred (lru_swa l) h n"
  shows "remove_node n l h \<noteq> Inr r"
  using assms by (auto simp: remove_node_def res_simps in_lru_cache_rep barred_def Let_def)

lemma move_after_rep:
  \<comment> \<open>unlinking a node and linking it again after the nodes \<open>as\<close>\<close>
  assumes r: "lru_rep l h (as @ bs)" and n: "n \<in> set bs"
  obtains h1 h' where "unlink_node l n h = Inr h1" "add_node_after l (last (head_node l # as)) n h1 = Inr h'"
    "lru_rep l h' ((as @ [n]) @ remove1 n bs)" "frame l h h'"
proof -
  obtain cs ds where e: "bs = cs @ n # ds" "n \<notin> set cs" using split_list_first [OF n] by auto
  have e': "remove1 n bs = cs @ ds" using e by (simp add: remove1_append)
  have d: "distinct (head_node l # (as @ cs @ n # ds) @ [tail_node l])" using r e by (simp add: lru_rep_def)
  obtain h1 where h1: "unlink_node l n h = Inr h1"
      "linked l h1 (head_node l # ((as @ cs) @ ds) @ [tail_node l])" "frame l h h1"
    using unlink_rep [of l h "as @ cs" n ds] r e(1) by auto
  define l1 where "l1 = l\<lparr>lru_cache := AList.delete n (lru_cache l)\<rparr>"
  have "fst ` set (lru_cache l1) = set (as @ cs @ ds)"
    using r e d by (simp add: lru_rep_def keys_delete l1_def)
  then have r1: "lru_rep l1 h1 (as @ cs @ ds)"
    by (rule_tac lru_repI [of _ _ _ h]) (use r h1 e(1) in \<open>auto simp: lru_rep_def l1_def\<close>)
  have "n \<in> dom h" using lru_rep_dom [OF r] n by auto
  then have "n \<in> dom h1" using frame_dom [OF h1(3)] by simp
  then obtain h' where h': "add_node_after l (last (head_node l # as)) n h1 = Inr h'"
      "linked l h' (head_node l # (as @ n # cs @ ds) @ [tail_node l])" "frame l h1 h'"
    using add_after_rep [of l1 h1 as "cs @ ds" n] r1 d by (auto simp: l1_def)
  have "frame l h h'" using h1(3) h'(3) by (rule frame_trans)
  moreover have "lru_rep l h' ((as @ [n]) @ remove1 n bs)"
    unfolding e' by (rule lru_repI [of _ _ _ h]) (use r h' e d calculation in \<open>auto simp: lru_rep_def\<close>)
  ultimately show ?thesis using h1(1) h'(1) by (rule_tac that)
qed

lemma reset_node_mru_rep:
  assumes r: "lru_rep l h xs" and ok: "n \<in> set xs" "\<not> barred (lru_swa l) h n"
  obtains h' where "reset_node_mru l n h = Inr h'" "lru_rep l h' (n # remove1 n xs)" "frame l h h'"
proof -
  obtain x where x: "h n = Some x" using lru_rep_dom [OF r] ok(1) by auto
  obtain h1 h' where h: "unlink_node l n h = Inr h1" "add_node_after l (head_node l) n h1 = Inr h'"
      "lru_rep l h' (n # remove1 n xs)" "frame l h h'"
    using move_after_rep [of l h "[]" xs n] r ok(1) by auto
  have "\<not> lru_swa l \<or> \<not> swa_tombstone x" using ok(2) x by (auto simp: barred_def)
  then have "reset_node_mru l n h = Inr h'"
    using x h r ok(1) by (simp add: reset_node_mru_def add_node_def in_lru_cache_rep)
  then show ?thesis using h(3,4) by (rule that)
qed

lemma reset_node_mru_fails:
  assumes "lru_rep l h xs" "n \<notin> set xs \<or> barred (lru_swa l) h n"
  shows "reset_node_mru l n h \<noteq> Inr r"
  using assms by (auto simp: reset_node_mru_def res_simps in_lru_cache_rep barred_def)

section \<open>Ancestors\<close>

partial_function (option) ancestors :: "swa_heap \<Rightarrow> nat \<Rightarrow> nat \<Rightarrow> nat list option" where
  \<comment> \<open>the nodes from \<open>n\<close> up to the root, exclusive\<close>
  "ancestors h n r =
     (if n = r then Some []
      else Option.bind (h n) (\<lambda>x. Option.bind (swa_parent x) (\<lambda>p.
           Option.bind (ancestors h p r) (\<lambda>ps. Some (n # ps)))))"

lemma ancestors_Cons:
  "ancestors h n r = Some (m # ps) \<longleftrightarrow>
     m = n \<and> n \<noteq> r \<and> (\<exists>x p. h n = Some x \<and> swa_parent x = Some p \<and> ancestors h p r = Some ps)"
  by (subst ancestors.simps) (auto split: bind_splits)

lemma ancestors_Nil: "ancestors h n r = Some [] \<longleftrightarrow> n = r"
  by (subst ancestors.simps) (auto split: bind_splits)

lemma ancestors_frame: "ancestors h n r = Some ps \<Longrightarrow> frame l h h' \<Longrightarrow> ancestors h' n r = Some ps"
proof (induction ps arbitrary: n)
  case (Cons m ps)
  from Cons.prems(1) obtain x p where x: "m = n" "n \<noteq> r" "h n = Some x" "swa_parent x = Some p"
      "ancestors h p r = Some ps"
    by (auto simp: ancestors_Cons)
  obtain x' where x': "h' n = Some x'" using frame_Some [OF Cons.prems(2) x(3)] by metis
  have "swa_parent x' = Some p"
    using frame_attr [OF Cons.prems(2), of swa_parent n] x(3,4) x' by simp
  then show ?case using x x' Cons.IH [OF x(5) Cons.prems(2)] by (auto simp: ancestors_Cons)
qed (simp add: ancestors_Nil)

lemma ancestors_suffix:
  "ancestors h n r = Some ps \<Longrightarrow> m \<in> set ps \<Longrightarrow> \<exists>us vs. ps = us @ m # vs \<and> ancestors h m r = Some (m # vs)"
proof (induction ps arbitrary: n)
  case (Cons k ps)
  show ?case
  proof (cases "m = k")
    case True
    then have "k # ps = [] @ m # ps \<and> ancestors h m r = Some (m # ps)"
      using Cons.prems(1) by (auto simp: ancestors_Cons)
    then show ?thesis by blast
  next
    case False
    obtain p where "ancestors h p r = Some ps" using Cons.prems(1) by (auto simp: ancestors_Cons)
    then obtain us vs where "ps = us @ m # vs \<and> ancestors h m r = Some (m # vs)"
      using Cons.IH [of p] False Cons.prems(2) by (metis set_ConsD)
    then show ?thesis by (metis append_Cons)
  qed
qed simp

lemma ancestors_distinct: "ancestors h n r = Some ps \<Longrightarrow> distinct ps"
proof (induction ps arbitrary: n)
  case (Cons k ps)
  obtain p where k: "k = n" and p: "ancestors h p r = Some ps" using Cons.prems by (auto simp: ancestors_Cons)
  have "k \<notin> set ps"
  proof
    assume "k \<in> set ps"
    then obtain us vs where "ps = us @ k # vs" "ancestors h k r = Some (k # vs)"
      using ancestors_suffix [OF p, of k] by blast
    with Cons.prems k show False by simp
  qed
  then show ?case using Cons.IH [OF p] by simp
qed simp

lemma reset_one_rep:
  assumes r: "lru_rep l h (as @ bs)" and n: "h n = Some x" and ok: "\<not> barred (lru_swa l) h n \<Longrightarrow> n \<in> set bs"
  obtains h' as' bs' where "reset_one l (last (head_node l # as)) n h = Inr (last (head_node l # as'), h')"
    "lru_rep l h' (as' @ bs')" "frame l h h'"
    "as' = as @ (if barred (lru_swa l) h n then [] else [n])"
    "bs' = (if barred (lru_swa l) h n then bs else remove1 n bs)"
proof (cases "barred (lru_swa l) h n")
  case True
  then have "reset_one l (last (head_node l # as)) n h = Inr (last (head_node l # as), h)"
    using n by (simp add: reset_one_def barred_def)
  then show ?thesis using r True by (intro that [of as h bs]) auto
next
  case False
  then have b: "n \<in> set bs" by (rule ok)
  have "\<not> lru_swa l \<or> \<not> swa_tombstone x" using False n by (auto simp: barred_def)
  moreover have "in_lru_cache l n" using r b by (simp add: in_lru_cache_rep)
  moreover obtain h1 h' where "unlink_node l n h = Inr h1"
      "add_node_after l (last (head_node l # as)) n h1 = Inr h'"
      "lru_rep l h' ((as @ [n]) @ remove1 n bs)" "frame l h h'"
    by (rule move_after_rep [OF r b])
  ultimately show ?thesis
    using n False by (intro that [of "as @ [n]" h' "remove1 n bs"]) (auto simp: reset_one_def)
qed

lemma reset_parents_loop_rep:
  assumes "lru_rep l h (as @ bs)" "ancestors h n r = Some ps" "distinct ps"
    "\<forall>p\<in>set ps. \<not> barred (lru_swa l) h p \<longrightarrow> p \<in> set bs"
    "qs = filter (\<lambda>p. \<not> barred (lru_swa l) h p) ps"
  shows "\<exists>h'. reset_parents_loop l (last (head_node l # as)) n r h = Some (Inr h') \<and>
     lru_rep l h' (as @ qs @ filter (\<lambda>x. x \<notin> set qs) bs) \<and> frame l h h'"
  using assms
proof (induction ps arbitrary: n h as bs qs)
  case Nil
  then show ?case by (subst reset_parents_loop.simps) (simp add: ancestors_Nil)
next
  case (Cons m ps)
  from Cons.prems(2) obtain x p where x: "m = n" "n \<noteq> r" "h n = Some x" "swa_parent x = Some p"
      "ancestors h p r = Some ps"
    by (auto simp: ancestors_Cons)
  obtain h1 as' bs' where 1: "reset_one l (last (head_node l # as)) n h = Inr (last (head_node l # as'), h1)"
      "lru_rep l h1 (as' @ bs')" "frame l h h1"
      "as' = as @ (if barred (lru_swa l) h n then [] else [n])"
      "bs' = (if barred (lru_swa l) h n then bs else remove1 n bs)"
    by (rule reset_one_rep [OF Cons.prems(1) x(3)]) (use Cons.prems(4) x(1) in auto)
  have b: "barred (lru_swa l) h1 = barred (lru_swa l) h" using barred_frame [OF 1(3)] by blast
  obtain x1 where x1: "h1 n = Some x1" "swa_parent x1 = Some p"
    using frame_attr [OF 1(3), of swa_parent n] x(3,4) by auto
  have d: "distinct bs" using Cons.prems(1) by (simp add: lru_rep_def)
  have "\<forall>q\<in>set ps. \<not> barred (lru_swa l) h1 q \<longrightarrow> q \<in> set bs'"
    using Cons.prems(3,4) d x(1) by (auto simp: b 1(5))
  then obtain h2 where 2: "reset_parents_loop l (last (head_node l # as')) p r h1 = Some (Inr h2)"
      "lru_rep l h2 (as' @ filter (\<lambda>p. \<not> barred (lru_swa l) h p) ps
         @ filter (\<lambda>x. x \<notin> set (filter (\<lambda>p. \<not> barred (lru_swa l) h p) ps)) bs')" "frame l h1 h2"
    using Cons.IH [OF 1(2) ancestors_frame [OF x(5) 1(3)] _ _ refl] Cons.prems(3) unfolding b by auto
  have "reset_parents_loop l (last (head_node l # as)) n r h = Some (Inr h2)"
    by (subst reset_parents_loop.simps) (simp add: 1(1) 2(1) x(2) x1 del: last.simps)
  moreover have "as' @ filter (\<lambda>p. \<not> barred (lru_swa l) h p) ps
         @ filter (\<lambda>x. x \<notin> set (filter (\<lambda>p. \<not> barred (lru_swa l) h p) ps)) bs'
       = as @ qs @ filter (\<lambda>x. x \<notin> set qs) bs"
    using d x(1) by (auto simp: 1(4,5) Cons.prems(5) distinct_remove1_removeAll removeAll_filter_not_eq
        intro!: filter_cong)
  ultimately show ?case using 2(2) frame_trans [OF 1(3) 2(3)] by auto
qed

lemma unlink_node_frame: "unlink_node l n h = Inr h' \<Longrightarrow> frame l h h'"
  by (auto simp: unlink_node_def Let_def res_simps)

lemma add_node_after_frame: "add_node_after l p n h = Inr h' \<Longrightarrow> frame l h h'"
  by (auto simp: add_node_after_def Let_def res_simps)

lemma reset_one_cond:
  assumes "reset_one l p n h = Inr r"
  shows "frame l h (snd r)" "barred (lru_swa l) h n \<or> in_lru_cache l n"
proof -
  show "barred (lru_swa l) h n \<or> in_lru_cache l n"
    using assms by (auto simp: reset_one_def res_simps barred_def split: if_splits)
  show "frame l h (snd r)"
    using assms
    by (auto simp: reset_one_def res_simps split: if_splits dest!: unlink_node_frame add_node_after_frame
        intro: frame_trans)
qed

lemma frame_sym: "frame l h h' \<Longrightarrow> frame l h' h"
  by (simp add: frame_def)

definition movable :: "lru_list \<Rightarrow> swa_heap \<Rightarrow> nat \<Rightarrow> nat \<Rightarrow> bool" where
  "movable l h n r \<longleftrightarrow>
     (\<exists>ps. ancestors h n r = Some ps \<and> (\<forall>q\<in>set ps. barred (lru_swa l) h q \<or> in_lru_cache l q))"

lemma movable_step:
  assumes u: "reset_one l p n h = Inr u" and x: "snd u n = Some x" "swa_parent x = Some q"
    and m: "movable l (snd u) q r" and n: "n \<noteq> r"
  shows "movable l h n r"
proof -
  have f: "frame l h (snd u)" using reset_one_cond(1) [OF u] .
  obtain ps where ps: "ancestors (snd u) q r = Some ps"
      "\<forall>k\<in>set ps. barred (lru_swa l) (snd u) k \<or> in_lru_cache l k"
    using m by (auto simp: movable_def)
  obtain x0 where "h n = Some x0" "swa_parent x0 = Some q"
    using frame_attr [OF f, of swa_parent n] x by (cases "h n") auto
  then have "ancestors h n r = Some (n # ps)"
    using n ancestors_frame [OF ps(1) frame_sym [OF f]] by (auto simp: ancestors_Cons)
  then show ?thesis
    using ps(2) reset_one_cond(2) [OF u] by (auto simp: movable_def barred_frame [OF f])
qed

lemma reset_parents_loop_movable:
  assumes "reset_parents_loop l p n r h = Some y"
  shows "y = Inr h' \<longrightarrow> movable l h n r"
proof (rule reset_parents_loop.raw_induct [of "\<lambda>l p n r h y. y = Inr h' \<longrightarrow> movable l h n r", OF _ assms],
    intro impI)
  fix loop l p n r h y
  assume IH: "\<And>l p n r h y. loop l p n r h = Some y \<Longrightarrow> y = Inr h' \<longrightarrow> movable l h n r"
    and body: "(if n \<noteq> r
      then run_bind (Some (reset_one l p n h)) (\<lambda>ra. run_bind (Some (load n (snd ra))) (\<lambda>x.
        run_bind (Some (deref (swa_parent x))) (\<lambda>p. loop l (fst ra) p r (snd ra))))
      else Some (Inr h)) = Some y"
    and y: "y = Inr (h' :: swa_heap)"
  show "movable l h n r"
  proof (cases "n = r")
    case True
    then show ?thesis using ancestors_Nil [of h n r] by (auto simp: movable_def intro!: exI [of _ "[]"])
  next
    case False
    with body y obtain u x q where "reset_one l p n h = Inr u" "snd u n = Some x"
        "swa_parent x = Some q" "loop l (fst u) q r (snd u) = Some (Inr h')"
      by (auto simp: res_simps)
    then show ?thesis using movable_step IH False by blast
  qed
qed

section \<open>Observers\<close>

lemma prev_no_lock_loop_rep:
  assumes "linked l h (head_node l # as @ [n])" "h (head_node l) = Some x0" "\<not> skip x0"
  shows "prev_no_lock_loop skip l (Some (last (head_node l # as))) h
     = Some (Inr (case find (\<lambda>m. \<exists>x. h m = Some x \<and> \<not> skip x) (rev as) of None \<Rightarrow> head_node l | Some y \<Rightarrow> y))"
  using assms(1)
proof (induction as arbitrary: n rule: rev_induct)
  case Nil
  show ?case using assms(2,3) by (subst prev_no_lock_loop.simps) simp
next
  case (snoc a as)
  have lk: "linked l h ((head_node l # as) @ [a])" "link l h a n"
    using snoc.prems linked_append [of l h "head_node l # as" a "[n]"] by auto
  obtain us p where e: "head_node l # as = us @ [p]" by (metis append_butlast_last_id list.distinct(1))
  then have "link l h p a" using lk(1) linked_append [of l h us p "[a]"] by auto
  then obtain x where x: "h a = Some x" "prv l x = Some p" by (auto simp: link_def)
  have p: "p = last (head_node l # as)" using e by (metis last_snoc)
  show ?case
  proof (cases "skip x")
    case True
    then have "prev_no_lock_loop skip l (Some a) h = prev_no_lock_loop skip l (Some p) h"
      by (subst prev_no_lock_loop.simps) (simp add: x)
    with snoc.IH [of a] lk(1) p True x show ?thesis by simp
  next
    case False
    then have "prev_no_lock_loop skip l (Some a) h = Some (Inr a)"
      by (subst prev_no_lock_loop.simps) (simp add: x)
    with False x show ?thesis by simp
  qed
qed

lemma get_prev_where_rep:
  assumes r: "lru_rep l h xs" and e: "xs @ [tail_node l] = as @ n # bs"
    and c: "check_id \<longrightarrow> n \<in> set xs" and sk: "\<And>x. dummy x \<Longrightarrow> \<not> skip x"
  shows "get_prev_where skip l n check_id h
     = Some (Inr (find (\<lambda>m. \<exists>x. h m = Some x \<and> \<not> skip x) (rev as)))"
proof -
  have lk: "linked l h (head_node l # as @ n # bs)" "distinct (head_node l # as @ n # bs)"
    using r unfolding lru_rep_def e by auto
  obtain x0 where x0: "h (head_node l) = Some x0" "dummy x0"
    using r lru_rep_dom [OF r] by (auto simp: lru_rep_def)
  have lk': "linked l h ((head_node l # as) @ [n])"
    using lk(1) linked_append [of l h "head_node l # as" n bs] by simp
  obtain us p where u: "head_node l # as = us @ [p]" by (metis append_butlast_last_id list.distinct(1))
  then have "link l h p n" using lk' linked_append [of l h us p "[n]"] by auto
  moreover have p: "p = last (head_node l # as)" using u by (metis last_snoc)
  ultimately obtain x where x: "h n = Some x" "prv l x = Some (last (head_node l # as))" by (auto simp: link_def)
  have "find (\<lambda>m. \<exists>x. h m = Some x \<and> \<not> skip x) (rev as) \<noteq> Some (head_node l)"
    using lk(2) by (auto simp: find_Some_iff)
      (metis list.set_intros(1) nth_mem set_rev length_rev)
  moreover have "\<not> check_id \<or> in_lru_cache l n" using c r by (auto simp: in_lru_cache_rep)
  ultimately show ?thesis
    using prev_no_lock_loop_rep [of l h as n x0 skip] lk' x0 sk
    by (auto simp: get_prev_where_def x split: option.split simp del: last.simps)
qed

definition free_node :: "lru_list \<Rightarrow> swa_heap \<Rightarrow> nat \<Rightarrow> bool" where
  "free_node l h n = (case h n of None \<Rightarrow> False | Some x \<Rightarrow> \<not> lru_lock_ref l x > 0)"

definition free_leaf :: "lru_list \<Rightarrow> swa_heap \<Rightarrow> nat \<Rightarrow> bool" where
  "free_leaf l h n = (case h n of None \<Rightarrow> False | Some x \<Rightarrow> \<not> lru_lock_ref l x > 0 \<and> swa_children x = [])"

lemma free_node_ex: "free_node l h = (\<lambda>m. \<exists>x. h m = Some x \<and> \<not> lru_lock_ref l x > 0)"
  by (auto simp: free_node_def fun_eq_iff split: option.splits)

lemma free_leaf_ex:
  "free_leaf l h = (\<lambda>m. \<exists>x. h m = Some x \<and> \<not> (lru_lock_ref l x > 0 \<or> length (swa_children x) > 0))"
  by (auto simp: free_leaf_def fun_eq_iff split: option.splits)

lemma dummy_free: "dummy x \<Longrightarrow> \<not> lru_lock_ref l x > 0" "dummy x \<Longrightarrow> swa_children x = []"
  by (simp_all add: dummy_def lru_lock_ref_def)

lemma get_prev_rep:
  assumes "lru_rep l h xs" "xs = as @ n # bs"
  shows "get_prev_no_lock l n True h = Some (Inr (find (free_node l h) (rev as)))"
    and "get_prev_leaf_no_lock l n True h = Some (Inr (find (free_leaf l h) (rev as)))"
  using get_prev_where_rep [of l h xs as n "bs @ [tail_node l]" True] assms
  by (simp_all add: get_prev_no_lock_def get_prev_leaf_no_lock_def free_node_ex free_leaf_ex dummy_free
      dummy_free(1) [unfolded not_less])

lemma get_lru_no_lock_rep:
  assumes "lru_rep l h xs"
  shows "get_lru_no_lock l h = Some (Inr (find (free_node l h) (rev xs)))"
    and "get_leaf_lru_no_lock l h = Some (Inr (find (free_leaf l h) (rev xs)))"
  using get_prev_where_rep [of l h xs xs "tail_node l" "[]" False] assms
  by (simp_all add: get_lru_no_lock_def get_leaf_lru_no_lock_def get_prev_no_lock_def
      get_prev_leaf_no_lock_def free_node_ex free_leaf_ex dummy_free dummy_free(1) [unfolded not_less])

lemma get_lru_rep:
  assumes r: "lru_rep l h xs"
  shows "get_lru l h = Inr (if xs = [] then None else Some (last xs))"
proof (cases xs rule: rev_cases)
  case Nil
  then show ?thesis using r by (simp add: lru_rep_def get_lru_def)
next
  case (snoc ys y)
  then have "link l h y (tail_node l)"
    using r linked_append [of l h "head_node l # ys" y "[tail_node l]"] by (simp add: lru_rep_def)
  then show ?thesis using r snoc by (auto simp: get_lru_def lru_rep_def link_def)
qed

section \<open>Sequences of operations\<close>

datatype lru_op = Insert_Mru nat | Remove nat | Reset_Mru nat | Reset_Parents nat nat

fun lru_exec :: "lru_op \<Rightarrow> lru_list \<times> swa_heap \<Rightarrow> (lru_list \<times> swa_heap) run" where
  "lru_exec (Insert_Mru n) (l, h) = Some (insert_mru n l h)"
| "lru_exec (Remove n) (l, h) = Some (remove_node n l h)"
| "lru_exec (Reset_Mru n) (l, h) = Some (res_bind (reset_node_mru l n h) (\<lambda>h'. Inr (l, h')))"
| "lru_exec (Reset_Parents n r) (l, h) =
     run_bind (reset_node_and_parents_mru l n r h) (\<lambda>h'. Some (Inr (l, h')))"

fun lru_spec :: "bool \<Rightarrow> swa_heap \<Rightarrow> lru_op \<Rightarrow> nat list \<Rightarrow> nat list option" where
  \<comment> \<open>the same operations on a plain list, most recent first; the store is only read\<close>
  "lru_spec swa h (Insert_Mru n) xs = (if n \<in> set xs \<or> barred swa h n then None else Some (n # xs))"
| "lru_spec swa h (Remove n) xs = (if n \<notin> set xs \<or> barred swa h n then None else Some (remove1 n xs))"
| "lru_spec swa h (Reset_Mru n) xs = (if n \<notin> set xs \<or> barred swa h n then None else Some (n # remove1 n xs))"
| "lru_spec swa h (Reset_Parents n r) xs =
     Option.bind (ancestors h n r) (\<lambda>ps.
       let qs = filter (\<lambda>p. \<not> barred swa h p) ps
       in if set qs \<subseteq> set xs then Some (qs @ filter (\<lambda>x. x \<notin> set qs) xs) else None)"

fun insertable :: "lru_list \<Rightarrow> swa_heap \<Rightarrow> lru_op \<Rightarrow> bool" where
  "insertable l h (Insert_Mru n) \<longleftrightarrow> h n \<noteq> None \<and> n \<noteq> head_node l \<and> n \<noteq> tail_node l"
| "insertable l h _ \<longleftrightarrow> True"

fun exec_all :: "('o \<Rightarrow> 'c \<Rightarrow> 'c run) \<Rightarrow> 'o list \<Rightarrow> 'c \<Rightarrow> 'c run" where
  "exec_all f [] c = Some (Inr c)"
| "exec_all f (op # ops) c = run_bind (f op c) (exec_all f ops)"

fun spec_all :: "('o \<Rightarrow> 'a \<Rightarrow> 'a option) \<Rightarrow> 'o list \<Rightarrow> 'a \<Rightarrow> 'a option" where
  "spec_all g [] a = Some a"
| "spec_all g (op # ops) a = Option.bind (g op a) (spec_all g ops)"

locale op_refinement =
  fixes exec :: "'o \<Rightarrow> 'c \<Rightarrow> 'c run" and spec :: "'o \<Rightarrow> 'a \<Rightarrow> 'a option"
    and rel :: "'c \<Rightarrow> 'a \<Rightarrow> bool" and ok :: "'o \<Rightarrow> bool"
  assumes step_ok: "rel c a \<Longrightarrow> ok op \<Longrightarrow> spec op a = Some a' \<Longrightarrow> \<exists>c'. exec op c = Some (Inr c') \<and> rel c' a'"
    and step_err: "rel c a \<Longrightarrow> ok op \<Longrightarrow> spec op a = None \<Longrightarrow> exec op c \<noteq> Some (Inr c')"
begin

lemma all_ok:
  "rel c a \<Longrightarrow> list_all ok ops \<Longrightarrow> spec_all spec ops a = Some a'
     \<Longrightarrow> \<exists>c'. exec_all exec ops c = Some (Inr c') \<and> rel c' a'"
proof (induction ops arbitrary: c a)
  case (Cons op ops)
  then obtain a1 where a1: "spec op a = Some a1" "spec_all spec ops a1 = Some a'"
    by (auto split: bind_splits)
  then obtain c1 where "exec op c = Some (Inr c1)" "rel c1 a1"
    using step_ok Cons.prems by (metis list.pred_inject(2))
  then show ?case using Cons.IH [of c1 a1] a1 Cons.prems by simp
qed simp

lemma all_err:
  "rel c a \<Longrightarrow> list_all ok ops \<Longrightarrow> spec_all spec ops a = None \<Longrightarrow> exec_all exec ops c \<noteq> Some (Inr c')"
proof (induction ops arbitrary: c a)
  case (Cons op ops)
  show ?case
  proof (cases "spec op a")
    case None
    then show ?thesis using step_err Cons.prems by (auto simp: res_simps)
  next
    case (Some a1)
    then obtain c1 where "exec op c = Some (Inr c1)" "rel c1 a1"
      using step_ok Cons.prems by (metis list.pred_inject(2))
    then show ?thesis using Cons.IH [of c1 a1] Some Cons.prems by simp
  qed
qed simp

end

definition lru_rel :: "lru_list \<Rightarrow> swa_heap \<Rightarrow> lru_list \<times> swa_heap \<Rightarrow> nat list \<Rightarrow> bool" where
  "lru_rel l0 h0 s xs \<longleftrightarrow>
     fst s = l0\<lparr>lru_cache := lru_cache (fst s)\<rparr> \<and> lru_rep (fst s) (snd s) xs \<and> frame l0 h0 (snd s)"

lemma lru_relE:
  assumes "lru_rel l0 h0 s xs"
  obtains l h where "s = (l, h)" "lru_rep l h xs" "frame l0 h0 h" "frame l = frame l0" "lru_swa l = lru_swa l0"
    "head_node l = head_node l0" "tail_node l = tail_node l0" "l = l0\<lparr>lru_cache := lru_cache l\<rparr>"
proof -
  obtain l h where s: "s = (l, h)" by (cases s)
  have l: "l = l0\<lparr>lru_cache := lru_cache l\<rparr>" using assms s by (simp add: lru_rel_def)
  then have "frame l = frame l0" "lru_swa l = lru_swa l0" "head_node l = head_node l0" "tail_node l = tail_node l0"
    by (metis cache_upd_simps(2), metis lru_list.select_convs(1) lru_list.surjective lru_list.update_convs(4),
        metis lru_list.select_convs(2) lru_list.surjective lru_list.update_convs(4),
        metis lru_list.select_convs(3) lru_list.surjective lru_list.update_convs(4))
  then show ?thesis using that s l assms by (auto simp: lru_rel_def)
qed

lemma lru_relI:
  assumes "l = l0\<lparr>lru_cache := c\<rparr>" "lru_rep l h' xs" "frame l0 h0 h" "frame l0 h h'"
  shows "lru_rel l0 h0 (l, h') xs"
  using assms frame_trans by (auto simp: lru_rel_def)

lemma lru_step_ok:
  assumes r: "lru_rel l0 h0 s xs" and ok: "insertable l0 h0 op" and sp: "lru_spec (lru_swa l0) h0 op xs = Some ys"
  shows "\<exists>s'. lru_exec op s = Some (Inr s') \<and> lru_rel l0 h0 s' ys"
proof -
  obtain l h where s: "s = (l, h)" "lru_rep l h xs" "frame l0 h0 h" "frame l = frame l0" "lru_swa l = lru_swa l0"
      "head_node l = head_node l0" "tail_node l = tail_node l0" "l = l0\<lparr>lru_cache := lru_cache l\<rparr>"
    using r by (rule lru_relE)
  have b: "barred (lru_swa l) h = barred (lru_swa l0) h0" using barred_frame [OF s(3)] s(5) by auto
  note I = lru_relI [OF _ _ s(3)]
  show ?thesis
  proof (cases op)
    case (Insert_Mru n)
    obtain l' h' where x: "insert_mru n l h = Inr (l', h')" "lru_rep l' h' (n # xs)" "frame l h h'"
        "l' = l\<lparr>lru_cache := AList.update n n (lru_cache l)\<rparr>"
      by (rule insert_mru_rep [OF s(2), of n])
        (use ok sp s b Insert_Mru frame_dom [OF s(3)] in \<open>auto split: if_splits\<close>)
    have "l' = l0\<lparr>lru_cache := AList.update n n (lru_cache l)\<rparr>"
      using x(4) s(8) by (metis lru_list.surjective lru_list.update_convs(4))
    from I [OF this x(2)] show ?thesis using sp Insert_Mru s(1,4) x(1,3) by (auto split: if_splits)
  next
    case (Remove n)
    obtain l' h' where x: "remove_node n l h = Inr (l', h')" "lru_rep l' h' (remove1 n xs)" "frame l h h'"
        "l' = l\<lparr>lru_cache := AList.delete n (lru_cache l)\<rparr>"
      by (rule remove_node_rep [OF s(2), of n]) (use sp b Remove in \<open>auto split: if_splits\<close>)
    have "l' = l0\<lparr>lru_cache := AList.delete n (lru_cache l)\<rparr>"
      using x(4) s(8) by (metis lru_list.surjective lru_list.update_convs(4))
    from I [OF this x(2)] show ?thesis using sp Remove s(1,4) x(1,3) by (auto split: if_splits)
  next
    case (Reset_Mru n)
    obtain h' where "reset_node_mru l n h = Inr h'" "lru_rep l h' (n # remove1 n xs)" "frame l h h'"
      by (rule reset_node_mru_rep [OF s(2), of n]) (use sp b Reset_Mru in \<open>auto split: if_splits\<close>)
    then show ?thesis using sp Reset_Mru s(1,4) I [OF s(8)] by (auto split: if_splits)
  next
    case (Reset_Parents n q)
    then obtain ps where ps: "ancestors h0 n q = Some ps" using sp by (auto split: bind_splits)
    define qs where "qs = filter (\<lambda>p. \<not> barred (lru_swa l) h p) ps"
    have ys: "set qs \<subseteq> set xs" "ys = qs @ filter (\<lambda>x. x \<notin> set qs) xs"
      using sp ps Reset_Parents by (simp_all add: b qs_def Let_def split: if_splits)
    have "\<forall>p\<in>set ps. \<not> barred (lru_swa l) h p \<longrightarrow> p \<in> set xs" using ys(1) by (auto simp: qs_def)
    then obtain h' where "reset_parents_loop l (head_node l) n q h = Some (Inr h')" "lru_rep l h' ys" "frame l h h'"
      using reset_parents_loop_rep [of l h "[]" xs n q ps qs] s(2) ancestors_frame [OF ps s(3)]
        ancestors_distinct [OF ps] ys(2) by (auto simp: qs_def)
    then show ?thesis using Reset_Parents s(1,4) I [OF s(8)]
      by (auto simp: reset_node_and_parents_mru_def)
  qed
qed

lemma lru_step_err:
  assumes r: "lru_rel l0 h0 s xs" and sp: "lru_spec (lru_swa l0) h0 op xs = None"
  shows "lru_exec op s \<noteq> Some (Inr s')"
proof -
  obtain l h where s: "s = (l, h)" "lru_rep l h xs" "frame l0 h0 h" "frame l = frame l0" "lru_swa l = lru_swa l0"
      "head_node l = head_node l0" "tail_node l = tail_node l0" "l = l0\<lparr>lru_cache := lru_cache l\<rparr>"
    using r by (rule lru_relE)
  have b: "barred (lru_swa l) h = barred (lru_swa l0) h0" using barred_frame [OF s(3)] s(5) by auto
  show ?thesis
  proof (cases op)
    case (Insert_Mru n)
    then show ?thesis using sp s(1) insert_mru_fails [OF s(2), of n] by (auto simp: b split: if_splits)
  next
    case (Remove n)
    then show ?thesis using sp s(1) remove_node_fails [OF s(2), of n] by (auto simp: b split: if_splits)
  next
    case (Reset_Mru n)
    then show ?thesis
      using sp s(1) reset_node_mru_fails [OF s(2), of n] by (auto simp: b res_simps split: if_splits)
  next
    case (Reset_Parents n q)
    have "\<not> movable l h n q"
    proof
      assume "movable l h n q"
      then obtain ps where ps: "ancestors h n q = Some ps" "\<forall>p\<in>set ps. barred (lru_swa l) h p \<or> in_lru_cache l p"
        by (auto simp: movable_def)
      then have "ancestors h0 n q = Some ps" using ancestors_frame frame_sym [OF s(3)] by blast
      with sp Reset_Parents ps(2) show False
        by (auto simp: b in_lru_cache_rep [OF s(2)] Let_def split: if_splits)
    qed
    then show ?thesis
      using Reset_Parents s(1) reset_parents_loop_movable [of l "head_node l" n q h]
      by (auto simp: reset_node_and_parents_mru_def res_simps)
  qed
qed

interpretation lru: op_refinement lru_exec "lru_spec (lru_swa l0) h0" "lru_rel l0 h0" "insertable l0 h0" for l0 h0
  by unfold_locales (use lru_step_ok lru_step_err in blast)+

lemma lru_rep_frame_other:
  \<comment> \<open>the other list does not notice\<close>
  assumes "frame l h h'" "lru_swa m \<noteq> lru_swa l" "lru_rep m h zs"
  shows "lru_rep m h' zs"
proof -
  have p: "prv m (clear_links l x) = prv m x" "nxt m (clear_links l x) = nxt m x" for x
    using assms(2) by (auto simp: clear_links_def ptr_defs)
  have e: "map_option (\<lambda>x. (prv m x, nxt m x)) (h' n) = map_option (\<lambda>x. (prv m x, nxt m x)) (h n)" for n
    using frame_attr [OF assms(1), of "\<lambda>x. (prv m x, nxt m x)" n] by (simp add: p)
  have "link m h' x y" if "link m h x y" for x y
    using that e [of x] e [of y] by (auto simp: link_def)
  then have "linked m h' ys" if "linked m h ys" for ys
    using that by (induction m h ys rule: linked.induct) auto
  then show ?thesis using assms(3) by (simp add: lru_rep_def pred_dummy_frame [OF assms(1)])
qed

lemma free_frame:
  assumes "frame l h h'"
  shows "free_node l h' = free_node l h" "free_leaf l h' = free_leaf l h"
proof -
  have e: "map_option (\<lambda>x. (lru_lock_ref l x, swa_children x)) (h' n)
      = map_option (\<lambda>x. (lru_lock_ref l x, swa_children x)) (h n)" for n
    using frame_attr [OF assms, of "\<lambda>x. (lru_lock_ref l x, swa_children x)" n] by simp
  show "free_node l h' = free_node l h"
  proof
    fix n
    show "free_node l h' n = free_node l h n"
      using e [of n] by (cases "h n"; cases "h' n") (auto simp: free_node_def)
  qed
  show "free_leaf l h' = free_leaf l h"
  proof
    fix n
    show "free_leaf l h' n = free_leaf l h n"
      using e [of n] by (cases "h n"; cases "h' n") (auto simp: free_leaf_def)
  qed
qed

definition sample_store :: swa_store where
  \<comment> \<open>a root, a node below it and a leaf below that\<close>
  "sample_store = \<lparr>swa_nodes = [0 \<mapsto> new_swa_node 0,
       1 \<mapsto> (new_swa_node 0)\<lparr>swa_parent := Some 0, swa_children := [([7], 2)]\<rparr>,
       2 \<mapsto> (new_swa_node 0)\<lparr>swa_parent := Some 1\<rparr>],
     swa_counter = 3, swa_monotonic = (\<lambda>_. 0), swa_ticks = 0\<rparr>"

definition sample_lru :: "lru_list \<times> swa_store" where
  "sample_lru = lru_init False sample_store"

text \<open>
  C35: the recency lists refine plain lists. Any sequence of insertions, removals and moves to
  the front, whole paths to the root included, succeeds on the linked structure exactly when
  it succeeds on the list of members; then the structure represents the resulting list, the
  least recently used member, the least recently used unlocked one and the least recently
  used unlocked leaf are those of that list, and the tree and the other recency list are as
  they were.
\<close>

theorem lru_list_refines:
  assumes "lru_rep l h xs" "list_all (insertable l h) ops"
  shows "case spec_all (lru_spec (lru_swa l) h) ops xs of
      None \<Rightarrow> (\<forall>r. exec_all lru_exec ops (l, h) \<noteq> Some (Inr r))
    | Some ys \<Rightarrow> (\<exists>l' h'. exec_all lru_exec ops (l, h) = Some (Inr (l', h')) \<and> lru_rep l' h' ys
        \<and> get_lru l' h' = Inr (if ys = [] then None else Some (last ys))
        \<and> get_lru_no_lock l' h' = Some (Inr (find (free_node l h) (rev ys)))
        \<and> get_leaf_lru_no_lock l' h' = Some (Inr (find (free_leaf l h) (rev ys)))
        \<and> frame l h h' \<and> (\<forall>m zs. lru_swa m \<noteq> lru_swa l \<and> lru_rep m h zs \<longrightarrow> lru_rep m h' zs))"
proof -
  have r: "lru_rel l h (l, h) xs" using assms(1) by (simp add: lru_rel_def)
  show ?thesis
  proof (cases "spec_all (lru_spec (lru_swa l) h) ops xs")
    case None
    then show ?thesis using lru.all_err [OF r assms(2)] by simp
  next
    case (Some ys)
    obtain s' where s': "exec_all lru_exec ops (l, h) = Some (Inr s')" "lru_rel l h s' ys"
      using lru.all_ok [OF r assms(2) Some] by blast
    obtain l' h' where k: "s' = (l', h')" "lru_rep l' h' ys" "frame l h h'" "frame l' = frame l" "lru_swa l' = lru_swa l"
        "head_node l' = head_node l" "tail_node l' = tail_node l" "l' = l\<lparr>lru_cache := lru_cache l'\<rparr>"
      using s'(2) by (rule lru_relE)
    have lk: "lru_lock_ref l' = lru_lock_ref l" by (simp add: fun_eq_iff lru_lock_ref_def k(5))
    have f: "free_node l' = free_node l" "free_leaf l' = free_leaf l"
      by (intro ext, simp only: free_node_def free_leaf_def lk)+
    show ?thesis
      using s'(1) k(1-3) get_lru_rep [OF k(2)] get_lru_no_lock_rep [OF k(2)] lru_rep_frame_other [OF k(3)]
      by (simp add: Some f free_frame [OF k(3)])
  qed
qed

lemma sample_lru_facts:
  "lru_rep (fst sample_lru) (swa_nodes (snd sample_lru)) []" "lru_swa (fst sample_lru) = False"
  "head_node (fst sample_lru) = 3" "tail_node (fst sample_lru) = 4"
  "m < 3 \<Longrightarrow> swa_nodes (snd sample_lru) m = swa_nodes sample_store m"
  using lru_init_rep [of False sample_store "fst sample_lru" "snd sample_lru"]
  by (auto simp: sample_lru_def sample_store_def lru_init_def create_swa_node_def Let_def)

lemma sample_ancestors: "ancestors (swa_nodes (snd sample_lru)) 2 0 = Some [2, 1]"
  by (simp add: ancestors_Cons ancestors_Nil sample_lru_facts) (simp add: sample_store_def)

theorem lru_list_refines_witness:
  "\<exists>l' h'. exec_all lru_exec [Insert_Mru 1, Insert_Mru 2, Reset_Mru 1, Reset_Parents 2 0]
       (fst sample_lru, swa_nodes (snd sample_lru)) = Some (Inr (l', h'))
     \<and> lru_rep l' h' [2, 1] \<and> get_lru l' h' = Inr (Some 1)
     \<and> get_leaf_lru_no_lock l' h' = Some (Inr (Some 2))"
proof -
  let ?h = "swa_nodes (snd sample_lru)"
  have ok: "list_all (insertable (fst sample_lru) ?h) [Insert_Mru 1, Insert_Mru 2, Reset_Mru 1, Reset_Parents 2 0]"
    by (simp add: sample_lru_facts) (simp add: sample_store_def)
  have "spec_all (lru_spec (lru_swa (fst sample_lru)) ?h)
      [Insert_Mru 1, Insert_Mru 2, Reset_Mru 1, Reset_Parents 2 0] [] = Some [2, 1]"
    by (simp add: sample_lru_facts(2) sample_ancestors barred_def)
  moreover have "find (free_leaf (fst sample_lru) ?h) (rev [2, 1]) = Some 2"
    by (simp add: free_leaf_def sample_lru_facts(5) lru_lock_ref_def sample_lru_facts(2))
      (simp add: sample_store_def new_swa_node_def lru_lock_ref_def)
  ultimately show ?thesis
    using lru_list_refines [OF sample_lru_facts(1) ok] by auto
qed

end
