(* ===== verification/SWA_Locks.thy ===== *)
theory SWA_Locks
  imports SWA_Cache Lru_Correct
begin

text \<open>
  Locking in the hybrid cache. A path of the tree is given by \<^const>\<open>ancestors\<close>; on it the two
  loops of \<^verbatim>\<open>inc_lock_ref\<close> and \<^verbatim>\<open>dec_lock_ref\<close> are recursions over a list of nodes. The properties
  show exactly when a lock is granted, that releasing a lock with the number that
  \<^verbatim>\<open>inc_lock_ref\<close> returned undoes it although the two walks decide where the window ends in
  different ways, and that a prefix match can return a node that cannot be locked.
\<close>

section \<open>The loops over a path\<close>

fun inc_path :: "nat list \<Rightarrow> nat \<Rightarrow> int option \<Rightarrow> swa_cache \<Rightarrow> (int option \<times> swa_cache) res" where
  "inc_path [] sz u c = Inr (u, c)"
| "inc_path (p # ps) sz u c = res_bind (inc_lock_node p sz u c) (\<lambda>r. inc_path ps (fst r) (fst (snd r)) (snd (snd r)))"

fun dec_path :: "nat list \<Rightarrow> int option \<Rightarrow> bool \<Rightarrow> swa_cache \<Rightarrow> swa_cache res" where
  "dec_path [] uuid b c = Inr c"
| "dec_path (p # ps) uuid b c = res_bind (dec_lock_node p uuid b c) (\<lambda>r. dec_path ps uuid (fst r) (snd r))"

definition put :: "nat \<Rightarrow> swa_node \<Rightarrow> int \<Rightarrow> int \<Rightarrow> swa_cache \<Rightarrow> swa_cache" where
  \<comment> \<open>a node's new content, and tokens that move from protected to evictable\<close>
  "put n x a b c = c\<lparr>swa_nodes := (swa_nodes c)(n \<mapsto> x),
     full_evictable_sz := full_evictable_sz c + a, full_protected_sz := full_protected_sz c - a,
     swa_evictable_sz := swa_evictable_sz c + b, swa_protected_sz := swa_protected_sz c - b\<rparr>"

definition vlen :: "swa_node \<Rightarrow> int" where
  "vlen x = int (length (swa_value x))"

lemma put_simps [simp]:
  "swa_nodes (put n x a b c) = (swa_nodes c)(n \<mapsto> x)" "sw_root_node (put n x a b c) = sw_root_node c"
  "sliding_window_size (put n x a b c) = sliding_window_size c"
  "swa_uuid_counter (put n x a b c) = swa_uuid_counter c" "sw_disable (put n x a b c) = sw_disable c"
  by (simp_all add: put_def)

lemma put_put:
  "put n y a' b' (put n x a b c) = put n y (a + a') (b + b') c"
  "m \<noteq> n \<Longrightarrow> put m y a' b' (put n x a b c) = put n x a b (put m y a' b' c)"
  by (simp_all add: put_def fun_upd_twist algebra_simps)

lemma put_same: "swa_nodes c n = Some x \<Longrightarrow> put n x 0 0 c = c"
  by (simp add: put_def fun_upd_idem)

lemma node_at_Some [simp]: "swa_nodes c n = Some x \<Longrightarrow> node_at n c = Inr x"
  by (simp add: node_at_def)

lemma set_node_put: "swa_nodes c n = Some x \<Longrightarrow> set_node n f c = put n (f x) 0 0 c"
  by (simp add: set_node_def put_def upd_def)

lemma full_lock_put:
  assumes "swa_nodes c n = Some y"
  shows "inc_full_lock n x c
      = put n (y\<lparr>full_lock_ref := full_lock_ref y + 1\<rparr>) (if full_lock_ref x = 0 then - vlen x else 0) 0 c"
    and "dec_full_lock n x c
      = put n (y\<lparr>full_lock_ref := full_lock_ref y - 1\<rparr>) (if full_lock_ref x = 1 then vlen x else 0) 0 c"
  using assms by (simp_all add: inc_full_lock_def dec_full_lock_def set_node_def put_def upd_def vlen_def)

lemma swa_lock_put:
  assumes "swa_nodes c n = Some y"
  shows "inc_swa_lock n x c
      = put n (y\<lparr>swa_lock_ref := swa_lock_ref y + 1\<rparr>) 0 (if swa_lock_ref x = 0 then - vlen x else 0) c"
    and "dec_swa_lock n x c
      = put n (y\<lparr>swa_lock_ref := swa_lock_ref y - 1\<rparr>) 0 (if swa_lock_ref x = 1 then vlen x else 0) c"
  using assms by (simp_all add: inc_swa_lock_def dec_swa_lock_def set_node_def put_def upd_def vlen_def)

definition bump :: "int \<Rightarrow> swa_cache \<Rightarrow> swa_cache" where
  "bump v c = c\<lparr>swa_uuid_counter := v\<rparr>"

lemma uuid_idem:
  "swa_uuid x = Some v \<Longrightarrow> x\<lparr>full_lock_ref := i, swa_lock_ref := j, swa_uuid := Some v\<rparr>
     = x\<lparr>full_lock_ref := i, swa_lock_ref := j\<rparr>"
  by (cases x) simp

lemma inc_lock_node_put:
  assumes x: "swa_nodes c n = Some x" and "full_lock_ref x \<ge> 0"
  shows "inc_lock_node n sz u c =
    (if sz < sliding_window_size c then
       if swa_tombstone x then Inl AssertionError
       else if sz + length (swa_value x) \<ge> sliding_window_size c then
         (let v = (case swa_uuid x of Some v \<Rightarrow> v | None \<Rightarrow> swa_uuid_counter c + 1)
          in Inr (sz + length (swa_value x), Some v,
               put n (x\<lparr>full_lock_ref := full_lock_ref x + 1, swa_lock_ref := swa_lock_ref x + 1, swa_uuid := Some v\<rparr>)
                 (if full_lock_ref x = 0 then - vlen x else 0) (if swa_lock_ref x = 0 then - vlen x else 0)
                 (bump (if swa_uuid x = None then swa_uuid_counter c + 1 else swa_uuid_counter c) c)))
       else Inr (sz + length (swa_value x), u,
              put n (x\<lparr>full_lock_ref := full_lock_ref x + 1, swa_lock_ref := swa_lock_ref x + 1\<rparr>)
                (if full_lock_ref x = 0 then - vlen x else 0) (if swa_lock_ref x = 0 then - vlen x else 0) c)
     else Inr (sz, u, put n (x\<lparr>full_lock_ref := full_lock_ref x + 1\<rparr>) (if full_lock_ref x = 0 then - vlen x else 0) 0 c))"
  using assms
  by (simp add: inc_lock_node_def full_lock_put(1) swa_lock_put(1) mark_uuid_def gen_swa_uuid_def put_put
      set_node_def bump_def Let_def split: option.split) (auto simp: put_def upd_def uuid_idem)

lemma dec_lock_node_put:
  assumes x: "swa_nodes c n = Some x"
  shows "dec_lock_node n uuid b c =
    (if \<not> full_lock_ref x > 0 then Inl AssertionError
     else if b then
       if swa_tombstone x \<or> \<not> swa_lock_ref x > 0 then Inl AssertionError
       else Inr (\<not> uuid_hit uuid x,
         put n (x\<lparr>full_lock_ref := full_lock_ref x - 1, swa_lock_ref := swa_lock_ref x - 1\<rparr>)
           (if full_lock_ref x = 1 then vlen x else 0) (if swa_lock_ref x = 1 then vlen x else 0) c)
     else Inr (False, put n (x\<lparr>full_lock_ref := full_lock_ref x - 1\<rparr>) (if full_lock_ref x = 1 then vlen x else 0) 0 c))"
  using assms by (auto simp: dec_lock_node_def full_lock_put(2) swa_lock_put(2) put_put py_assert_def)

lemma ancestors_node:
  "ancestors h n r = Some ps \<Longrightarrow> p \<in> set ps \<Longrightarrow> \<exists>x. h p = Some x"
  using ancestors_suffix [of h n r ps p] by (auto simp: ancestors_Cons)

lemma inc_lock_node_parents:
  assumes "inc_lock_node n sz u c = Inr r"
  shows "map_option swa_parent (swa_nodes (snd (snd r)) m) = map_option swa_parent (swa_nodes c m)"
    and "sw_root_node (snd (snd r)) = sw_root_node c" "swa_nodes c n \<noteq> None"
    and "sliding_window_size (snd (snd r)) = sliding_window_size c"
    and "m \<noteq> n \<Longrightarrow> swa_nodes (snd (snd r)) m = swa_nodes c m"
proof -
  obtain x where x: "swa_nodes c n = Some x" "full_lock_ref x \<ge> 0"
    using assms by (auto simp: inc_lock_node_def node_at_def res_simps)
  note e = inc_lock_node_put [OF x, of sz u]
  show "map_option swa_parent (swa_nodes (snd (snd r)) m) = map_option swa_parent (swa_nodes c m)"
    "sw_root_node (snd (snd r)) = sw_root_node c" "swa_nodes c n \<noteq> None"
    "sliding_window_size (snd (snd r)) = sliding_window_size c"
    "m \<noteq> n \<Longrightarrow> swa_nodes (snd (snd r)) m = swa_nodes c m"
    using assms x unfolding e by (auto simp: Let_def bump_def split: if_splits)
qed

lemma dec_lock_node_parents:
  assumes "dec_lock_node n uuid b c = Inr r"
  shows "map_option swa_parent (swa_nodes (snd r) m) = map_option swa_parent (swa_nodes c m)"
    and "sw_root_node (snd r) = sw_root_node c" "swa_nodes c n \<noteq> None"
proof -
  obtain x where x: "swa_nodes c n = Some x"
    using assms by (auto simp: dec_lock_node_def node_at_def res_simps)
  show "map_option swa_parent (swa_nodes (snd r) m) = map_option swa_parent (swa_nodes c m)"
    "sw_root_node (snd r) = sw_root_node c" "swa_nodes c n \<noteq> None"
    using assms x by (auto simp: dec_lock_node_put [OF x] split: if_splits)
qed

lemma ancestors_parents:
  assumes "ancestors h n r = Some ps" "\<And>m. map_option swa_parent (h' m) = map_option swa_parent (h m)"
  shows "ancestors h' n r = Some ps"
  using assms(1)
proof (induction ps arbitrary: n)
  case (Cons m ps)
  then obtain x p where x: "m = n" "n \<noteq> r" "h n = Some x" "swa_parent x = Some p" "ancestors h p r = Some ps"
    by (auto simp: ancestors_Cons)
  obtain x' where "h' n = Some x'" "swa_parent x' = Some p" using assms(2) [of n] x(3,4) by (cases "h' n") auto
  then show ?case using x Cons.IH [OF x(5)] by (auto simp: ancestors_Cons)
qed (simp add: ancestors_Nil)

lemma inc_swa_loop_path:
  "ancestors (swa_nodes c) n (sw_root_node c) = Some ps \<Longrightarrow> inc_swa_loop n sz u c = Some (inc_path ps sz u c)"
proof (induction ps arbitrary: n sz u c)
  case Nil
  then show ?case by (subst inc_swa_loop.simps) (simp add: ancestors_Nil)
next
  case (Cons m ps)
  then obtain x p where x: "m = n" "n \<noteq> sw_root_node c" "swa_nodes c n = Some x" "swa_parent x = Some p"
      "ancestors (swa_nodes c) p (sw_root_node c) = Some ps"
    by (auto simp: ancestors_Cons)
  show ?case
  proof (cases "inc_lock_node n sz u c")
    case (Inl e)
    then show ?thesis using x by (subst inc_swa_loop.simps) simp
  next
    case (Inr r)
    note f = inc_lock_node_parents [OF Inr]
    obtain x' where "swa_nodes (snd (snd r)) n = Some x'" "swa_parent x' = Some p"
      using f(1) [of n] x(3,4) by auto
    then show ?thesis
      using Cons.IH [of "snd (snd r)" p "fst r" "fst (snd r)"] ancestors_parents [OF x(5) f(1)] f(2) x(1,2) Inr
      by (subst inc_swa_loop.simps) simp
  qed
qed

lemma dec_swa_loop_path:
  "ancestors (swa_nodes c) n (sw_root_node c) = Some ps \<Longrightarrow> dec_swa_loop n uuid b c = Some (dec_path ps uuid b c)"
proof (induction ps arbitrary: n b c)
  case Nil
  then show ?case by (subst dec_swa_loop.simps) (simp add: ancestors_Nil)
next
  case (Cons m ps)
  then obtain x p where x: "m = n" "n \<noteq> sw_root_node c" "swa_nodes c n = Some x" "swa_parent x = Some p"
      "ancestors (swa_nodes c) p (sw_root_node c) = Some ps"
    by (auto simp: ancestors_Cons)
  show ?case
  proof (cases "dec_lock_node n uuid b c")
    case (Inl e)
    then show ?thesis using x by (subst dec_swa_loop.simps) simp
  next
    case (Inr r)
    note f = dec_lock_node_parents [OF Inr]
    obtain x' where "swa_nodes (snd r) n = Some x'" "swa_parent x' = Some p"
      using f(1) [of n] x(3,4) by auto
    then show ?thesis
      using Cons.IH [of "snd r" p "fst r"] ancestors_parents [OF x(5) f(1)] f(2) x(1,2) Inr
      by (subst dec_swa_loop.simps) simp
  qed
qed

section \<open>When a lock is granted\<close>

definition attr :: "(swa_node \<Rightarrow> 'b) \<Rightarrow> 'b \<Rightarrow> swa_cache \<Rightarrow> nat \<Rightarrow> 'b" where
  "attr f d c n = (case swa_nodes c n of None \<Rightarrow> d | Some x \<Rightarrow> f x)"

fun in_window :: "swa_cache \<Rightarrow> nat \<Rightarrow> nat list \<Rightarrow> nat list" where
  \<comment> \<open>the nodes at the end of a path that reach into the sliding window\<close>
  "in_window c sz [] = []"
| "in_window c sz (p # ps) =
     (if sz < sliding_window_size c then p # in_window c (sz + attr (length \<circ> swa_value) 0 c p) ps else [])"

definition locks_ok :: "swa_cache \<Rightarrow> nat list \<Rightarrow> bool" where
  "locks_ok c ps = list_all (\<lambda>p. attr (\<lambda>x. full_lock_ref x \<ge> 0 \<and> swa_lock_ref x \<ge> 0) False c p) ps"

lemma locks_ok_Cons: "locks_ok c (p # ps) \<longleftrightarrow>
   (\<exists>x. swa_nodes c p = Some x \<and> full_lock_ref x \<ge> 0 \<and> swa_lock_ref x \<ge> 0) \<and> locks_ok c ps"
  by (auto simp: locks_ok_def attr_def split: option.splits)

lemma attr_cong: "swa_nodes c' p = swa_nodes c p \<Longrightarrow> attr f d c' p = attr f d c p"
  by (simp add: attr_def)

lemma path_cong:
  assumes "\<And>p. p \<in> set ps \<Longrightarrow> swa_nodes c' p = swa_nodes c p"
  shows "locks_ok c' ps = locks_ok c ps" "list_ex (attr f d c') ps = list_ex (attr f d c) ps"
    and "sliding_window_size c' = sliding_window_size c \<Longrightarrow> in_window c' sz ps = in_window c sz ps"
proof -
  show "locks_ok c' ps = locks_ok c ps" "list_ex (attr f d c') ps = list_ex (attr f d c) ps"
    using assms by (auto simp: locks_ok_def list_all_iff list_ex_iff attr_def)
  show "in_window c' sz ps = in_window c sz ps" if "sliding_window_size c' = sliding_window_size c"
    using assms
  proof (induction ps arbitrary: sz)
    case (Cons p ps)
    have "attr (length \<circ> swa_value) 0 c' p = attr (length \<circ> swa_value) 0 c p"
      using Cons.prems by (intro attr_cong) simp
    then show ?case using Cons.IH Cons.prems that by simp
  qed simp
qed

lemma in_window_subset: "set (in_window c sz ps) \<subseteq> set ps"
  by (induction ps arbitrary: sz) auto

lemma inc_path_result:
  assumes "distinct ps" "locks_ok c ps"
  shows "if list_ex (attr swa_tombstone False c) (in_window c sz ps)
         then inc_path ps sz u c = Inl AssertionError else (\<exists>r. inc_path ps sz u c = Inr r)"
  using assms
proof (induction ps arbitrary: sz u c)
  case (Cons p ps)
  obtain x where x: "swa_nodes c p = Some x" "full_lock_ref x \<ge> 0"
    using Cons.prems(2) by (auto simp: locks_ok_Cons)
  show ?case
  proof (cases "inc_lock_node p sz u c")
    case (Inl e)
    then have "sz < sliding_window_size c" "swa_tombstone x" "e = AssertionError"
      by (auto simp: inc_lock_node_put [OF x] Let_def split: if_splits)
    then show ?thesis using Inl x(1) by (simp add: attr_def)
  next
    case (Inr r)
    note f = inc_lock_node_parents [OF Inr]
    have same: "\<And>q. q \<in> set ps \<Longrightarrow> swa_nodes (snd (snd r)) q = swa_nodes c q"
      using f(5) Cons.prems(1) by (metis distinct.simps(2))
    have same': "\<And>q. q \<in> set (in_window c (fst r) ps) \<Longrightarrow> swa_nodes (snd (snd r)) q = swa_nodes c q"
      using same in_window_subset by blast
    have "locks_ok (snd (snd r)) ps" using path_cong(1) [OF same] Cons.prems(2) by (simp add: locks_ok_Cons)
    note IH0 = Cons.IH [OF _ this, of "fst r" "fst (snd r)"]
    have "in_window (snd (snd r)) (fst r) ps = in_window c (fst r) ps"
      by (rule path_cong(3) [OF same f(4)])
    moreover have "list_ex (attr swa_tombstone False (snd (snd r))) (in_window c (fst r) ps)
        = list_ex (attr swa_tombstone False c) (in_window c (fst r) ps)"
      by (rule path_cong(2) [OF same'])
    ultimately have IH: "if list_ex (attr swa_tombstone False c) (in_window c (fst r) ps)
        then inc_path ps (fst r) (fst (snd r)) (snd (snd r)) = Inl AssertionError
        else (\<exists>r'. inc_path ps (fst r) (fst (snd r)) (snd (snd r)) = Inr r')"
      using IH0 Cons.prems(1) by simp
    have w: "in_window c sz (p # ps) = (if sz < sliding_window_size c then p # in_window c (fst r) ps else [])"
      "sz < sliding_window_size c \<Longrightarrow> \<not> attr swa_tombstone False c p"
      "\<not> sz < sliding_window_size c \<Longrightarrow> in_window c (fst r) ps = []"
      using Inr x(1) by (cases ps; auto simp: inc_lock_node_put [OF x] Let_def attr_def split: if_splits)+
    have "list_ex (attr swa_tombstone False c) (in_window c sz (p # ps))
        = list_ex (attr swa_tombstone False c) (in_window c (fst r) ps)"
      unfolding w(1) using w(2,3) by auto
    then show ?thesis using IH Inr by (simp only: inc_path.simps res_bind_simps)
  qed
qed simp

section \<open>Releasing what was locked\<close>

definition forget_uuid :: "swa_cache \<Rightarrow> swa_cache" where
  \<comment> \<open>the cache without the numbers that mark window boundaries\<close>
  "forget_uuid c = c\<lparr>swa_uuid_counter := 0,
     swa_nodes := (\<lambda>n. map_option (\<lambda>x. x\<lparr>swa_uuid := None\<rparr>) (swa_nodes c n))\<rparr>"

definition path_uuids :: "swa_cache \<Rightarrow> nat list \<Rightarrow> int list" where
  "path_uuids c ps = List.map_filter (attr swa_uuid None c) ps"

definition uuids_ok :: "swa_cache \<Rightarrow> nat list \<Rightarrow> bool" where
  \<comment> \<open>different boundaries have different numbers, all given out by the counter\<close>
  "uuids_ok c ps \<longleftrightarrow> swa_uuid_counter c > 0 \<and> distinct (path_uuids c ps)
     \<and> list_all (\<lambda>u. 0 < u \<and> u \<le> swa_uuid_counter c) (path_uuids c ps)"

lemma path_uuids_Cons:
  "path_uuids c (p # ps) = (case attr swa_uuid None c p of None \<Rightarrow> path_uuids c ps | Some u \<Rightarrow> u # path_uuids c ps)"
  by (simp add: path_uuids_def map_filter_simps split: option.split)

lemma path_uuids_cong:
  "(\<And>p. p \<in> set ps \<Longrightarrow> swa_nodes c' p = swa_nodes c p) \<Longrightarrow> path_uuids c' ps = path_uuids c ps"
proof (induction ps)
  case (Cons p ps)
  have "attr swa_uuid None c' p = attr swa_uuid None c p" using Cons.prems by (intro attr_cong) simp
  then show ?case using Cons by (simp add: path_uuids_Cons split: option.split)
qed (simp add: path_uuids_def map_filter_simps)

lemma forget_put:
  assumes "forget_uuid c = forget_uuid d" "x\<lparr>swa_uuid := None\<rparr> = y\<lparr>swa_uuid := None\<rparr>"
  shows "forget_uuid (put n x a b c) = forget_uuid (put n y a b d)"
proof -
  have e: "forget_uuid (put n x a b c) = put n (x\<lparr>swa_uuid := None\<rparr>) a b (forget_uuid c)" for x c
    by (simp add: forget_uuid_def put_def fun_eq_iff)
  show ?thesis by (simp add: e assms)
qed

lemma forget_bump [simp]: "forget_uuid (bump v c) = forget_uuid c"
  by (simp add: forget_uuid_def bump_def)

lemma bump_simps [simp]:
  "swa_nodes (bump v c) = swa_nodes c" "sliding_window_size (bump v c) = sliding_window_size c"
  "swa_uuid_counter (bump v c) = v" "sw_root_node (bump v c) = sw_root_node c"
  by (simp_all add: bump_def)

lemma dec_lock_node_other:
  assumes "p \<noteq> n"
  shows "dec_lock_node p uuid b (put n x d e c) = map_sum id (map_prod id (put n x d e)) (dec_lock_node p uuid b c)"
proof (cases "swa_nodes c p")
  case None
  then show ?thesis using assms by (simp add: dec_lock_node_def node_at_def load_def)
next
  case (Some y)
  then have "swa_nodes (put n x d e c) p = Some y" using assms by simp
  from dec_lock_node_put [OF this] dec_lock_node_put [OF Some] show ?thesis
    using assms by (simp add: put_put(2))
qed

lemma dec_path_other:
  "n \<notin> set ps \<Longrightarrow> dec_path ps uuid b (put n x d e c) = map_sum id (put n x d e) (dec_path ps uuid b c)"
proof (induction ps arbitrary: b c)
  case (Cons p ps)
  then show ?case
    by (cases "dec_lock_node p uuid b c") (auto simp: dec_lock_node_other)
qed simp

lemma inc_path_keeps:
  "inc_path ps sz u c = Inr (uf, c') \<Longrightarrow> n \<notin> set ps \<Longrightarrow> swa_nodes c' n = swa_nodes c n"
proof (induction ps arbitrary: sz u c)
  case (Cons p ps)
  then obtain r where r: "inc_lock_node p sz u c = Inr r" "inc_path ps (fst r) (fst (snd r)) (snd (snd r)) = Inr (uf, c')"
    by (auto simp: res_simps)
  then have "swa_nodes c' n = swa_nodes (snd (snd r)) n" using Cons by simp
  also have "\<dots> = swa_nodes c n" using inc_lock_node_parents(5) [OF r(1), of n] Cons.prems(2) by simp
  finally show ?case .
qed simp

lemma inc_path_full: "inc_path ps sz u c = Inr (uf, c') \<Longrightarrow> sz \<ge> sliding_window_size c \<Longrightarrow> uf = u"
proof (induction ps arbitrary: c)
  case (Cons p ps)
  then obtain r where r: "inc_lock_node p sz u c = Inr r" "inc_path ps (fst r) (fst (snd r)) (snd (snd r)) = Inr (uf, c')"
    by (auto simp: res_simps)
  then have "fst r = sz" "fst (snd r) = u"
    using Cons.prems(2) by (auto simp: inc_lock_node_def res_simps Let_def)
  then show ?case using Cons r inc_lock_node_parents(4) [OF r(1)] by simp
qed simp

lemma inc_path_uuid:
  assumes "inc_path ps sz u c = Inr (uf, c')" "distinct ps"
  shows "uf = u \<or> (\<exists>v. uf = Some v \<and> (v \<in> set (path_uuids c ps) \<or> v > swa_uuid_counter c))"
  using assms
proof (induction ps arbitrary: sz u c)
  case (Cons p ps)
  then obtain r where r: "inc_lock_node p sz u c = Inr r" "inc_path ps (fst r) (fst (snd r)) (snd (snd r)) = Inr (uf, c')"
    by (auto simp: res_simps)
  obtain x where x: "swa_nodes c p = Some x" "full_lock_ref x \<ge> 0"
    using r(1) by (auto simp: inc_lock_node_def node_at_def load_def res_simps)
  have same: "\<And>q. q \<in> set ps \<Longrightarrow> swa_nodes (snd (snd r)) q = swa_nodes c q"
    using inc_lock_node_parents(5) [OF r(1)] Cons.prems(2) by (metis distinct.simps(2))
  have cnt: "swa_uuid_counter (snd (snd r)) \<ge> swa_uuid_counter c"
    "fst (snd r) = u \<or> (\<exists>v. fst (snd r) = Some v \<and> (swa_uuid x = Some v \<or> v > swa_uuid_counter c))"
    using r(1) by (auto simp: inc_lock_node_put [OF x] Let_def split: if_splits option.splits)
  from Cons.IH [OF r(2)] Cons.prems(2) cnt x(1) show ?case
    by (auto simp: path_uuids_cong [OF same] path_uuids_Cons attr_def split: option.splits)
qed simp

definition undoes :: "nat list \<Rightarrow> nat \<Rightarrow> int option \<Rightarrow> swa_cache \<Rightarrow> swa_cache \<Rightarrow> bool" where
  "undoes ps sz uf c c' \<longleftrightarrow>
     (\<exists>c''. dec_path ps uf (sz < sliding_window_size c) c' = Inr c'' \<and> forget_uuid c'' = forget_uuid c)"

lemma undoes_step:
  assumes dec: "dec_lock_node n uf b c' = Inr (b', put n x' d e c')" and n: "n \<notin> set ps"
    and tl: "undoes ps sz' uf c1 c'" and b': "b' = (sz' < sliding_window_size c1)"
    and b: "b = (sz < sliding_window_size c)" and eq: "forget_uuid (put n x' d e c1) = forget_uuid c"
  shows "undoes (n # ps) sz uf c c'"
proof -
  obtain c3 where c3: "dec_path ps uf b' c' = Inr c3" "forget_uuid c3 = forget_uuid c1"
    using tl b' by (auto simp: undoes_def)
  then have "dec_path (n # ps) uf b c' = Inr (put n x' d e c3)"
    using dec n by (simp add: dec_path_other)
  moreover have "forget_uuid (put n x' d e c3) = forget_uuid c"
    using forget_put [OF c3(2) refl, of n x' d e] eq by simp
  ultimately show ?thesis using b by (auto simp: undoes_def)
qed

lemma unlock_record:
  "x\<lparr>full_lock_ref := full_lock_ref x\<rparr> = x"
  "x\<lparr>full_lock_ref := full_lock_ref x, swa_lock_ref := swa_lock_ref x\<rparr> = x"
  "x\<lparr>full_lock_ref := i, swa_lock_ref := j, swa_uuid := v, full_lock_ref := full_lock_ref x,
     swa_lock_ref := swa_lock_ref x\<rparr> = x\<lparr>swa_uuid := v\<rparr>"
  by (cases x; simp)+

abbreviation freed_full :: "swa_node \<Rightarrow> int" where
  "freed_full x \<equiv> if full_lock_ref x = 0 then vlen x else 0"

abbreviation freed_swa :: "swa_node \<Rightarrow> int" where
  "freed_swa x \<equiv> if swa_lock_ref x = 0 then vlen x else 0"

lemma undo_outside:
  assumes x: "swa_nodes c n = Some x" "full_lock_ref x \<ge> 0" and n: "n \<notin> set ps"
    and c1: "c1 = put n (x\<lparr>full_lock_ref := full_lock_ref x + 1\<rparr>) (- freed_full x) 0 c"
    and c': "swa_nodes c' n = swa_nodes c1 n" and tl: "undoes ps sz uf c1 c'"
    and w: "\<not> sz < sliding_window_size c"
  shows "undoes (n # ps) sz uf c c'"
proof -
  have y: "swa_nodes c' n = Some (x\<lparr>full_lock_ref := full_lock_ref x + 1\<rparr>)" using c' c1 by simp
  have dec: "dec_lock_node n uf False c' = Inr (False, put n x (freed_full x) 0 c')"
    using x by (simp add: dec_lock_node_put [OF y] unlock_record vlen_def)
  have "put n x (freed_full x) 0 c1 = c" using x(1) by (simp add: c1 put_put put_same)
  then show ?thesis using undoes_step [OF dec n tl] w by (simp add: c1)
qed

lemma undo_inside:
  assumes x: "swa_nodes c n = Some x" "full_lock_ref x \<ge> 0" "swa_lock_ref x \<ge> 0" "\<not> swa_tombstone x" and n: "n \<notin> set ps"
    and c1: "c1 = put n (x\<lparr>full_lock_ref := full_lock_ref x + 1, swa_lock_ref := swa_lock_ref x + 1\<rparr>)
       (- freed_full x) (- freed_swa x) c"
    and c': "swa_nodes c' n = swa_nodes c1 n" and tl: "undoes ps sz' uf c1 c'"
    and w: "sz < sliding_window_size c" "sz' < sliding_window_size c" and hit: "\<not> uuid_hit uf x"
  shows "undoes (n # ps) sz uf c c'"
proof -
  have y: "swa_nodes c' n = Some (x\<lparr>full_lock_ref := full_lock_ref x + 1, swa_lock_ref := swa_lock_ref x + 1\<rparr>)"
    using c' c1 by simp
  have dec: "dec_lock_node n uf True c' = Inr (True, put n x (freed_full x) (freed_swa x) c')"
    using x hit by (simp add: dec_lock_node_put [OF y] unlock_record vlen_def uuid_hit_def split: option.splits)
  have "put n x (freed_full x) (freed_swa x) c1 = c" using x(1) by (simp add: c1 put_put put_same)
  then show ?thesis using undoes_step [OF dec n tl] w by (simp add: c1)
qed

lemma undo_boundary:
  assumes x: "swa_nodes c n = Some x" "full_lock_ref x \<ge> 0" "swa_lock_ref x \<ge> 0" "\<not> swa_tombstone x" and n: "n \<notin> set ps"
    and c1: "c1 = put n (x\<lparr>full_lock_ref := full_lock_ref x + 1, swa_lock_ref := swa_lock_ref x + 1, swa_uuid := Some v\<rparr>)
       (- freed_full x) (- freed_swa x) (bump k c)"
    and c': "swa_nodes c' n = swa_nodes c1 n" and tl: "undoes ps sz' (Some v) c1 c'"
    and w: "sz < sliding_window_size c" "\<not> sz' < sliding_window_size c" and v: "v \<noteq> 0"
  shows "undoes (n # ps) sz (Some v) c c'"
proof -
  have y: "swa_nodes c' n = Some (x\<lparr>full_lock_ref := full_lock_ref x + 1, swa_lock_ref := swa_lock_ref x + 1,
        swa_uuid := Some v\<rparr>)"
    using c' c1 by simp
  have dec: "dec_lock_node n (Some v) True c'
      = Inr (False, put n (x\<lparr>swa_uuid := Some v\<rparr>) (freed_full x) (freed_swa x) c')"
    using x v by (simp add: dec_lock_node_put [OF y] unlock_record vlen_def uuid_hit_def)
  have "forget_uuid (put n (x\<lparr>swa_uuid := Some v\<rparr>) 0 0 (bump k c)) = forget_uuid (put n x 0 0 c)"
    by (rule forget_put) simp_all
  then have "forget_uuid (put n (x\<lparr>swa_uuid := Some v\<rparr>) (freed_full x) (freed_swa x) c1) = forget_uuid c"
    using x(1) by (simp add: c1 put_put put_same)
  then show ?thesis using undoes_step [OF dec n tl] w by (simp add: c1)
qed

lemma inc_dec_path:
  assumes "inc_path ps sz u c = Inr (uf, c')" "distinct ps" "locks_ok c ps" "uuids_ok c ps"
    "sz < sliding_window_size c \<Longrightarrow> u = None"
  shows "undoes ps sz uf c c'"
  using assms
proof (induction ps arbitrary: sz u c)
  case Nil
  then show ?case by (simp add: undoes_def)
next
  case (Cons n ps)
  then obtain sz' u' c1 where r: "inc_lock_node n sz u c = Inr (sz', u', c1)" "inc_path ps sz' u' c1 = Inr (uf, c')"
    by (auto simp: res_simps)
  obtain x where x: "swa_nodes c n = Some x" "full_lock_ref x \<ge> 0" "swa_lock_ref x \<ge> 0"
    using Cons.prems(3) by (auto simp: locks_ok_Cons)
  note inc = r(1) [unfolded inc_lock_node_put [OF x(1,2)]]
  have n: "n \<notin> set ps" "distinct ps" using Cons.prems(2) by auto
  have same: "\<And>q. q \<in> set ps \<Longrightarrow> swa_nodes c1 q = swa_nodes c q"
    using inc_lock_node_parents(5) [OF r(1)] n by (metis snd_conv)
  have w: "sliding_window_size c1 = sliding_window_size c" using inc_lock_node_parents(4) [OF r(1)] by simp
  have nc: "swa_nodes c' n = swa_nodes c1 n" using inc_path_keeps [OF r(2) n(1)] .
  have cnt: "swa_uuid_counter c \<le> swa_uuid_counter c1" "sz' < sliding_window_size c1 \<Longrightarrow> u' = None"
    using inc Cons.prems(5) w by (auto simp: Let_def split: if_splits)
  have u1: "uuids_ok c1 ps"
    using Cons.prems(4) cnt(1) by (auto simp: uuids_ok_def path_uuids_cong [OF same] path_uuids_Cons list_all_iff
        split: option.splits)
  have tl: "undoes ps sz' uf c1 c'"
    using Cons.IH r(2) n(2) path_cong(1) [OF same] Cons.prems(3) u1 cnt(2) by (simp add: locks_ok_Cons)
  consider (outside) "\<not> sz < sliding_window_size c" | (inside) "sz < sliding_window_size c" "sz' < sliding_window_size c"
    | (boundary) "sz < sliding_window_size c" "\<not> sz' < sliding_window_size c" by blast
  then show ?case
  proof cases
    case outside
    then have "sz' = sz" "c1 = put n (x\<lparr>full_lock_ref := full_lock_ref x + 1\<rparr>) (- freed_full x) 0 c"
      using inc by auto
    then show ?thesis using undo_outside [OF x(1,2) n(1) _ nc tl] outside by simp
  next
    case inside
    have "\<not> uuid_hit uf x"
      using inc_path_uuid [OF r(2) n(2)] Cons.prems(4) x(1) cnt w inside(2)
      by (auto simp: uuid_hit_def uuids_ok_def path_uuids_Cons path_uuids_cong [OF same] attr_def list_all_iff
          split: option.splits)
    then show ?thesis
      using inc inside by (intro undo_inside [OF x _ n(1) _ nc tl]) (auto simp: Let_def split: if_splits)
  next
    case boundary
    then obtain v k where v: "u' = Some v" "v \<noteq> 0" "\<not> swa_tombstone x"
        "c1 = put n (x\<lparr>full_lock_ref := full_lock_ref x + 1, swa_lock_ref := swa_lock_ref x + 1, swa_uuid := Some v\<rparr>)
           (- freed_full x) (- freed_swa x) (bump k c)"
      using inc Cons.prems(4) x(1)
      by (auto simp: Let_def uuids_ok_def path_uuids_Cons attr_def split: if_splits option.splits)
    have "uf = Some v" using inc_path_full [OF r(2)] boundary w v(1) by simp
    then show ?thesis using undo_boundary [OF x v(3) n(1) v(4) nc _ boundary v(2)] tl by simp
  qed
qed

lemma inc_lock_node_effect:
  assumes "inc_lock_node n sz u c = Inr (sz', u', c1)"
  shows "attr full_lock_ref 0 c1 m = attr full_lock_ref 0 c m + (if m = n then 1 else 0)"
    and "attr swa_lock_ref 0 c1 m = attr swa_lock_ref 0 c m + (if m = n \<and> sz < sliding_window_size c then 1 else 0)"
    and "in_window c sz (n # ps) = (if sz < sliding_window_size c then n # in_window c sz' ps else [])"
    and "\<not> sz < sliding_window_size c \<Longrightarrow> sz' = sz"
proof -
  obtain x where x: "swa_nodes c n = Some x" "full_lock_ref x \<ge> 0"
    using assms by (auto simp: inc_lock_node_def node_at_def load_def res_simps)
  show "attr full_lock_ref 0 c1 m = attr full_lock_ref 0 c m + (if m = n then 1 else 0)"
    "attr swa_lock_ref 0 c1 m = attr swa_lock_ref 0 c m + (if m = n \<and> sz < sliding_window_size c then 1 else 0)"
    "in_window c sz (n # ps) = (if sz < sliding_window_size c then n # in_window c sz' ps else [])"
    "\<not> sz < sliding_window_size c \<Longrightarrow> sz' = sz"
    using assms unfolding inc_lock_node_put [OF x] by (auto simp: attr_def x(1) Let_def split: if_splits)
qed

lemma inc_path_effect:
  assumes "inc_path ps sz u c = Inr (uf, c')" "distinct ps"
  shows "attr full_lock_ref 0 c' m = attr full_lock_ref 0 c m + (if m \<in> set ps then 1 else 0)
    \<and> attr swa_lock_ref 0 c' m = attr swa_lock_ref 0 c m + (if m \<in> set (in_window c sz ps) then 1 else 0)"
  using assms
proof (induction ps arbitrary: sz u c)
  case (Cons n ps)
  then obtain sz' u' c1 where r: "inc_lock_node n sz u c = Inr (sz', u', c1)" "inc_path ps sz' u' c1 = Inr (uf, c')"
    by (auto simp: res_simps)
  have same: "\<And>q. q \<in> set ps \<Longrightarrow> swa_nodes c1 q = swa_nodes c q"
    using inc_lock_node_parents(5) [OF r(1)] Cons.prems(2) by (metis distinct.simps(2) snd_conv)
  have w: "in_window c1 sz' ps = in_window c sz' ps"
    using path_cong(3) [OF same] inc_lock_node_parents(4) [OF r(1)] by simp
  note IH = Cons.IH [OF r(2)]
  have n: "n \<notin> set ps" "n \<notin> set (in_window c sz' ps)" "distinct ps"
    using Cons.prems(2) in_window_subset by auto
  have z: "m \<in> set (in_window c sz' ps) \<Longrightarrow> sz < sliding_window_size c"
    using inc_lock_node_effect(4) [OF r(1)] by (cases ps; cases "sz < sliding_window_size c") auto
  have iw: "in_window c sz (n # ps) = (if sz < sliding_window_size c then n # in_window c sz' ps else [])"
    by (rule inc_lock_node_effect(3) [OF r(1)])
  show ?case
    using IH n z unfolding iw w by (auto simp: inc_lock_node_effect(1,2) [OF r(1)] split: if_splits)
qed simp

lemma inc_path_parents:
  "inc_path ps sz u c = Inr (uf, c') \<Longrightarrow>
     map_option swa_parent (swa_nodes c' m) = map_option swa_parent (swa_nodes c m)
     \<and> sw_root_node c' = sw_root_node c \<and> sw_disable c' = sw_disable c"
proof (induction ps arbitrary: sz u c)
  case (Cons n ps)
  then obtain sz' u' c1 where r: "inc_lock_node n sz u c = Inr (sz', u', c1)" "inc_path ps sz' u' c1 = Inr (uf, c')"
    by (auto simp: res_simps)
  obtain x where x: "swa_nodes c n = Some x" "full_lock_ref x \<ge> 0"
    using r(1) by (auto simp: inc_lock_node_def node_at_def load_def res_simps)
  have "sw_disable c1 = sw_disable c"
    using r(1) unfolding inc_lock_node_put [OF x] by (auto simp: Let_def bump_def split: if_splits)
  then show ?case using Cons.IH [OF r(2)] inc_lock_node_parents(1,2) [OF r(1)] by simp
qed simp

definition sample_links :: "nat \<Rightarrow> swa_node" where
  \<comment> \<open>the pointers of the recency lists \<open>8, 7, 6, 5\<close> (between 1 and 2) and \<open>8, 6\<close> (between 3 and 4)\<close>
  "sample_links n = (new_swa_node 0)\<lparr>
     prev_node := map_of [(2, 5), (5, 6), (6, 7), (7, 8), (8, 1)] n,
     next_node := map_of [(1, 8), (8, 7), (7, 6), (6, 5), (5, 2)] n,
     swa_prev := map_of [(4, 6), (6, 8), (8, 3)] n,
     swa_next := map_of [(3, 8), (8, 6), (6, 4)] n\<rparr>"

definition sample_node :: "nat \<Rightarrow> swa_node" where
  \<comment> \<open>root 0 above 5, 6, 7 and 8 in this order; 5 and 7 are tombstones\<close>
  "sample_node n = (sample_links n)\<lparr>
     swa_parent := map_of [(5, 0), (6, 5), (7, 6), (8, 7)] n,
     swa_children := (case map_of [(0, ([1], 5)), (5, ([2], 6)), (6, ([5], 7)), (7, ([6], 8))] n of
        None \<Rightarrow> [] | Some kv \<Rightarrow> [kv]),
     swa_key := (case_option [] id) (map_of [(5, [1]), (6, [2, 3, 4]), (7, [5]), (8, [6])] n),
     swa_value := (case_option [] id) (map_of [(5, [11]), (6, [12, 13, 14]), (7, [15]), (8, [16])] n),
     swa_tombstone := n \<in> {5, 7}, full_lock_ref := (if n = 0 then 1 else 0),
     swa_lock_ref := (if n = 0 then 1 else 0)\<rparr>"

definition sample_tree :: swa_cache where
  "sample_tree = \<lparr>swa_nodes = (\<lambda>n. if n < 9 then Some (sample_node n) else None), swa_counter = 9,
     swa_monotonic = of_nat, swa_ticks = 9, sw_page_size = 1, sw_disable = False, sliding_window_size = 4,
     sw_root_node = 0, full_evictable_sz = 6, swa_evictable_sz = 4, full_protected_sz = 0, swa_protected_sz = 0,
     full_lru_list = \<lparr>lru_swa = False, head_node = 1, tail_node = 2, lru_cache = [(5, 5), (6, 6), (7, 7), (8, 8)]\<rparr>,
     swa_lru_list = \<lparr>lru_swa = True, head_node = 3, tail_node = 4, lru_cache = [(6, 6), (8, 8)]\<rparr>,
     swa_uuid_counter = 1\<rparr>"

lemmas sample_simps = sample_tree_def sample_node_def sample_links_def new_swa_node_def

text \<open>
  C36: when a lock is granted. On the path from a node to the root, \<^verbatim>\<open>inc_lock_ref\<close> fails an
  assertion exactly when one of the nodes at its end that reach into the sliding window is a
  tombstone. Otherwise it returns, every node of the path has one more lock of the full
  layers, the nodes that reach into the window have one more lock of the sliding-window
  layers, and no other node's locks change.
\<close>

theorem swa_lock_granted_iff:
  assumes "\<not> sw_disable c" "ancestors (swa_nodes c) n (sw_root_node c) = Some ps" "locks_ok c ps"
  shows "if list_ex (attr swa_tombstone False c) (in_window c 0 ps)
    then swa_inc_lock_ref n c = Some (Inl AssertionError)
    else (\<exists>uuid c'. swa_inc_lock_ref n c = Some (Inr (uuid, c')) \<and>
      (\<forall>m. attr full_lock_ref 0 c' m = attr full_lock_ref 0 c m + (if m \<in> set ps then 1 else 0)
         \<and> attr swa_lock_ref 0 c' m = attr swa_lock_ref 0 c m + (if m \<in> set (in_window c 0 ps) then 1 else 0)))"
proof -
  have d: "distinct ps" using ancestors_distinct [OF assms(2)] .
  have "swa_inc_lock_ref n c = Some (inc_path ps 0 None c)"
    using assms(1) inc_swa_loop_path [OF assms(2)] by (simp add: swa_inc_lock_ref_def)
  then show ?thesis
    using inc_path_result [OF d assms(3), of 0 None] inc_path_effect [OF _ d, of 0 None c]
    by (auto split: if_splits)
qed

abbreviation short_window :: swa_cache where
  "short_window \<equiv> sample_tree\<lparr>sliding_window_size := 3\<rparr>"

lemma short_window_path:
  "ancestors (swa_nodes short_window) 6 (sw_root_node short_window) = Some [6, 5]"
  "locks_ok short_window [6, 5]" "uuids_ok short_window [6, 5]" "in_window short_window 0 [6, 5] = [6]"
  by (simp_all add: sample_simps ancestors_Cons ancestors_Nil locks_ok_def attr_def uuids_ok_def path_uuids_def
      map_filter_simps)

theorem swa_lock_granted_iff_witness:
  "\<exists>uuid c'. swa_inc_lock_ref 6 short_window = Some (Inr (uuid, c'))
     \<and> attr full_lock_ref 0 c' 6 = 1 \<and> attr swa_lock_ref 0 c' 6 = 1
     \<and> attr full_lock_ref 0 c' 5 = 1 \<and> attr swa_lock_ref 0 c' 5 = 0"
proof -
  have d: "\<not> sw_disable short_window" by (simp add: sample_simps)
  have "\<not> list_ex (attr swa_tombstone False short_window) (in_window short_window 0 [6, 5])"
    unfolding short_window_path(4) by (simp add: attr_def sample_simps)
  moreover have "attr full_lock_ref 0 short_window 6 = 0" "attr swa_lock_ref 0 short_window 6 = 0"
      "attr full_lock_ref 0 short_window 5 = 0" "attr swa_lock_ref 0 short_window 5 = 0"
    by (simp_all add: attr_def sample_simps)
  ultimately show ?thesis
    using swa_lock_granted_iff [OF d short_window_path(1,2), unfolded short_window_path(4)] by auto
qed

text \<open>
  C37: releasing a lock undoes it. Whenever \<^verbatim>\<open>inc_lock_ref\<close> returns a number for a node,
  \<^verbatim>\<open>dec_lock_ref\<close> with that number returns and restores every lock count and all four sizes:
  the boundary that it finds by comparing numbers is the one that was found by adding up
  lengths. Only the number that marks the boundary stays.
\<close>

theorem swa_lock_roundtrip:
  assumes "ancestors (swa_nodes c) n (sw_root_node c) = Some ps" "locks_ok c ps" "uuids_ok c ps"
    "0 < sliding_window_size c" "swa_inc_lock_ref n c = Some (Inr (uuid, c'))"
  shows "\<exists>c''. swa_dec_lock_ref n uuid c' = Some (Inr c'') \<and> forget_uuid c'' = forget_uuid c"
proof (cases "sw_disable c")
  case True
  then show ?thesis using assms(5) by (simp add: swa_inc_lock_ref_def swa_dec_lock_ref_def)
next
  case False
  have i: "inc_path ps 0 None c = Inr (uuid, c')"
    using assms(5) False inc_swa_loop_path [OF assms(1)] by (simp add: swa_inc_lock_ref_def)
  note p = inc_path_parents [OF i]
  have "ancestors (swa_nodes c') n (sw_root_node c') = Some ps"
    using ancestors_parents [OF assms(1)] p by simp
  then have e: "swa_dec_lock_ref n uuid c' = Some (dec_path ps uuid True c')"
    using dec_swa_loop_path p False by (simp add: swa_dec_lock_ref_def)
  have u: "undoes ps 0 uuid c c'"
    using inc_dec_path [OF i ancestors_distinct [OF assms(1)] assms(2,3)] by simp
  then show ?thesis using e assms(4) by (auto simp: undoes_def)
qed

theorem swa_lock_roundtrip_witness:
  "\<exists>uuid c' c''. swa_inc_lock_ref 6 short_window = Some (Inr (uuid, c'))
     \<and> swa_dec_lock_ref 6 uuid c' = Some (Inr c'') \<and> forget_uuid c'' = forget_uuid short_window"
proof -
  have "\<not> list_ex (attr swa_tombstone False short_window) (in_window short_window 0 [6, 5])"
    unfolding short_window_path(4) by (simp add: attr_def sample_simps)
  then obtain uuid c' where "inc_path [6, 5] 0 None short_window = Inr (uuid, c')"
    using inc_path_result [OF _ short_window_path(2), of 0 None] by auto
  then have i: "swa_inc_lock_ref 6 short_window = Some (Inr (uuid, c'))"
    using inc_swa_loop_path [OF short_window_path(1), of 0 None] by (simp add: swa_inc_lock_ref_def sample_simps)
  have "0 < sliding_window_size short_window" by simp
  from swa_lock_roundtrip [OF short_window_path(1-3) this i] i show ?thesis by blast
qed

end
