(* ===== verification/SWA_Match.thy ===== *)
theory SWA_Match
  imports SWA_Locks
begin

text \<open>
  A prefix match against the lock that follows it. \<^verbatim>\<open>_match_prefix_helper\<close> restarts its count of
  the tokens since the last tombstone only when the count has reached the window, so that
  tokens before a second tombstone are counted for the node after it. The property shows the
  consequence on every cache with such a path: the match returns a node that
  \<^verbatim>\<open>inc_lock_ref\<close> refuses.
\<close>

section \<open>Walking a path whose keys match\<close>

lemma key_match_append: "key_match_page_size1 k (k @ r) = length k"
  by (induction k) auto

definition sw_child_of :: "swa_cache \<Rightarrow> nat \<Rightarrow> nat \<Rightarrow> swa_node \<Rightarrow> bool" where
  "sw_child_of c p n x \<longleftrightarrow> swa_nodes c n = Some x \<and> swa_parent x = Some p \<and> swa_key x \<noteq> []
     \<and> attr (\<lambda>pd. map_of (swa_children pd) [hd (swa_key x)]) None c p = Some n"

lemma match_step:
  assumes "sw_page_size c = 1" "sw_child_of c (ms_node m) n x" "ck = [hd (swa_key x)]"
  shows "rest \<noteq> [] \<Longrightarrow> swa_match_loop (swa_key x @ rest) ck m c
      = swa_match_loop rest [hd rest] (take_node n x (see_child (sliding_window_size c) x m)) c"
    and "swa_match_loop (swa_key x) ck m c
      = Some (Inr (take_node n x (see_child (sliding_window_size c) x m), c))"
proof -
  obtain pd where p: "swa_nodes c (ms_node m) = Some pd" "map_of (swa_children pd) [hd (swa_key x)] = Some n"
      "swa_nodes c n = Some x" "swa_key x \<noteq> []"
    using assms(2) by (auto simp: sw_child_of_def attr_def split: option.splits)
  show "rest \<noteq> [] \<Longrightarrow> swa_match_loop (swa_key x @ rest) ck m c
      = swa_match_loop rest [hd rest] (take_node n x (see_child (sliding_window_size c) x m)) c"
    using p assms by (subst swa_match_loop.simps)
      (simp add: key_match_fn_def key_match_append sw_child_key_def get_child_key_fn_def split: list.split)
  show "swa_match_loop (swa_key x) ck m c
      = Some (Inr (take_node n x (see_child (sliding_window_size c) x m), c))"
    using p assms key_match_append [of "swa_key x" "[]"]
    by (subst swa_match_loop.simps)
      (simp add: key_match_fn_def swa_match_loop.simps [of "[]"])
qed

section \<open>What a match leaves alone\<close>

definition node_core :: "swa_node \<Rightarrow> nat option \<times> bool \<times> int list \<times> int \<times> int" where
  "node_core x = (swa_parent x, swa_tombstone x, swa_value x, full_lock_ref x, swa_lock_ref x)"

definition same_core :: "swa_heap \<Rightarrow> swa_heap \<Rightarrow> bool" where
  "same_core h h' \<longleftrightarrow> (\<forall>n. map_option node_core (h' n) = map_option node_core (h n))"

lemma same_core_frame: "frame l h h' \<Longrightarrow> same_core h h'"
  using frame_attr [of l h h' node_core] by (simp add: same_core_def node_core_def clear_links_def ptr_defs)

lemma same_core_trans: "same_core h h1 \<Longrightarrow> same_core h1 h2 \<Longrightarrow> same_core h h2"
  by (simp add: same_core_def)

lemma same_core_parents: "same_core h h' \<Longrightarrow> map_option swa_parent (h' n) = map_option swa_parent (h n)"
  unfolding same_core_def node_core_def
  by (drule spec [of _ n]) (cases "h n"; cases "h' n"; simp)

lemma touch_path_returns:
  "ancestors h n r = Some ps \<Longrightarrow> h r = Some x \<Longrightarrow> swa_parent x = None
     \<Longrightarrow> \<exists>h'. touch_path (Some n) t h = Some (Inr h') \<and> same_core h h'"
proof (induction ps arbitrary: n t h x)
  case Nil
  then show ?case
    by (auto simp: ancestors_Nil touch_path.simps [of "Some r"] touch_path.simps [of None] same_core_def node_core_def upd_def)
next
  case (Cons m ps)
  then obtain y p where y: "m = n" "n \<noteq> r" "h n = Some y" "swa_parent y = Some p" "ancestors h p r = Some ps"
    by (auto simp: ancestors_Cons)
  let ?h = "upd n (\<lambda>y. y\<lparr>swa_last_access_time := t\<rparr>) h"
  have s: "same_core h ?h" by (auto simp: same_core_def node_core_def [abs_def] upd_def option.map_comp comp_def)
  have "ancestors ?h p r = Some ps" using ancestors_parents [OF y(5)] same_core_parents [OF s] by blast
  moreover have "?h r = Some x" using y(2) Cons.prems(2) by simp
  ultimately obtain h' where "touch_path (Some p) (t - 1 / 10000) ?h = Some (Inr h')" "same_core ?h h'"
    using Cons.IH [of ?h p x "t - 1 / 10000"] Cons.prems(3) by blast
  then show ?case
    using y(3,4) same_core_trans [OF s] by (auto simp: touch_path.simps [of "Some n"])
qed

section \<open>A path with two tombstones\<close>

definition two_tombstones :: "swa_cache \<Rightarrow> nat list \<Rightarrow> swa_node list \<Rightarrow> bool" where
  \<comment> \<open>four nodes below each other, the first and the third of them tombstones; the tokens of the
    other two reach the window only together\<close>
  "two_tombstones c ns xs \<longleftrightarrow>
     (case (ns, xs) of
        ([k, l, m, n], [x, y, z, w]) \<Rightarrow>
          sw_child_of c (sw_root_node c) k x \<and> sw_child_of c k l y \<and> sw_child_of c l m z \<and> sw_child_of c m n w
          \<and> distinct [sw_root_node c, k, l, m, n] \<and> locks_ok c [n, m, l, k]
          \<and> swa_tombstone x \<and> \<not> swa_tombstone y \<and> swa_tombstone z \<and> \<not> swa_tombstone w
          \<and> length (swa_value y) < sliding_window_size c \<and> length (swa_value w) < sliding_window_size c
          \<and> sliding_window_size c \<le> length (swa_value y) + length (swa_value w)
      | _ \<Rightarrow> False)"

definition lists_ok :: "swa_cache \<Rightarrow> nat list \<Rightarrow> nat list \<Rightarrow> bool" where
  \<comment> \<open>the recency lists hold the nodes of the tree, the second one those that are no tombstones\<close>
  "lists_ok c xs ys \<longleftrightarrow>
     \<not> lru_swa (full_lru_list c) \<and> lru_rep (full_lru_list c) (swa_nodes c) xs
     \<and> lru_swa (swa_lru_list c) \<and> lru_rep (swa_lru_list c) (swa_nodes c) ys
     \<and> attr swa_parent None c (sw_root_node c) = None \<and> swa_nodes c (sw_root_node c) \<noteq> None"

lemma two_tombstones_match:
  assumes t: "two_tombstones c [k, l, m, n] [x, y, z, w]" and ps: "sw_page_size c = 1"
  shows "\<exists>s. swa_match_loop (swa_key x @ swa_key y @ swa_key z @ swa_key w) [hd (swa_key x)]
       \<lparr>ms_node = sw_root_node c, ms_value = [], match_len_since_tombstone = \<infinity>,
        best_value_len = 0, best_last_node = sw_root_node c\<rparr> c = Some (Inr (s, c))
     \<and> ms_node s = n \<and> ms_value s = [swa_value x, swa_value y, swa_value z, swa_value w]
     \<and> match_len_since_tombstone s \<ge> enat (sliding_window_size c)"
proof -
  have ch: "sw_child_of c (sw_root_node c) k x" "sw_child_of c k l y" "sw_child_of c l m z" "sw_child_of c m n w"
    using t by (auto simp: two_tombstones_def)
  have ne: "swa_key y \<noteq> []" "swa_key z \<noteq> []" "swa_key w \<noteq> []" using ch by (simp_all add: sw_child_of_def)
  define W where "W = sliding_window_size c"
  define s0 where "s0 = \<lparr>ms_node = sw_root_node c, ms_value = [], match_len_since_tombstone = \<infinity>,
        best_value_len = 0, best_last_node = sw_root_node c\<rparr>"
  define s1 where "s1 = take_node k x (see_child W x s0)"
  define s2 where "s2 = take_node l y (see_child W y s1)"
  define s3 where "s3 = take_node m z (see_child W z s2)"
  define s4 where "s4 = take_node n w (see_child W w s3)"
  have nd: "ms_node s0 = sw_root_node c" "ms_node s1 = k" "ms_node s2 = l" "ms_node s3 = m"
    by (simp_all add: s0_def s1_def s2_def s3_def take_node_def)
  note defs = s1_def s2_def s3_def s4_def W_def
  have "swa_match_loop (swa_key x @ swa_key y @ swa_key z @ swa_key w) [hd (swa_key x)] s0 c
      = swa_match_loop (swa_key y @ swa_key z @ swa_key w) [hd (swa_key y)] s1 c"
    using match_step(1) [OF ps, of s0 k x "[hd (swa_key x)]" "swa_key y @ swa_key z @ swa_key w"] ch(1) nd ne defs by simp
  also have "\<dots> = swa_match_loop (swa_key z @ swa_key w) [hd (swa_key z)] s2 c"
    using match_step(1) [OF ps, of s1 l y "[hd (swa_key y)]" "swa_key z @ swa_key w"] ch(2) nd ne defs by simp
  also have "\<dots> = swa_match_loop (swa_key w) [hd (swa_key w)] s3 c"
    using match_step(1) [OF ps, of s2 m z "[hd (swa_key z)]" "swa_key w"] ch(3) nd ne defs by simp
  also have "\<dots> = Some (Inr (s4, c))"
    using match_step(2) [OF ps, of s3 n w "[hd (swa_key w)]"] ch(4) nd defs by simp
  finally have "swa_match_loop (swa_key x @ swa_key y @ swa_key z @ swa_key w) [hd (swa_key x)] s0 c = Some (Inr (s4, c))" .
  moreover have "ms_node s4 = n" "ms_value s4 = [swa_value x, swa_value y, swa_value z, swa_value w]"
      "match_len_since_tombstone s4 \<ge> enat W"
    using t by (simp_all add: s0_def s1_def s2_def s3_def s4_def take_node_def see_child_def note_best_def
        two_tombstones_def W_def)
  ultimately show ?thesis unfolding s0_def W_def by blast
qed

lemma sw_child_key_hd: "sw_page_size c = 1 \<Longrightarrow> key \<noteq> [] \<Longrightarrow> sw_child_key c (key @ rest) = Inr [hd key]"
  by (cases key) (simp_all add: sw_child_key_def get_child_key_fn_def)

lemma reset_parents_returns:
  assumes "lru_rep l h xs" "ancestors h n r = Some ps" "\<forall>p\<in>set ps. \<not> barred (lru_swa l) h p \<longrightarrow> p \<in> set xs"
  obtains h' where "reset_node_and_parents_mru l n r h = Some (Inr h')" "frame l h h'"
  using reset_parents_loop_rep [of l h "[]" xs n r ps] assms ancestors_distinct [OF assms(2)]
  by (auto simp: reset_node_and_parents_mru_def)

lemma two_tombstones_ancestors:
  assumes "two_tombstones c [k, l, m, n] [x, y, z, w]"
  shows "ancestors (swa_nodes c) n (sw_root_node c) = Some [n, m, l, k]"
    and "barred True (swa_nodes c) k" "barred True (swa_nodes c) m"
  using assms by (auto simp: two_tombstones_def sw_child_of_def ancestors_Cons ancestors_Nil barred_def)

lemma same_core_attr:
  assumes "same_core (swa_nodes c) (swa_nodes c')" "\<And>x y. node_core x = node_core y \<Longrightarrow> f x = f y"
  shows "attr f d c' p = attr f d c p"
proof (cases "swa_nodes c p")
  case None
  then show ?thesis using spec [OF assms(1) [unfolded same_core_def], of p] by (simp add: attr_def)
next
  case (Some x)
  then obtain x' where "swa_nodes c' p = Some x'" "node_core x' = node_core x"
    using spec [OF assms(1) [unfolded same_core_def], of p] by auto
  then show ?thesis using Some assms(2) [of x' x] by (simp add: attr_def)
qed

lemma two_tombstones_locked:
  assumes t: "two_tombstones c [k, l, m, n] [x, y, z, w]" and d: "\<not> sw_disable c'"
    and s: "same_core (swa_nodes c) (swa_nodes c')" "sw_root_node c' = sw_root_node c"
      "sliding_window_size c' = sliding_window_size c"
  shows "swa_inc_lock_ref n c' = Some (Inl AssertionError)"
proof -
  note a = same_core_attr [OF s(1)]
  have anc: "ancestors (swa_nodes c') n (sw_root_node c') = Some [n, m, l, k]"
    using ancestors_parents [OF two_tombstones_ancestors(1) [OF t]] same_core_parents [OF s(1)] s(2) by simp
  have "attr (\<lambda>x. full_lock_ref x \<ge> 0 \<and> swa_lock_ref x \<ge> 0) False c' p
      = attr (\<lambda>x. full_lock_ref x \<ge> 0 \<and> swa_lock_ref x \<ge> 0) False c p" for p
    by (rule a) (simp add: node_core_def)
  then have ok: "locks_ok c' [n, m, l, k]" using t by (simp add: two_tombstones_def locks_ok_def)
  have "attr swa_tombstone False c' m = attr swa_tombstone False c m"
      "attr (length \<circ> swa_value) 0 c' n = attr (length \<circ> swa_value) 0 c n"
    by (rule a; simp add: node_core_def)+
  then have "list_ex (attr swa_tombstone False c') (in_window c' 0 [n, m, l, k])"
    using t s(3) by (simp add: two_tombstones_def attr_def sw_child_of_def)
  then have "inc_path [n, m, l, k] 0 None c' = Inl AssertionError"
    using inc_path_result [OF ancestors_distinct [OF anc] ok, of 0 None] by simp
  then show ?thesis using inc_swa_loop_path [OF anc] d by (simp add: swa_inc_lock_ref_def)
qed

text \<open>
  C38: a prefix match can return a node that cannot be locked. In every cache with a path of
  four nodes whose first and third are tombstones, where the tokens of the second and the
  fourth reach the sliding window only together, \<^verbatim>\<open>match_prefix\<close> on the tokens of the path returns
  the fourth node with all slots of the path, although fewer tokens than the window follow the
  last tombstone, and \<^verbatim>\<open>inc_lock_ref\<close> on that node fails its assertion.
\<close>

theorem match_returns_unlockable:
  assumes t: "two_tombstones c [k, l, m, n] [x, y, z, w]" and c: "sw_page_size c = 1" "\<not> sw_disable c"
    and ls: "lists_ok c xs ys" "{k, l, m, n} \<subseteq> set xs" "{l, n} \<subseteq> set ys"
  shows "\<exists>r c'. swa_match_prefix (swa_key x @ swa_key y @ swa_key z @ swa_key w) c = Some (Inr (r, c'))
     \<and> last_device_node r = n \<and> device_indices r = swa_value x @ swa_value y @ swa_value z @ swa_value w
     \<and> swa_inc_lock_ref n c' = Some (Inl AssertionError)"
proof -
  let ?key = "swa_key x @ swa_key y @ swa_key z @ swa_key w"
  obtain s where s: "swa_match_loop ?key [hd (swa_key x)]
       \<lparr>ms_node = sw_root_node c, ms_value = [], match_len_since_tombstone = \<infinity>,
        best_value_len = 0, best_last_node = sw_root_node c\<rparr> c = Some (Inr (s, c))"
      "ms_node s = n" "ms_value s = [swa_value x, swa_value y, swa_value z, swa_value w]"
      "match_len_since_tombstone s \<ge> enat (sliding_window_size c)"
    using two_tombstones_match [OF t c(1)] by blast
  note anc = two_tombstones_ancestors [OF t]
  obtain h1 where h1: "reset_node_and_parents_mru (full_lru_list c) n (sw_root_node c) (swa_nodes c) = Some (Inr h1)"
      "frame (full_lru_list c) (swa_nodes c) h1"
    by (rule reset_parents_returns [OF _ anc(1)]) (use ls in \<open>auto simp: lists_ok_def\<close>)
  have r1: "lru_rep (swa_lru_list c) h1 ys"
    using lru_rep_frame_other [OF h1(2), of "swa_lru_list c" ys] ls(1) by (simp add: lists_ok_def)
  have c1: "same_core (swa_nodes c) h1" using same_core_frame [OF h1(2)] .
  have anc1: "ancestors h1 n (sw_root_node c) = Some [n, m, l, k]" using ancestors_frame [OF anc(1) h1(2)] .
  obtain h2 where h2: "reset_node_and_parents_mru (swa_lru_list c) n (sw_root_node c) h1 = Some (Inr h2)"
      "frame (swa_lru_list c) h1 h2"
    by (rule reset_parents_returns [OF r1 anc1])
      (use ls anc(2,3) in \<open>auto simp: lists_ok_def barred_frame [OF h1(2)]\<close>)
  have c2: "same_core (swa_nodes c) h2" using same_core_trans [OF c1 same_core_frame [OF h2(2)]] .
  obtain q where "h2 (sw_root_node c) = Some q" "swa_parent q = None"
    using ls(1) same_core_parents [OF c2, of "sw_root_node c"]
    by (cases "h2 (sw_root_node c)") (auto simp: lists_ok_def attr_def)
  then obtain h3 where h3: "touch_path (Some n) (swa_monotonic c (swa_ticks c)) h2 = Some (Inr h3)" "same_core h2 h3"
    using touch_path_returns [OF ancestors_frame [OF anc1 h2(2)]] by blast
  have key: "?key \<noteq> []" "sw_child_key c ?key = Inr [hd (swa_key x)]"
    using t sw_child_key_hd [OF c(1), of "swa_key x"] by (auto simp: two_tombstones_def sw_child_of_def)
  let ?c = "c\<lparr>swa_nodes := h3, swa_ticks := swa_ticks c + 1\<rparr>"
  have "swa_match_prefix_helper ?key c
      = Some (Inr ([swa_value x, swa_value y, swa_value z, swa_value w], n, ?c))"
    using s key h1(1) h2(1) h3(1) by (simp add: swa_match_prefix_helper_def note_best_def)
  then have "swa_match_prefix ?key c = Some (Inr (\<lparr>device_indices = swa_value x @ swa_value y @ swa_value z @ swa_value w,
      last_device_node = n, last_host_node = n, host_hit_length = 0\<rparr>, ?c))"
    using key(1) c by (auto simp: swa_match_prefix_def)
  moreover have "swa_inc_lock_ref n ?c = Some (Inl AssertionError)"
    by (rule two_tombstones_locked [OF t]) (use c(2) same_core_trans [OF c2 h3(2)] in simp_all)
  ultimately show ?thesis by auto
qed

theorem match_returns_unlockable_witness:
  "\<exists>r c'. swa_match_prefix [1, 2, 3, 4, 5, 6] sample_tree = Some (Inr (r, c'))
     \<and> last_device_node r = 8 \<and> device_indices r = [11, 12, 13, 14, 15, 16]
     \<and> swa_inc_lock_ref 8 c' = Some (Inl AssertionError)"
proof -
  let ?xs = "[sample_node 5, sample_node 6, sample_node 7, sample_node 8]"
  have t: "two_tombstones sample_tree [5, 6, 7, 8] ?xs"
    by (simp add: sample_simps two_tombstones_def sw_child_of_def locks_ok_def attr_def)
  have l: "lists_ok sample_tree [8, 7, 6, 5] [8, 6]"
    by (simp add: sample_simps lists_ok_def attr_def lru_rep_def link_def ptr_defs dummy_def) blast
  have "sw_page_size sample_tree = 1" "\<not> sw_disable sample_tree" by (simp_all add: sample_tree_def)
  moreover have "swa_key (sample_node 5) = [1]" "swa_key (sample_node 6) = [2, 3, 4]" "swa_key (sample_node 7) = [5]"
      "swa_key (sample_node 8) = [6]" "swa_value (sample_node 5) = [11]" "swa_value (sample_node 6) = [12, 13, 14]"
      "swa_value (sample_node 7) = [15]" "swa_value (sample_node 8) = [16]"
    by (simp_all add: sample_node_def)
  ultimately show ?thesis using match_returns_unlockable [OF t _ _ l] by simp
qed

end
