(* ===== verification/RW_Lock.thy ===== *)
theory RW_Lock
  imports Main
begin

text \<open>
  The readers-writer lock of \<^verbatim>\<open>aio_rwlock.py\<close>, which the tokenizer manager holds around requests
  (readers) and weight updates (writers). Each method is a function on the lock's record up to
  its next suspension; the tasks that use the lock are a list of program counters, and a step
  relation interleaves them. The methods run inside \<open>async with self._lock\<close> and suspend only in
  \<open>self._cond.wait()\<close>, which gives that lock up: no task is suspended while it holds \<open>_lock\<close>, so
  that a task that is resumed finds it free and runs on to its next suspension. \<open>notify_all\<close>
  wakes every task that waits on the condition; woken tasks run in any order. A task can be
  cancelled while it waits.
\<close>

section \<open>RWLock\<close>

record rwlock =
  rw_readers :: int
  rw_writer_active :: bool
  rw_waiting_writers :: int
  rw_waiters :: "nat list"

definition rwlock_init :: rwlock where
  "rwlock_init = \<lparr>rw_readers = 0, rw_writer_active = False, rw_waiting_writers = 0, rw_waiters = []\<rparr>"

definition cond_wait :: "nat \<Rightarrow> rwlock \<Rightarrow> rwlock" where
  \<comment> \<open>\<open>self._cond.wait()\<close> up to the suspension of task \<open>t\<close>\<close>
  "cond_wait t s = s\<lparr>rw_waiters := rw_waiters s @ [t]\<rparr>"

definition notify_all :: "rwlock \<Rightarrow> nat list \<times> rwlock" where
  \<comment> \<open>the tasks it wakes\<close>
  "notify_all s = (rw_waiters s, s\<lparr>rw_waiters := []\<rparr>)"

definition acquire_reader :: "nat \<Rightarrow> rwlock \<Rightarrow> bool \<times> rwlock" where
  \<comment> \<open>from the test of the loop, whether the task comes from its beginning or from \<open>wait()\<close>;
    \<open>False\<close> when it waits\<close>
  "acquire_reader t s =
     (if rw_writer_active s \<or> rw_waiting_writers s > 0 then (False, cond_wait t s)
      else (True, s\<lparr>rw_readers := rw_readers s + 1\<rparr>))"

definition release_reader :: "rwlock \<Rightarrow> nat list \<times> rwlock" where
  "release_reader s =
     (let s1 = s\<lparr>rw_readers := rw_readers s - 1\<rparr>
      in if rw_readers s1 = 0 then notify_all s1 else ([], s1))"

definition try_writer :: "nat \<Rightarrow> rwlock \<Rightarrow> bool \<times> rwlock" where
  \<comment> \<open>\<open>acquire_writer\<close> from the test of its loop\<close>
  "try_writer t s =
     (if rw_writer_active s \<or> rw_readers s > 0 then (False, cond_wait t s)
      else (True, s\<lparr>rw_writer_active := True, rw_waiting_writers := rw_waiting_writers s - 1\<rparr>))"

definition acquire_writer :: "nat \<Rightarrow> rwlock \<Rightarrow> bool \<times> rwlock" where
  "acquire_writer t s = try_writer t (s\<lparr>rw_waiting_writers := rw_waiting_writers s + 1\<rparr>)"

definition release_writer :: "rwlock \<Rightarrow> nat list \<times> rwlock" where
  "release_writer s = notify_all (s\<lparr>rw_writer_active := False\<rparr>)"

definition cancel_reader :: "nat \<Rightarrow> rwlock \<Rightarrow> rwlock" where
  \<comment> \<open>a cancellation that \<open>wait()\<close> raises in \<open>acquire_reader\<close>\<close>
  "cancel_reader t s = s\<lparr>rw_waiters := remove1 t (rw_waiters s)\<rparr>"

definition cancel_writer :: "nat \<Rightarrow> rwlock \<Rightarrow> rwlock" where
  \<comment> \<open>a cancellation that \<open>wait()\<close> raises in \<open>acquire_writer\<close>: the \<open>finally\<close> clause runs\<close>
  "cancel_writer t s = s\<lparr>rw_waiters := remove1 t (rw_waiters s), rw_waiting_writers := rw_waiting_writers s - 1\<rparr>"

section \<open>Tasks\<close>

datatype pc = Idle | RAsleep | RWoken | Reading | WAsleep | WWoken | Writing

fun wake_pc :: "pc \<Rightarrow> pc" where
  "wake_pc RAsleep = RWoken"
| "wake_pc WAsleep = WWoken"
| "wake_pc p = p"

definition wake :: "nat list \<Rightarrow> pc list \<Rightarrow> pc list" where
  "wake ts ps = map (\<lambda>i. if i \<in> set ts then wake_pc (ps ! i) else ps ! i) [0..<length ps]"

type_synonym rw_sys = "rwlock \<times> pc list"

inductive rw_step :: "rw_sys \<Rightarrow> rw_sys \<Rightarrow> bool" where
  reader_enter: "i < length ps \<Longrightarrow> ps ! i \<in> {Idle, RWoken} \<Longrightarrow> acquire_reader i s = (True, s') \<Longrightarrow>
     rw_step (s, ps) (s', ps[i := Reading])"
| reader_wait: "i < length ps \<Longrightarrow> ps ! i \<in> {Idle, RWoken} \<Longrightarrow> acquire_reader i s = (False, s') \<Longrightarrow>
     rw_step (s, ps) (s', ps[i := RAsleep])"
| reader_exit: "i < length ps \<Longrightarrow> ps ! i = Reading \<Longrightarrow> release_reader s = (ts, s') \<Longrightarrow>
     rw_step (s, ps) (s', wake ts (ps[i := Idle]))"
| writer_enter: "i < length ps \<Longrightarrow> ps ! i = Idle \<and> acquire_writer i s = (True, s')
       \<or> ps ! i = WWoken \<and> try_writer i s = (True, s') \<Longrightarrow>
     rw_step (s, ps) (s', ps[i := Writing])"
| writer_wait: "i < length ps \<Longrightarrow> ps ! i = Idle \<and> acquire_writer i s = (False, s')
       \<or> ps ! i = WWoken \<and> try_writer i s = (False, s') \<Longrightarrow>
     rw_step (s, ps) (s', ps[i := WAsleep])"
| writer_exit: "i < length ps \<Longrightarrow> ps ! i = Writing \<Longrightarrow> release_writer s = (ts, s') \<Longrightarrow>
     rw_step (s, ps) (s', wake ts (ps[i := Idle]))"

inductive rw_cancel :: "rw_sys \<Rightarrow> rw_sys \<Rightarrow> bool" where
  reader_cancel: "i < length ps \<Longrightarrow> ps ! i \<in> {RAsleep, RWoken} \<Longrightarrow>
     rw_cancel (s, ps) (cancel_reader i s, ps[i := Idle])"
| writer_cancel: "i < length ps \<Longrightarrow> ps ! i \<in> {WAsleep, WWoken} \<Longrightarrow>
     rw_cancel (s, ps) (cancel_writer i s, ps[i := Idle])"

definition rw_any :: "rw_sys \<Rightarrow> rw_sys \<Rightarrow> bool" where
  "rw_any a b \<longleftrightarrow> rw_step a b \<or> rw_cancel a b"

section \<open>Counting tasks\<close>

definition cnt :: "pc \<Rightarrow> pc list \<Rightarrow> int" where
  "cnt p ps = int (count_list ps p)"

lemma cnt_simps [simp]: "cnt p [] = 0" "cnt p (q # ps) = cnt p ps + of_bool (q = p)" "0 \<le> cnt p ps"
  by (simp_all add: cnt_def)

lemma cnt_update: "i < length ps \<Longrightarrow> cnt p (ps[i := q]) = cnt p ps - of_bool (ps ! i = p) + of_bool (q = p)"
  by (induction ps arbitrary: i) (auto split: nat.split)

lemma cnt_pos: "cnt p ps > 0 \<longleftrightarrow> (\<exists>i < length ps. ps ! i = p)"
proof -
  have "cnt p ps > 0 \<longleftrightarrow> p \<in> set ps" by (metis cnt_def count_list_0_iff less_not_refl of_nat_0_less_iff gr0I)
  then show ?thesis by (auto simp: in_set_conv_nth)
qed

lemma cnt_less [simp]: "0 < cnt p ps \<longleftrightarrow> cnt p ps \<noteq> 0"
  using cnt_simps(3) [of p ps] by linarith

lemma cnt_wake_all:
  "cnt p (map wake_pc ps) = (case p of RAsleep \<Rightarrow> 0 | WAsleep \<Rightarrow> 0 | RWoken \<Rightarrow> cnt RWoken ps + cnt RAsleep ps
     | WWoken \<Rightarrow> cnt WWoken ps + cnt WAsleep ps | _ \<Rightarrow> cnt p ps)"
proof (induction ps)
  case (Cons q ps)
  then show ?case by (cases q) (auto split: pc.splits)
qed (simp split: pc.split)

definition asleep :: "pc list \<Rightarrow> nat set" where
  "asleep ps = {i. i < length ps \<and> (ps ! i = RAsleep \<or> ps ! i = WAsleep)}"

lemma wake_all: "set ts = asleep ps \<Longrightarrow> wake ts ps = map wake_pc ps"
proof (rule nth_equalityI)
  fix i assume "set ts = asleep ps" "i < length (wake ts ps)"
  then show "wake ts ps ! i = map wake_pc ps ! i"
    by (cases "ps ! i") (auto simp: wake_def asleep_def)
qed (simp add: wake_def)

lemma wake_none [simp]: "wake [] ps = ps"
  by (simp add: wake_def map_nth)

lemma asleep_update:
  "i < length ps \<Longrightarrow> asleep (ps[i := q]) = (if q = RAsleep \<or> q = WAsleep then insert i (asleep ps) else asleep ps - {i})"
  by (auto simp: asleep_def nth_list_update)

lemma asleep_wake [simp]: "asleep (map wake_pc ps) = {}"
proof -
  have "wake_pc p \<noteq> RAsleep \<and> wake_pc p \<noteq> WAsleep" for p by (cases p) auto
  then show ?thesis by (auto simp: asleep_def)
qed

section \<open>The invariant\<close>

fun rw_inv :: "rw_sys \<Rightarrow> bool" where
  "rw_inv (s, ps) \<longleftrightarrow>
     rw_readers s = cnt Reading ps \<and> cnt Writing ps = of_bool (rw_writer_active s)
     \<and> rw_waiting_writers s = cnt WAsleep ps + cnt WWoken ps
     \<and> (rw_writer_active s \<longrightarrow> cnt Reading ps = 0)
     \<and> distinct (rw_waiters s) \<and> set (rw_waiters s) = asleep ps"

lemmas rw_defs = acquire_reader_def release_reader_def try_writer_def acquire_writer_def release_writer_def
  cancel_reader_def cancel_writer_def cond_wait_def notify_all_def

lemma not_asleep: "ps ! i \<noteq> RAsleep \<Longrightarrow> ps ! i \<noteq> WAsleep \<Longrightarrow> i \<notin> asleep ps"
  by (simp add: asleep_def)

lemma wake_waiters:
  assumes "rw_inv (s, ps)" "i < length ps" "ps ! i = Reading \<or> ps ! i = Writing"
  shows "wake (rw_waiters s) (ps[i := Idle]) = map wake_pc (ps[i := Idle])"
proof -
  have "i \<notin> asleep ps" using assms(3) by (auto simp: asleep_def)
  then show ?thesis using assms(1,2) by (intro wake_all) (simp add: asleep_update)
qed

lemma inv_reader_enter:
  assumes "rw_inv (s, ps)" "i < length ps" "ps ! i \<in> {Idle, RWoken}" "acquire_reader i s = (True, s')"
  shows "rw_inv (s', ps[i := Reading])"
proof -
  have "\<not> rw_writer_active s" "s' = s\<lparr>rw_readers := rw_readers s + 1\<rparr>"
    using assms(4) by (auto simp: acquire_reader_def split: if_splits)
  moreover have "i \<notin> asleep ps" using assms(3) by (auto simp: asleep_def)
  ultimately show ?thesis
    using assms(1-3) by (elim insertE emptyE) (simp_all add: cnt_update asleep_update)
qed

lemma inv_reader_wait:
  assumes "rw_inv (s, ps)" "i < length ps" "ps ! i \<in> {Idle, RWoken}" "acquire_reader i s = (False, s')"
  shows "rw_inv (s', ps[i := RAsleep])"
proof -
  have "s' = cond_wait i s" using assms(4) by (auto simp: acquire_reader_def split: if_splits)
  moreover have "i \<notin> asleep ps" using assms(3) by (auto simp: asleep_def)
  ultimately show ?thesis
    using assms(1-3) by (elim insertE emptyE) (simp_all add: cond_wait_def cnt_update asleep_update)
qed

lemma inv_reader_exit:
  assumes "rw_inv (s, ps)" "i < length ps" "ps ! i = Reading" "release_reader s = (ts, s')"
  shows "rw_inv (s', wake ts (ps[i := Idle]))"
proof (cases "rw_readers s = 1")
  case True
  have e: "ts = rw_waiters s" "s' = s\<lparr>rw_readers := 0, rw_waiters := []\<rparr>"
    using assms(4) True by (simp_all add: release_reader_def notify_all_def)
  have "wake ts (ps[i := Idle]) = map wake_pc (ps[i := Idle])"
    using wake_waiters [OF assms(1,2)] assms(3) e(1) by simp
  then show ?thesis
    using assms(1-3) True e by (simp add: cnt_wake_all cnt_update)
next
  case False
  have n: "i \<notin> asleep ps" using assms(3) by (simp add: asleep_def)
  have e: "ts = []" "s' = s\<lparr>rw_readers := rw_readers s - 1\<rparr>"
    using assms(4) False by (auto simp: release_reader_def Let_def split: if_splits)
  have "cnt Reading ps \<noteq> 0" using assms(2,3) cnt_pos [of Reading ps] by auto
  then show ?thesis
    using assms(1-3) n by (simp add: e cnt_update asleep_update)
qed

lemma try_writer_True: "try_writer i s = (True, s') \<longleftrightarrow> \<not> rw_writer_active s \<and> \<not> rw_readers s > 0
     \<and> s' = s\<lparr>rw_writer_active := True, rw_waiting_writers := rw_waiting_writers s - 1\<rparr>"
  by (auto simp: try_writer_def)

lemma inv_writer_enter:
  assumes "rw_inv (s, ps)" "i < length ps"
    "ps ! i = Idle \<and> acquire_writer i s = (True, s') \<or> ps ! i = WWoken \<and> try_writer i s = (True, s')"
  shows "rw_inv (s', ps[i := Writing])"
proof -
  have n: "i \<notin> asleep ps" using assms(3) by (auto simp: asleep_def)
  have c: "0 \<le> cnt Reading ps" by simp
  show ?thesis
    using assms(3)
  proof
    assume "ps ! i = Idle \<and> acquire_writer i s = (True, s')"
    then show ?thesis
      using assms(1,2) n c by (simp add: acquire_writer_def try_writer_True cnt_update asleep_update)
  next
    assume "ps ! i = WWoken \<and> try_writer i s = (True, s')"
    then show ?thesis
      using assms(1,2) n c by (simp add: try_writer_True cnt_update asleep_update)
  qed
qed

lemma inv_writer_wait:
  assumes "rw_inv (s, ps)" "i < length ps"
    "ps ! i = Idle \<and> acquire_writer i s = (False, s') \<or> ps ! i = WWoken \<and> try_writer i s = (False, s')"
  shows "rw_inv (s', ps[i := WAsleep])"
proof -
  have n: "i \<notin> asleep ps" using assms(3) by (auto simp: asleep_def)
  have "ps ! i = Idle \<and> s' = cond_wait i (s\<lparr>rw_waiting_writers := rw_waiting_writers s + 1\<rparr>)
      \<or> ps ! i = WWoken \<and> s' = cond_wait i s"
    using assms(3) by (auto simp: acquire_writer_def try_writer_def split: if_splits)
  then show ?thesis
    using assms(1,2) n by (elim disjE) (simp_all add: cond_wait_def cnt_update asleep_update)
qed

lemma inv_writer_exit:
  assumes "rw_inv (s, ps)" "i < length ps" "ps ! i = Writing" "release_writer s = (ts, s')"
  shows "rw_inv (s', wake ts (ps[i := Idle]))"
proof -
  have e: "ts = rw_waiters s" "s' = s\<lparr>rw_writer_active := False, rw_waiters := []\<rparr>"
    using assms(4) by (simp_all add: release_writer_def notify_all_def)
  have "wake ts (ps[i := Idle]) = map wake_pc (ps[i := Idle])"
    using wake_waiters [OF assms(1,2)] assms(3) e(1) by simp
  moreover have "cnt Writing ps \<noteq> 0" using assms(2,3) cnt_pos [of Writing ps] by auto
  then have "cnt Writing ps = 1" using assms(1) by (cases "rw_writer_active s") simp_all
  ultimately show ?thesis
    using assms(1-3) e by (simp add: cnt_wake_all cnt_update)
qed

lemma rw_step_inv: "rw_step a b \<Longrightarrow> rw_inv a \<Longrightarrow> rw_inv b"
  by (induction rule: rw_step.induct)
    (blast intro: inv_reader_enter inv_reader_wait inv_reader_exit inv_writer_enter inv_writer_wait inv_writer_exit)+

lemma rw_cancel_inv: "rw_cancel a b \<Longrightarrow> rw_inv a \<Longrightarrow> rw_inv b"
proof (induction rule: rw_cancel.induct)
  case (reader_cancel i ps s)
  then show ?case
    by (elim insertE emptyE) (simp_all add: cancel_reader_def cnt_update asleep_update)
next
  case (writer_cancel i ps s)
  then show ?case
    by (elim insertE emptyE) (simp_all add: cancel_writer_def cnt_update asleep_update)
qed

lemma rw_init_inv: "rw_inv (rwlock_init, replicate n Idle)"
  by (induction n) (simp_all add: rwlock_init_def asleep_def nth_Cons' nth_replicate)

lemma rw_any_inv: "rtranclp rw_any a b \<Longrightarrow> rw_inv a \<Longrightarrow> rw_inv b"
  by (induction rule: rtranclp_induct) (auto simp: rw_any_def intro: rw_step_inv rw_cancel_inv)

section \<open>No lost wake-up\<close>

fun rw_live :: "rw_sys \<Rightarrow> bool" where
  \<comment> \<open>when nobody holds the lock, no writer sleeps, and a reader sleeps only for a writer that is awake\<close>
  "rw_live (s, ps) \<longleftrightarrow>
     (\<not> rw_writer_active s \<and> cnt Reading ps = 0 \<longrightarrow> cnt WAsleep ps = 0 \<and> (cnt RAsleep ps \<noteq> 0 \<longrightarrow> cnt WWoken ps \<noteq> 0))"

lemma cnt_plus_1 [simp]: "cnt p ps + 1 \<noteq> 0"
  using cnt_simps(3) [of p ps] by linarith

lemma rw_step_live: "rw_step a b \<Longrightarrow> rw_inv a \<Longrightarrow> rw_live a \<Longrightarrow> rw_live b"
proof (induction rule: rw_step.induct)
  case (reader_enter i ps s s')
  then show ?case by (elim insertE emptyE) (simp_all add: cnt_update)
next
  case (reader_wait i ps s s')
  then have "s' = cond_wait i s" "rw_writer_active s \<or> cnt WAsleep ps + cnt WWoken ps > 0"
    by (auto simp: acquire_reader_def split: if_splits)
  with reader_wait show ?case
    by (elim insertE emptyE) (auto simp: cnt_update cond_wait_def)
next
  case (reader_exit i ps s ts s')
  show ?case
  proof (cases "rw_readers s = 1")
    case True
    then have "wake ts (ps[i := Idle]) = map wake_pc (ps[i := Idle])"
      using reader_exit wake_waiters [of s ps i] by (simp add: release_reader_def notify_all_def del: rw_inv.simps)
    then show ?thesis by (simp add: cnt_wake_all)
  next
    case False
    with reader_exit have "ts = []" "cnt Reading (ps[i := Idle]) \<noteq> 0"
      by (auto simp: release_reader_def Let_def cnt_update split: if_splits)
    then show ?thesis by simp
  qed
next
  case (writer_enter i ps s s')
  then show ?case by (auto simp: acquire_writer_def try_writer_True)
next
  case (writer_wait i ps s s')
  then have "rw_writer_active s' \<or> cnt Reading (ps[i := WAsleep]) \<noteq> 0"
    by (auto simp: acquire_writer_def try_writer_def cond_wait_def cnt_update split: if_splits)
  then show ?case by auto
next
  case (writer_exit i ps s ts s')
  then have "wake ts (ps[i := Idle]) = map wake_pc (ps[i := Idle])"
    using wake_waiters [of s ps i] by (simp add: release_writer_def notify_all_def del: rw_inv.simps)
  then show ?case by (simp add: cnt_wake_all)
qed

lemma rw_reach_live:
  "rtranclp rw_step (rwlock_init, replicate n Idle) b \<Longrightarrow> rw_inv b \<and> rw_live b"
proof (induction rule: rtranclp_induct)
  case base
  have "cnt p (replicate n Idle) = (if p = Idle then int n else 0)" for p by (induction n) auto
  then show ?case using rw_init_inv [of n] by simp
next
  case (step a b)
  then show ?case using rw_step_inv rw_step_live by blast
qed

text \<open>
  C39: the fields of the lock describe its users. After any interleaving of tasks, cancellations
  included, \<^verbatim>\<open>_readers\<close> is the number of tasks that read and \<^verbatim>\<open>_waiting_writers\<close> the number of
  tasks that wait to write, so that neither is ever negative; \<^verbatim>\<open>_writer_active\<close> holds exactly when
  one task writes, never two tasks write, and nobody reads while a task writes.
\<close>

theorem rw_lock_fields:
  assumes "rtranclp rw_any (rwlock_init, replicate n Idle) (s, ps)"
  shows "rw_readers s = int (count_list ps Reading)
    \<and> rw_waiting_writers s = int (count_list ps WAsleep + count_list ps WWoken)
    \<and> (rw_writer_active s \<longleftrightarrow> count_list ps Writing = 1) \<and> count_list ps Writing \<le> 1
    \<and> (count_list ps Writing = 1 \<longrightarrow> count_list ps Reading = 0)"
proof -
  have "rw_inv (s, ps)" using rw_any_inv [OF assms rw_init_inv] .
  then show ?thesis by (cases "rw_writer_active s") (simp_all add: cnt_def)
qed

lemma sample_run:
  "rw_step (rwlock_init, [Idle, Idle]) (rwlock_init\<lparr>rw_readers := 1\<rparr>, [Reading, Idle])"
  "rw_step (rwlock_init\<lparr>rw_readers := 1\<rparr>, [Reading, Idle])
     (rwlock_init\<lparr>rw_readers := 1, rw_waiting_writers := 1, rw_waiters := [1]\<rparr>, [Reading, WAsleep])"
  "rw_step (rwlock_init\<lparr>rw_readers := 1, rw_waiting_writers := 1, rw_waiters := [1]\<rparr>, [Reading, WAsleep])
     (rwlock_init\<lparr>rw_waiting_writers := 1\<rparr>, [Idle, WWoken])"
  using rw_step.reader_enter [of 0 "[Idle, Idle]" rwlock_init]
    rw_step.writer_wait [of 1 "[Reading, Idle]" "rwlock_init\<lparr>rw_readers := 1\<rparr>"]
    rw_step.reader_exit [of 0 "[Reading, WAsleep]" "rwlock_init\<lparr>rw_readers := 1, rw_waiting_writers := 1, rw_waiters := [1]\<rparr>"]
  by (simp_all add: rwlock_init_def rw_defs wake_def)

theorem rw_lock_fields_witness:
  "rw_readers (rwlock_init\<lparr>rw_readers := 1, rw_waiting_writers := 1, rw_waiters := [1]\<rparr>)
     = int (count_list [Reading, WAsleep] Reading)"
proof -
  have "replicate 2 Idle = [Idle, Idle]" by (simp add: numeral_2_eq_2)
  then have "rtranclp rw_any (rwlock_init, replicate 2 Idle)
      (rwlock_init\<lparr>rw_readers := 1, rw_waiting_writers := 1, rw_waiters := [1]\<rparr>, [Reading, WAsleep])"
    using sample_run(1,2) by (metis (no_types, lifting) converse_rtranclp_into_rtranclp r_into_rtranclp rw_any_def)
  from rw_lock_fields [OF this] show ?thesis by blast
qed

text \<open>
  C40: no wake-up is lost. As long as no task is cancelled, whenever nobody holds the lock and
  some task waits for it, a task that has been woken gets the lock at its next attempt: a
  woken writer if there is one, a woken reader otherwise.
\<close>

theorem rw_lock_no_lost_wakeup:
  assumes "rtranclp rw_step (rwlock_init, replicate n Idle) (s, ps)"
    "\<not> rw_writer_active s" "rw_readers s = 0" "i < length ps" "ps ! i \<in> {RAsleep, RWoken, WAsleep, WWoken}"
  shows "\<exists>j s'. j < length ps \<and> (ps ! j = WWoken \<and> try_writer j s = (True, s')
     \<or> ps ! j = RWoken \<and> acquire_reader j s = (True, s'))"
proof -
  have v: "rw_inv (s, ps)" "rw_live (s, ps)" using rw_reach_live [OF assms(1)] by auto
  have c: "cnt (ps ! i) ps \<noteq> 0" using cnt_pos [of "ps ! i" ps] assms(4) by auto
  show ?thesis
  proof (cases "cnt WWoken ps = 0")
    case False
    then obtain j where "j < length ps" "ps ! j = WWoken" using cnt_pos [of WWoken ps] by auto
    then show ?thesis using assms(2,3) by (auto simp: try_writer_True)
  next
    case True
    then have "cnt RWoken ps \<noteq> 0" "rw_waiting_writers s = 0" using v assms(2,3,5) c by auto
    moreover obtain j where "j < length ps" "ps ! j = RWoken" using calculation(1) cnt_pos [of RWoken ps] by auto
    ultimately show ?thesis using assms(2) by (auto simp: acquire_reader_def)
  qed
qed

theorem rw_lock_no_lost_wakeup_witness:
  "\<exists>j s'. j < length [Idle, WWoken] \<and> ([Idle, WWoken] ! j = WWoken
       \<and> try_writer j (rwlock_init\<lparr>rw_waiting_writers := 1\<rparr>) = (True, s')
     \<or> [Idle, WWoken] ! j = RWoken \<and> acquire_reader j (rwlock_init\<lparr>rw_waiting_writers := 1\<rparr>) = (True, s'))"
proof -
  have "replicate 2 Idle = [Idle, Idle]" by (simp add: numeral_2_eq_2)
  then have "rtranclp rw_step (rwlock_init, replicate 2 Idle) (rwlock_init\<lparr>rw_waiting_writers := 1\<rparr>, [Idle, WWoken])"
    using sample_run by (metis (no_types, lifting) converse_rtranclp_into_rtranclp r_into_rtranclp)
  from rw_lock_no_lost_wakeup [OF this, of 1] show ?thesis by (simp add: rwlock_init_def)
qed

section \<open>Cancellation loses a wake-up\<close>

lemma cancel_steps:
  "rw_step (rwlock_init, [Idle, Idle, Idle]) (rwlock_init\<lparr>rw_writer_active := True\<rparr>, [Writing, Idle, Idle])"
  "rw_step (rwlock_init\<lparr>rw_writer_active := True\<rparr>, [Writing, Idle, Idle])
     (rwlock_init\<lparr>rw_writer_active := True, rw_waiters := [2]\<rparr>, [Writing, Idle, RAsleep])"
  "rw_step (rwlock_init\<lparr>rw_writer_active := True, rw_waiters := [2]\<rparr>, [Writing, Idle, RAsleep])
     (rwlock_init\<lparr>rw_writer_active := True, rw_waiting_writers := 1, rw_waiters := [2, 1]\<rparr>, [Writing, WAsleep, RAsleep])"
  "rw_step (rwlock_init\<lparr>rw_writer_active := True, rw_waiting_writers := 1, rw_waiters := [2, 1]\<rparr>, [Writing, WAsleep, RAsleep])
     (rwlock_init\<lparr>rw_waiting_writers := 1\<rparr>, [Idle, WWoken, RWoken])"
  "rw_step (rwlock_init\<lparr>rw_waiting_writers := 1\<rparr>, [Idle, WWoken, RWoken])
     (rwlock_init\<lparr>rw_waiting_writers := 1, rw_waiters := [2]\<rparr>, [Idle, WWoken, RAsleep])"
  "rw_cancel (rwlock_init\<lparr>rw_waiting_writers := 1, rw_waiters := [2]\<rparr>, [Idle, WWoken, RAsleep])
     (rwlock_init\<lparr>rw_waiters := [2]\<rparr>, [Idle, Idle, RAsleep])"
  using rw_step.writer_enter [of 0 "[Idle, Idle, Idle]" rwlock_init]
    rw_step.reader_wait [of 2 "[Writing, Idle, Idle]" "rwlock_init\<lparr>rw_writer_active := True\<rparr>"]
    rw_step.writer_wait [of 1 "[Writing, Idle, RAsleep]" "rwlock_init\<lparr>rw_writer_active := True, rw_waiters := [2]\<rparr>"]
    rw_step.writer_exit [of 0 "[Writing, WAsleep, RAsleep]"
      "rwlock_init\<lparr>rw_writer_active := True, rw_waiting_writers := 1, rw_waiters := [2, 1]\<rparr>"]
    rw_step.reader_wait [of 2 "[Idle, WWoken, RWoken]" "rwlock_init\<lparr>rw_waiting_writers := 1\<rparr>"]
    rw_cancel.writer_cancel [of 1 "[Idle, WWoken, RAsleep]" "rwlock_init\<lparr>rw_waiting_writers := 1, rw_waiters := [2]\<rparr>"]
  by (simp_all add: rwlock_init_def rw_defs wake_def numeral_2_eq_2 upt_rec)

lemma cancelled_writer_strands_reader:
  \<comment> \<open>the lock is free and nobody else uses it, but a reader sleeps with nobody left to wake it\<close>
  "rtranclp rw_any (rwlock_init, replicate 3 Idle) (rwlock_init\<lparr>rw_waiters := [2]\<rparr>, [Idle, Idle, RAsleep])"
proof -
  note any = rw_any_def [THEN iffD2, OF disjI1]
  have "replicate 3 Idle = [Idle, Idle, Idle]" by (simp add: numeral_3_eq_3)
  then show ?thesis
    using cancel_steps(1-5) [THEN any] rw_any_def [THEN iffD2, OF disjI2, OF cancel_steps(6)]
    by (metis (no_types, lifting) converse_rtranclp_into_rtranclp r_into_rtranclp)
qed

end
