(* ===== verification/Input_Blocker.thy ===== *)
theory Input_Blocker
  imports Prelude
begin

text \<open>
  The gate in front of the scheduler that holds requests back while weights change:
  \<^verbatim>\<open>managers/scheduler_input_blocker.py\<close> with the barrier of \<^verbatim>\<open>poll_based_barrier.py\<close>, and the
  counter of \<^verbatim>\<open>managers/scheduler_recv_skipper.py\<close> that decides when the scheduler looks for new
  requests. The minimum over the other ranks that \<open>torch.distributed.all_reduce\<close> computes is a
  parameter of the barrier.
\<close>

section \<open>PollBasedBarrier\<close>

record poll_barrier =
  barrier_noop :: bool
  local_arrived :: bool

definition local_arrive :: "poll_barrier \<Rightarrow> poll_barrier res" where
  "local_arrive b = res_bind (py_assert (\<not> local_arrived b)) (\<lambda>_. Inr (b\<lparr>local_arrived := True\<rparr>))"

definition compute_global_arrived :: "bool \<Rightarrow> poll_barrier \<Rightarrow> bool" where
  \<comment> \<open>\<open>others\<close>: every other rank arrived\<close>
  "compute_global_arrived others b = ((barrier_noop b \<or> local_arrived b) \<and> others)"

definition poll_global_arrived :: "bool \<Rightarrow> poll_barrier \<Rightarrow> bool \<times> poll_barrier" where
  "poll_global_arrived others b =
     (let out = (local_arrived b \<and> compute_global_arrived others b)
      in (out, if out then b\<lparr>local_arrived := False\<rparr> else b))"

section \<open>SchedulerInputBlocker\<close>

datatype block_state = UNBLOCKED | BLOCKED | GLOBAL_UNBLOCK_BARRIER

datatype 'r recv_req = Block_Req | Unblock_Req | Other_Req 'r

record 'r input_blocker =
  block_state :: block_state
  pending_reqs :: "'r list"
  blocker_noop :: bool
  unblock_barrier :: poll_barrier

definition input_blocker_init :: "bool \<Rightarrow> 'r input_blocker" where
  "input_blocker_init nop = \<lparr>block_state = UNBLOCKED, pending_reqs = [], blocker_noop = nop,
     unblock_barrier = \<lparr>barrier_noop = nop, local_arrived = False\<rparr>\<rparr>"

definition change_state :: "block_state \<Rightarrow> block_state \<Rightarrow> 'r input_blocker \<Rightarrow> 'r input_blocker res" where
  "change_state original target s =
     res_bind (py_assert (block_state s = original)) (\<lambda>_. Inr (s\<lparr>block_state := target\<rparr>))"

definition execute_block_req :: "'r input_blocker \<Rightarrow> 'r input_blocker res" where
  "execute_block_req s = change_state UNBLOCKED BLOCKED s"

definition execute_unblock_req :: "'r input_blocker \<Rightarrow> 'r input_blocker res" where
  "execute_unblock_req s =
     res_bind (change_state BLOCKED GLOBAL_UNBLOCK_BARRIER s) (\<lambda>s1.
     res_bind (local_arrive (unblock_barrier s1)) (\<lambda>b. Inr (s1\<lparr>unblock_barrier := b\<rparr>)))"

fun handle_recv_req :: "'r recv_req \<Rightarrow> 'r input_blocker \<Rightarrow> ('r list \<times> 'r input_blocker) res" where
  "handle_recv_req Block_Req s = res_bind (execute_block_req s) (\<lambda>s1. Inr ([], s1))"
| "handle_recv_req Unblock_Req s = res_bind (execute_unblock_req s) (\<lambda>s1. Inr ([], s1))"
| "handle_recv_req (Other_Req r) s =
     (if block_state s = UNBLOCKED then Inr ([r], s)
      else Inr ([], s\<lparr>pending_reqs := pending_reqs s @ [r]\<rparr>))"

definition handle_arrive_unblock_barrier :: "'r input_blocker \<Rightarrow> ('r list \<times> 'r input_blocker) res" where
  "handle_arrive_unblock_barrier s =
     res_bind (change_state GLOBAL_UNBLOCK_BARRIER UNBLOCKED s) (\<lambda>s1.
     Inr (pending_reqs s1, s1\<lparr>pending_reqs := []\<rparr>))"

fun handle_all :: "'r recv_req list \<Rightarrow> 'r input_blocker \<Rightarrow> ('r list \<times> 'r input_blocker) res" where
  \<comment> \<open>the loop of \<open>handle\<close>\<close>
  "handle_all [] s = Inr ([], s)"
| "handle_all (q # qs) s =
     res_bind (handle_recv_req q s) (\<lambda>(out, s1).
     res_bind (handle_all qs s1) (\<lambda>(outs, s2). Inr (out @ outs, s2)))"

definition blocker_handle :: "bool \<Rightarrow> 'r recv_req list option \<Rightarrow> 'r input_blocker \<Rightarrow> ('r list option \<times> 'r input_blocker) res" where
  \<comment> \<open>\<open>handle\<close>; a blocker that does nothing has no list of outputs, and extending it raises\<close>
  "blocker_handle others recv_reqs s =
     res_bind (py_assert ((recv_reqs = None) = blocker_noop s)) (\<lambda>_.
     res_bind (case recv_reqs of None \<Rightarrow> Inr ([], s) | Some qs \<Rightarrow> handle_all qs s) (\<lambda>(out, s1).
     let (arrived, b) = poll_global_arrived others (unblock_barrier s1);
         s2 = s1\<lparr>unblock_barrier := b\<rparr>
     in if block_state s2 = GLOBAL_UNBLOCK_BARRIER \<and> arrived then
          if recv_reqs = None then Inl RuntimeError
          else res_bind (handle_arrive_unblock_barrier s2) (\<lambda>(more, s3). Inr (Some (out @ more), s3))
        else Inr (if recv_reqs = None then None else Some out, s2)))"

section \<open>SchedulerRecvSkipper\<close>

datatype skip_mode = Skip_Decode | Skip_Target_Verify | Skip_None | Skip_Other

record recv_skipper =
  skip_counter :: int
  skip_threshold :: int

definition skipper_maybe_create :: "bool \<Rightarrow> int \<Rightarrow> recv_skipper option res" where
  "skipper_maybe_create enable_dp_attention scheduler_recv_interval =
     (if scheduler_recv_interval \<le> 1 then Inr None
      else res_bind (py_assert (\<not> enable_dp_attention)) (\<lambda>_.
        Inr (Some \<lparr>skip_counter = 0, skip_threshold = scheduler_recv_interval\<rparr>)))"

definition weight_of_forward_mode :: "skip_mode \<Rightarrow> int" where
  "weight_of_forward_mode m = (case m of Skip_Other \<Rightarrow> 1000 | _ \<Rightarrow> 1)"

definition skipper_handle :: "skip_mode \<Rightarrow> recv_skipper \<Rightarrow> bool \<times> recv_skipper" where
  "skipper_handle m s =
     (let c = skip_counter s + weight_of_forward_mode m
      in if c \<ge> skip_threshold s then (True, s\<lparr>skip_counter := 0\<rparr>) else (False, s\<lparr>skip_counter := c\<rparr>))"

section \<open>Requests pass in order\<close>

definition blocker_ok :: "'r input_blocker \<Rightarrow> bool" where
  \<comment> \<open>an open gate holds nothing back, and the barrier is armed exactly when the gate waits for it\<close>
  "blocker_ok s \<longleftrightarrow> (block_state s = UNBLOCKED \<longrightarrow> pending_reqs s = [])
     \<and> (local_arrived (unblock_barrier s) \<longleftrightarrow> block_state s = GLOBAL_UNBLOCK_BARRIER)"

definition other_reqs :: "'r recv_req list \<Rightarrow> 'r list" where
  "other_reqs qs = concat (map (\<lambda>q. case q of Other_Req r \<Rightarrow> [r] | _ \<Rightarrow> []) qs)"

lemma handle_recv_req_fifo:
  assumes "handle_recv_req q s = Inr (out, s')" "blocker_ok s"
  shows "out @ pending_reqs s' = pending_reqs s @ other_reqs [q] \<and> blocker_ok s' \<and> blocker_noop s' = blocker_noop s"
  using assms
  by (cases q) (auto simp: blocker_ok_def other_reqs_def execute_block_req_def execute_unblock_req_def
      change_state_def local_arrive_def res_simps split: if_splits)

lemma handle_all_fifo:
  assumes "handle_all qs s = Inr (out, s')" "blocker_ok s"
  shows "out @ pending_reqs s' = pending_reqs s @ other_reqs qs \<and> blocker_ok s' \<and> blocker_noop s' = blocker_noop s"
  using assms
proof (induction qs arbitrary: s out)
  case Nil
  then show ?case by (simp add: other_reqs_def)
next
  case (Cons q qs)
  then obtain o1 s1 o2 where e: "handle_recv_req q s = Inr (o1, s1)" "handle_all qs s1 = Inr (o2, s')" "out = o1 @ o2"
    by (auto simp: res_simps)
  note q = handle_recv_req_fifo [OF e(1) Cons.prems(2)]
  have "o1 @ (o2 @ pending_reqs s') = o1 @ pending_reqs s1 @ other_reqs qs" using Cons.IH [OF e(2)] q by simp
  also have "\<dots> = pending_reqs s @ other_reqs (q # qs)" using q by (simp add: other_reqs_def)
  finally show ?case using e(3) Cons.IH [OF e(2)] q by simp
qed

theorem blocker_handle_fifo:
  \<comment> \<open>no request is lost, duplicated or overtaken: what leaves and what is still held back is what was
    held back followed by what arrived, and everything leaves once every rank reached the barrier\<close>
  assumes "blocker_handle others (Some qs) s = Inr (out, s')" "blocker_ok s"
  shows "\<exists>outs. out = Some outs \<and> outs @ pending_reqs s' = pending_reqs s @ other_reqs qs \<and> blocker_ok s'
     \<and> (others \<longrightarrow> block_state s' \<noteq> GLOBAL_UNBLOCK_BARRIER)"
proof -
  obtain o1 s1 where e: "handle_all qs s = Inr (o1, s1)" using assms(1) by (auto simp: blocker_handle_def res_simps)
  note f = handle_all_fifo [OF e assms(2)]
  show ?thesis
    using assms(1) f
    by (auto simp: blocker_handle_def e res_simps poll_global_arrived_def compute_global_arrived_def blocker_ok_def
        handle_arrive_unblock_barrier_def change_state_def Let_def split: if_splits)
qed

lemma skipper_bounded:
  \<comment> \<open>the counter stays below the threshold, so that requests are looked for at least every \<open>threshold\<close> rounds\<close>
  assumes "0 \<le> skip_counter s" "skip_counter s < skip_threshold s" "skipper_handle m s = (b, s')"
  shows "0 \<le> skip_counter s' \<and> skip_counter s' < skip_threshold s' \<and> (b \<or> skip_counter s < skip_counter s')"
  using assms by (cases m) (auto simp: skipper_handle_def weight_of_forward_mode_def Let_def split: if_splits)

end
