(* ===== verification/Multimodal_Cache.thy ===== *)
theory Multimodal_Cache
  imports Main "HOL-Library.AList"
begin

text \<open>
  The cache of encoder results of \<^verbatim>\<open>mem_cache/multimodal_cache.py\<close>: an ordered dictionary with a
  budget of bytes from which the oldest entries are evicted. The recorded size is the size of
  the entries as long as every hash is put once; putting a hash that is present counts it twice.
\<close>

record embedding =
  element_size :: nat
  numel :: nat

record mm_cache =
  mm_max_size :: int
  mm_entries :: "(int \<times> embedding) list"
  mm_current_size :: int

definition mm_init :: "int \<Rightarrow> mm_cache" where
  "mm_init max_size = \<lparr>mm_max_size = max_size, mm_entries = [], mm_current_size = 0\<rparr>"

definition get_tensor_size :: "embedding \<Rightarrow> int" where
  "get_tensor_size e = int (element_size e * numel e)"

fun mm_evict :: "int \<Rightarrow> int \<Rightarrow> (int \<times> embedding) list \<Rightarrow> int \<Rightarrow> (int \<times> embedding) list \<times> int" where
  \<comment> \<open>the loop of \<open>_allocate\<close>: the oldest entry is the first one\<close>
  "mm_evict embedding_size max_size [] sz = ([], sz)"
| "mm_evict embedding_size max_size ((k, e) # es) sz =
     (if sz + embedding_size > max_size then mm_evict embedding_size max_size es (sz - get_tensor_size e)
      else ((k, e) # es, sz))"

definition mm_allocate :: "int \<Rightarrow> mm_cache \<Rightarrow> bool \<times> mm_cache" where
  "mm_allocate embedding_size c =
     (let (es, sz) = mm_evict embedding_size (mm_max_size c) (mm_entries c) (mm_current_size c)
      in (\<not> sz + embedding_size > mm_max_size c, c\<lparr>mm_entries := es, mm_current_size := sz\<rparr>))"

definition mm_put :: "int \<Rightarrow> embedding \<Rightarrow> mm_cache \<Rightarrow> bool \<times> mm_cache" where
  "mm_put mm_hash e c =
     (let (ok, c1) = mm_allocate (get_tensor_size e) c
      in if \<not> ok then (False, c1)
         else (True, c1\<lparr>mm_entries := AList.update mm_hash e (mm_entries c1),
                        mm_current_size := mm_current_size c1 + get_tensor_size e\<rparr>))"

definition mm_has :: "int \<Rightarrow> mm_cache \<Rightarrow> bool" where
  "mm_has mm_hash c = (map_of (mm_entries c) mm_hash \<noteq> None)"

definition mm_get :: "int \<Rightarrow> mm_cache \<Rightarrow> embedding option \<times> mm_cache" where
  "mm_get mm_hash c =
     (case map_of (mm_entries c) mm_hash of
        None \<Rightarrow> (None, c)
      | Some e \<Rightarrow> (Some e, c\<lparr>mm_entries := AList.delete mm_hash (mm_entries c) @ [(mm_hash, e)]\<rparr>))"

definition mm_clear :: "mm_cache \<Rightarrow> mm_cache" where
  "mm_clear c = c\<lparr>mm_entries := [], mm_current_size := 0\<rparr>"

section \<open>The recorded size\<close>

definition entries_size :: "(int \<times> embedding) list \<Rightarrow> int" where
  "entries_size es = sum_list (map (get_tensor_size \<circ> snd) es)"

definition mm_ok :: "mm_cache \<Rightarrow> bool" where
  "mm_ok c \<longleftrightarrow> distinct (map fst (mm_entries c)) \<and> mm_current_size c = entries_size (mm_entries c)
     \<and> mm_current_size c \<le> mm_max_size c"

lemma entries_size_simps [simp]:
  "entries_size [] = 0" "entries_size (p # es) = get_tensor_size (snd p) + entries_size es"
  "entries_size (xs @ ys) = entries_size xs + entries_size ys"
  by (simp_all add: entries_size_def)

lemma entries_size_nonneg: "0 \<le> entries_size es"
  by (induction es) (simp_all add: get_tensor_size_def)

lemma mm_evict_suffix:
  assumes "mm_evict n m es (entries_size es) = (es', sz)"
  shows "\<exists>old. es = old @ es' \<and> sz = entries_size es' \<and> (sz + n \<le> m \<or> es' = [])"
  using assms
proof (induction es)
  case (Cons p es)
  obtain k e where p: "p = (k, e)" by (cases p)
  show ?case
  proof (cases "entries_size (p # es) + n > m")
    case True
    then have "mm_evict n m es (entries_size es) = (es', sz)" using Cons.prems p by simp
    from Cons.IH [OF this] obtain old where "es = old @ es'" "sz = entries_size es'" "sz + n \<le> m \<or> es' = []"
      by blast
    then have "p # es = (p # old) @ es'" by simp
    then show ?thesis using \<open>sz = entries_size es'\<close> \<open>sz + n \<le> m \<or> es' = []\<close> by blast
  next
    case False
    then have "es' = p # es" "sz = entries_size (p # es)" using Cons.prems p by auto
    then show ?thesis using False by auto
  qed
qed simp

lemma update_new: "k \<notin> fst ` set es \<Longrightarrow> AList.update k v es = es @ [(k, v)]"
  by (induction es) auto

lemma mm_put_new:
  \<comment> \<open>a hash that is absent: it fits exactly when it fits into an empty cache, the oldest entries make room
    and the recorded size stays the size of the entries\<close>
  assumes "mm_ok c" "\<not> mm_has k c" "mm_put k e c = (ok, c')" "0 \<le> mm_max_size c"
  shows "mm_ok c' \<and> (ok \<longleftrightarrow> get_tensor_size e \<le> mm_max_size c)
     \<and> (ok \<longrightarrow> (\<exists>old kept. mm_entries c = old @ kept \<and> mm_entries c' = kept @ [(k, e)]))"
proof -
  obtain es sz where ev: "mm_evict (get_tensor_size e) (mm_max_size c) (mm_entries c) (mm_current_size c) = (es, sz)"
    by (cases "mm_evict (get_tensor_size e) (mm_max_size c) (mm_entries c) (mm_current_size c)")
  then obtain old where old: "mm_entries c = old @ es" "sz = entries_size es" "sz + get_tensor_size e \<le> mm_max_size c \<or> es = []"
    using mm_evict_suffix assms(1) by (metis mm_ok_def)
  have k: "k \<notin> fst ` set es" using assms(2) old(1) by (auto simp: mm_has_def map_of_eq_None_iff)
  have pos: "0 \<le> entries_size es" "0 \<le> get_tensor_size e" "0 \<le> entries_size old"
    using entries_size_nonneg by (auto simp: get_tensor_size_def)
  have put: "(ok, c') = (if sz + get_tensor_size e \<le> mm_max_size c
      then (True, c\<lparr>mm_entries := es @ [(k, e)], mm_current_size := sz + get_tensor_size e\<rparr>)
      else (False, c\<lparr>mm_entries := es, mm_current_size := sz\<rparr>))"
    using assms(3) by (auto simp: mm_put_def mm_allocate_def ev update_new [OF k])
  have d: "distinct (map fst es)" using assms(1) old(1) by (simp add: mm_ok_def)
  show ?thesis
  proof (cases "sz + get_tensor_size e \<le> mm_max_size c")
    case True
    then show ?thesis using put old k d pos by (auto simp: mm_ok_def)
  next
    case False
    then show ?thesis using put old d pos assms(4) by (auto simp: mm_ok_def)
  qed
qed

lemma mm_put_twice:
  \<comment> \<open>putting a hash that is present: one entry, counted twice\<close>
  assumes "2 * get_tensor_size e \<le> m" "0 \<le> get_tensor_size e"
  shows "mm_put k e (snd (mm_put k e (mm_init m)))
     = (True, \<lparr>mm_max_size = m, mm_entries = [(k, e)], mm_current_size = 2 * get_tensor_size e\<rparr>)"
  using assms by (simp add: mm_put_def mm_allocate_def mm_init_def)

end
