(* ===== verification/Reasoning_Parser.thy ===== *)
theory Reasoning_Parser
  imports Prelude Py_Text
begin

text \<open>
  Splitting a model's output into reasoning and answer, after \<^verbatim>\<open>reasoning_parser.py\<close>: the base
  detector with its one-shot and its streaming interface, the detectors built on it and the choice
  of a detector by model type. The detector of the harmony format is built on another parser and
  stands as a separate value of the choice.
\<close>

section \<open>BaseReasoningFormatDetector\<close>

record parse_result =
  normal_text :: "text"
  reasoning_text :: "text"

record detector =
  think_start_token :: "text"
  think_end_token :: "text"
  in_reasoning :: bool
  stream_reasoning :: bool
  parse_buffer :: "text"
  stripped_think_start :: bool

definition new_base_detector :: "text \<Rightarrow> text \<Rightarrow> bool \<Rightarrow> bool \<Rightarrow> detector" where
  "new_base_detector start_tok end_tok force_reasoning streamed =
     \<lparr>think_start_token = start_tok, think_end_token = end_tok, in_reasoning = force_reasoning,
      stream_reasoning = streamed, parse_buffer = [], stripped_think_start = False\<rparr>"

definition detect_and_parse :: "text \<Rightarrow> detector \<Rightarrow> parse_result" where
  "detect_and_parse t d =
     (if \<not> (in_reasoning d \<or> contains (think_start_token d) t)
      then \<lparr>normal_text = t, reasoning_text = []\<rparr>
      else let processed_text = strip (replace_all (think_start_token d) [] t)
      in (case find_sub (think_end_token d) processed_text of
            None \<Rightarrow> \<lparr>normal_text = [], reasoning_text = processed_text\<rparr>
          | Some i \<Rightarrow> \<lparr>normal_text = strip (drop (i + length (think_end_token d)) processed_text),
                       reasoning_text = take i processed_text\<rparr>))"

definition keep_buffering :: "text \<Rightarrow> detector \<Rightarrow> bool" where
  \<comment> \<open>the text is a proper prefix of a tag\<close>
  "keep_buffering current_text d =
     list_ex (\<lambda>tok. starts_with current_text tok \<and> tok \<noteq> current_text) [think_start_token d, think_end_token d]"

definition strip_start :: "text \<Rightarrow> detector \<Rightarrow> text \<times> detector" where
  "strip_start current_text d =
     (if \<not> stripped_think_start d \<and> contains (think_start_token d) current_text
      then (replace_all (think_start_token d) [] current_text, d\<lparr>stripped_think_start := True, in_reasoning := True\<rparr>)
      else (current_text, d))"

definition parse_streaming_increment :: "text \<Rightarrow> detector \<Rightarrow> parse_result \<times> detector" where
  "parse_streaming_increment new_text d0 =
     (let d1 = d0\<lparr>parse_buffer := parse_buffer d0 @ new_text\<rparr>
      in if keep_buffering (parse_buffer d1) d1 then (\<lparr>normal_text = [], reasoning_text = []\<rparr>, d1)
      else let (current_text, d) = strip_start (parse_buffer d1) d1
      in case (if in_reasoning d then find_sub (think_end_token d) current_text else None) of
           Some end_idx \<Rightarrow>
             (\<lparr>normal_text = drop (end_idx + length (think_end_token d)) current_text,
               reasoning_text = rstrip (take end_idx current_text)\<rparr>,
              d\<lparr>parse_buffer := [], in_reasoning := False\<rparr>)
         | None \<Rightarrow>
             if in_reasoning d then
               if stream_reasoning d
               then (\<lparr>normal_text = [], reasoning_text = current_text\<rparr>, d\<lparr>parse_buffer := []\<rparr>)
               else (\<lparr>normal_text = [], reasoning_text = []\<rparr>, d)
             else (\<lparr>normal_text = current_text, reasoning_text = []\<rparr>, d\<lparr>parse_buffer := []\<rparr>))"

section \<open>Detectors and their choice\<close>

definition deepseek_r1_detector :: "bool \<Rightarrow> bool \<Rightarrow> detector" where
  \<comment> \<open>the argument \<open>force_reasoning\<close> is not used\<close>
  "deepseek_r1_detector streamed force_reasoning = new_base_detector (str ''<think>'') (str ''</think>'') True streamed"

definition qwen3_detector :: "bool \<Rightarrow> bool \<Rightarrow> detector" where
  "qwen3_detector streamed force_reasoning = new_base_detector (str ''<think>'') (str ''</think>'') force_reasoning streamed"

definition kimi_detector :: "bool \<Rightarrow> bool \<Rightarrow> detector" where
  \<comment> \<open>the tags are written with the triangles 9665 and 9655; the argument \<open>force_reasoning\<close> is not used\<close>
  "kimi_detector streamed force_reasoning =
     new_base_detector ([9665] @ str ''think'' @ [9655]) ([9665] @ str ''/think'' @ [9655]) False streamed"

datatype detector_class = DeepSeekR1 | Qwen3 | Kimi | GptOss

definition detector_map :: "(text \<times> detector_class) list" where
  "detector_map =
     [(str ''deepseek-r1'', DeepSeekR1), (str ''deepseek-v3'', Qwen3), (str ''glm45'', Qwen3), (str ''gpt-oss'', GptOss),
      (str ''kimi'', Kimi), (str ''qwen3'', Qwen3), (str ''qwen3-thinking'', Qwen3), (str ''step3'', DeepSeekR1)]"

definition new_reasoning_parser :: "text option \<Rightarrow> bool \<Rightarrow> bool option \<Rightarrow> detector option res" where
  \<comment> \<open>\<open>None\<close> stands for the detector of the harmony format\<close>
  "new_reasoning_parser model_type streamed force_reasoning =
     (case model_type of
        None \<Rightarrow> Inl ValueError
      | Some mt \<Rightarrow>
          if mt = [] then Inl ValueError
          else (case map_of detector_map (lower mt) of
              None \<Rightarrow> Inl ValueError
            | Some cls \<Rightarrow>
                let force = (if lower mt \<in> {str ''qwen3-thinking'', str ''gpt-oss''} then Some True else force_reasoning)
                in Inr (case cls of
                     DeepSeekR1 \<Rightarrow> Some (deepseek_r1_detector streamed (case force of None \<Rightarrow> True | Some b \<Rightarrow> b))
                   | Qwen3 \<Rightarrow> Some (qwen3_detector streamed (case force of None \<Rightarrow> False | Some b \<Rightarrow> b))
                   | Kimi \<Rightarrow> Some (kimi_detector streamed (case force of None \<Rightarrow> False | Some b \<Rightarrow> b))
                   | GptOss \<Rightarrow> None)))"

section \<open>What the two interfaces return\<close>

lemma detect_formatted:
  \<comment> \<open>one-shot parsing of a reasoning block followed by an answer, with each tag exactly once\<close>
  assumes s: "think_start_token d \<noteq> []" and e: "think_end_token d \<noteq> []"
    and no_start: "\<not> contains (think_start_token d) (r @ think_end_token d @ n)"
    and no_end: "\<not> contains (think_end_token d) (r @ butlast (think_end_token d))"
    and trimmed: "strip (r @ think_end_token d @ n) = r @ think_end_token d @ n"
  shows "detect_and_parse (think_start_token d @ r @ think_end_token d @ n) d
     = \<lparr>normal_text = strip n, reasoning_text = r\<rparr>"
proof -
  let ?t = "think_start_token d @ r @ think_end_token d @ n"
  have "replace_all (think_start_token d) [] ?t = r @ think_end_token d @ n"
    using replace_first [OF s find_sub_here] replace_none [OF s no_start] by simp
  moreover have "contains (think_start_token d) ?t" by (metis append_Nil contains_iff)
  ultimately show ?thesis
    using find_sub_unique [OF no_end e] by (simp add: detect_and_parse_def trimmed)
qed

lemma detect_unforced_plain:
  "\<not> in_reasoning d \<Longrightarrow> \<not> contains (think_start_token d) t \<Longrightarrow>
     detect_and_parse t d = \<lparr>normal_text = t, reasoning_text = []\<rparr>"
  by (simp add: detect_and_parse_def)

lemma stream_after_end:
  \<comment> \<open>after the end tag everything is passed on as normal text, except that a chunk that could begin a tag is held back\<close>
  assumes "\<not> in_reasoning d" "stripped_think_start d" "parse_buffer d = []" "\<not> keep_buffering t d"
  shows "parse_streaming_increment t d = (\<lparr>normal_text = t, reasoning_text = []\<rparr>, d)"
  using assms by (cases d) (auto simp: parse_streaming_increment_def strip_start_def keep_buffering_def Let_def)

lemma stream_formatted_chunk:
  \<comment> \<open>a chunk of the reasoning block that contains the end tag ends the block\<close>
  assumes d: "in_reasoning d" "stripped_think_start d" "parse_buffer d = []" and e: "think_end_token d \<noteq> []"
    and no_end: "\<not> contains (think_end_token d) (r @ butlast (think_end_token d))"
    and whole: "\<not> keep_buffering (r @ think_end_token d @ n) d"
  shows "parse_streaming_increment (r @ think_end_token d @ n) d
     = (\<lparr>normal_text = n, reasoning_text = rstrip r\<rparr>, d\<lparr>parse_buffer := [], in_reasoning := False\<rparr>)"
  using d whole find_sub_unique [OF no_end e]
  by (auto simp: parse_streaming_increment_def strip_start_def keep_buffering_def Let_def)

lemma split_end_tag_missed:
  \<comment> \<open>an end tag that is split between two chunks after other text is not recognised: the answer is reported as
    reasoning, while one-shot parsing of the same text finds it\<close>
  "(let d = deepseek_r1_detector True True;
        (p1, d1) = parse_streaming_increment (str ''abc</th'') d;
        (p2, d2) = parse_streaming_increment (str ''ink>42'') d1
    in normal_text p1 = [] \<and> normal_text p2 = [] \<and> reasoning_text p2 = str ''ink>42'' \<and> in_reasoning d2)"
  "normal_text (detect_and_parse (str ''abc</think>42'') (deepseek_r1_detector True True)) = str ''42''"
  by (simp_all add: Let_def deepseek_r1_detector_def new_base_detector_def parse_streaming_increment_def strip_start_def
      keep_buffering_def str_def starts_with_def contains_def detect_and_parse_def replace_all_def replace_nonempty.simps
      strip_def lstrip_def rstrip_def is_space_def)

end
