(* ===== verification/Detokenizer.thy ===== *)
theory Detokenizer
  imports Prelude Py_Text "HOL-Library.AList"
begin

text \<open>
  The detokenizer of \<^verbatim>\<open>managers/detokenizer_manager.py\<close>: the dictionary of decode states with its
  capacity, the trimming of stop strings and stop tokens, and the handler that turns a batch of new
  token ids into pieces of text. The tokenizer is a parameter: what \<open>batch_decode\<close> makes of one list
  of token ids, given its two flags. A batch is a list with one record per request, where the code
  has one list per field. The messages that pass through unchanged and the socket loop are left out.
\<close>

section \<open>Printable text\<close>

definition is_chinese_char :: "nat \<Rightarrow> bool" where
  "is_chinese_char cp \<longleftrightarrow>
     0x4E00 \<le> cp \<and> cp \<le> 0x9FFF \<or> 0x3400 \<le> cp \<and> cp \<le> 0x4DBF \<or> 0x20000 \<le> cp \<and> cp \<le> 0x2A6DF
     \<or> 0x2A700 \<le> cp \<and> cp \<le> 0x2B73F \<or> 0x2B740 \<le> cp \<and> cp \<le> 0x2B81F \<or> 0x2B820 \<le> cp \<and> cp \<le> 0x2CEAF
     \<or> 0xF900 \<le> cp \<and> cp \<le> 0xFAFF \<or> 0x2F800 \<le> cp \<and> cp \<le> 0x2FA1F"

definition until_last_space :: "text \<Rightarrow> text" where
  \<comment> \<open>\<open>text[: text.rfind(" ") + 1]\<close>\<close>
  "until_last_space t = rev (dropWhile (\<lambda>c. c \<noteq> 32) (rev t))"

definition find_printable_text :: "text \<Rightarrow> text" where
  "find_printable_text t =
     (if ends_with [10] t then t
      else if length t > 0 \<and> is_chinese_char (last t) then t
      else if length t > 1 \<and> is_chinese_char (last (butlast t)) then butlast t
      else until_last_space t)"

section \<open>States\<close>

record decode_status =
  ds_decoded_text :: "text"
  ds_decode_ids :: "int list"
  ds_surr_offset :: nat
  ds_read_offset :: nat
  ds_sent_offset :: nat

record status_dict =
  dict_capacity :: int
  dict_items :: "(text \<times> decode_status) list"

definition dict_setitem :: "text \<Rightarrow> decode_status \<Rightarrow> status_dict \<Rightarrow> status_dict res" where
  \<comment> \<open>\<open>LimitedCapacityDict.__setitem__\<close>; removing from an empty dictionary raises\<close>
  "dict_setitem k v d =
     (if int (length (dict_items d)) \<ge> dict_capacity d
      then if dict_items d = [] then Inl KeyError
           else Inr (d\<lparr>dict_items := AList.update k v (tl (dict_items d))\<rparr>)
      else Inr (d\<lparr>dict_items := AList.update k v (dict_items d)\<rparr>))"

section \<open>Trimming\<close>

datatype matched = Matched_Str "text" | Matched_Int int | Matched_Ids "int list"

record finish_info =
  fin_matched :: "matched option"

definition truthy_matched :: "finish_info option \<Rightarrow> bool \<Rightarrow> matched option" where
  \<comment> \<open>the guards of \<open>trim_matched_stop\<close>: what is left to trim\<close>
  "truthy_matched finished_reason no_stop_trim =
     (if no_stop_trim then None
      else case finished_reason of
        None \<Rightarrow> None
      | Some f \<Rightarrow>
          (case fin_matched f of
             None \<Rightarrow> None
           | Some (Matched_Str s) \<Rightarrow> if s = [] then None else Some (Matched_Str s)
           | Some (Matched_Int i) \<Rightarrow> if i = 0 then None else Some (Matched_Int i)
           | Some (Matched_Ids is) \<Rightarrow> if is = [] then None else Some (Matched_Ids is)))"

definition trim_stop_str :: "text \<Rightarrow> finish_info option \<Rightarrow> bool \<Rightarrow> text" where
  "trim_stop_str out finished_reason no_stop_trim =
     (case truthy_matched finished_reason no_stop_trim of
        Some (Matched_Str s) \<Rightarrow> (case find_sub s out of Some pos \<Rightarrow> take pos out | None \<Rightarrow> out)
      | _ \<Rightarrow> out)"

definition trim_stop_ids :: "bool \<Rightarrow> int list \<Rightarrow> finish_info option \<Rightarrow> bool \<Rightarrow> int list res" where
  "trim_stop_ids gpt_oss out finished_reason no_stop_trim =
     (case truthy_matched finished_reason no_stop_trim of
        Some (Matched_Int i) \<Rightarrow>
          if out = [] then Inl IndexError
          else if last out = 200012 \<and> gpt_oss then Inr out
          else Inr (butlast out)
      | _ \<Rightarrow> Inr out)"

section \<open>The handler\<close>

record token_out =
  out_rid :: "text"
  out_finished_reason :: "finish_info option"
  out_decoded_text :: "text"
  out_decode_ids :: "int list"
  out_read_offset :: nat
  out_skip_special_tokens :: bool
  out_spaces_between_special_tokens :: bool
  out_no_stop_trim :: bool

definition init_status :: "token_out \<Rightarrow> status_dict \<Rightarrow> (decode_status \<times> status_dict) res" where
  \<comment> \<open>the first half of the first loop's body\<close>
  "init_status o1 d =
     (case map_of (dict_items d) (out_rid o1) of
        None \<Rightarrow>
          let s = \<lparr>ds_decoded_text = out_decoded_text o1, ds_decode_ids = out_decode_ids o1, ds_surr_offset = 0,
                   ds_read_offset = out_read_offset o1, ds_sent_offset = 0\<rparr>
          in res_bind (dict_setitem (out_rid o1) s d) (\<lambda>d1. Inr (s, d1))
      | Some s \<Rightarrow>
          let s1 = s\<lparr>ds_decode_ids := ds_decode_ids s @ out_decode_ids o1\<rparr>
          in Inr (s1, d\<lparr>dict_items := AList.update (out_rid o1) s1 (dict_items d)\<rparr>))"

fun read_loop :: "bool \<Rightarrow> token_out list \<Rightarrow> status_dict \<Rightarrow> ((int list \<times> int list) list \<times> status_dict) res" where
  \<comment> \<open>the first loop: \<open>read_ids\<close> and \<open>surr_ids\<close> per request\<close>
  "read_loop gpt_oss [] d = Inr ([], d)"
| "read_loop gpt_oss (o1 # os) d =
     res_bind (init_status o1 d) (\<lambda>(s, d1).
     res_bind (trim_stop_ids gpt_oss (drop (ds_surr_offset s) (ds_decode_ids s)) (out_finished_reason o1)
         (out_no_stop_trim o1)) (\<lambda>read_ids.
     res_bind (read_loop gpt_oss os d1) (\<lambda>(rest, d2).
     Inr ((read_ids, slice (ds_surr_offset s) (ds_read_offset s) (ds_decode_ids s)) # rest, d2))))"

definition advance_status :: "bool \<Rightarrow> text \<Rightarrow> decode_status \<Rightarrow> text \<times> decode_status" where
  \<comment> \<open>the offsets after new text, and the text that is not settled yet\<close>
  "advance_status finished new_text s =
     (if finished then (new_text, s)
      else if length new_text > 0 \<and> \<not> ends_with [65533] new_text
      then ([], s\<lparr>ds_decoded_text := ds_decoded_text s @ new_text, ds_surr_offset := ds_read_offset s,
                  ds_read_offset := length (ds_decode_ids s)\<rparr>)
      else (find_printable_text new_text, s))"

definition emit :: "token_out \<Rightarrow> text \<Rightarrow> decode_status \<Rightarrow> text \<times> decode_status" where
  \<comment> \<open>the piece of text of one request\<close>
  "emit o1 new_text s =
     (let (pending, s1) = advance_status (out_finished_reason o1 \<noteq> None) new_text s;
          output_str = trim_stop_str (ds_decoded_text s1 @ pending) (out_finished_reason o1) (out_no_stop_trim o1)
      in (drop (ds_sent_offset s1) output_str, s1\<lparr>ds_sent_offset := length output_str\<rparr>))"

fun emit_loop :: "(int list \<Rightarrow> text) \<Rightarrow> token_out list \<Rightarrow> (int list \<times> int list) list \<Rightarrow> status_dict
    \<Rightarrow> (text list \<times> status_dict) res" where
  \<comment> \<open>the second loop; a state that was evicted in the meantime raises\<close>
  "emit_loop dec (o1 # os) ((read_ids, surr_ids) # ids) d =
     (case map_of (dict_items d) (out_rid o1) of
        None \<Rightarrow> Inl RuntimeError
      | Some s \<Rightarrow>
          let (out, s1) = emit o1 (drop (length (dec surr_ids)) (dec read_ids)) s;
              d1 = d\<lparr>dict_items := AList.update (out_rid o1) s1 (dict_items d)\<rparr>
          in res_bind (emit_loop dec os ids d1) (\<lambda>(outs, d2). Inr (out # outs, d2)))"
| "emit_loop dec _ _ d = Inr ([], d)"

definition handle_batch_token_id_out :: "bool \<Rightarrow> (bool \<Rightarrow> bool \<Rightarrow> int list \<Rightarrow> text) \<Rightarrow> token_out list
    \<Rightarrow> status_dict \<Rightarrow> (text list \<times> status_dict) res" where
  \<comment> \<open>the decoding flags are those of the first request; an empty batch has none\<close>
  "handle_batch_token_id_out gpt_oss dec os d =
     res_bind (read_loop gpt_oss os d) (\<lambda>(ids, d1).
       case os of
         [] \<Rightarrow> Inl IndexError
       | o1 # _ \<Rightarrow> emit_loop (dec (out_skip_special_tokens o1) (out_spaces_between_special_tokens o1)) os ids d1)"

section \<open>The dictionary\<close>

lemma length_update: "length (AList.update k v al) = length al + (if k \<in> fst ` set al then 0 else 1)"
  by (induction al) auto

lemma dict_setitem_bound:
  \<comment> \<open>the dictionary never grows beyond its capacity, and has what was put last\<close>
  assumes "dict_setitem k v d = Inr d'" "int (length (dict_items d)) \<le> dict_capacity d" "0 < dict_capacity d"
  shows "int (length (dict_items d')) \<le> dict_capacity d'" "map_of (dict_items d') k = Some v"
  using assms by (auto simp: dict_setitem_def length_update update_conv' Suc_le_eq of_nat_diff split: if_splits)

section \<open>One request\<close>

lemma advance_offset: "ds_sent_offset (snd (advance_status b t s)) = ds_sent_offset s"
  by (simp add: advance_status_def)

lemma emit_settled:
  \<comment> \<open>text that ends in a whole character is sent at once and as a whole\<close>
  assumes "out_finished_reason o1 = None" "new_text \<noteq> []" "\<not> ends_with [65533] new_text"
    and "ds_sent_offset s = length (ds_decoded_text s)"
  shows "\<exists>s'. emit o1 new_text s = (new_text, s') \<and> ds_decoded_text s' = ds_decoded_text s @ new_text
           \<and> ds_sent_offset s' = length (ds_decoded_text s') \<and> ds_read_offset s' = length (ds_decode_ids s')"
  using assms by (simp add: emit_def advance_status_def trim_stop_str_def truthy_matched_def)

lemma emit_completes:
  \<comment> \<open>while the output extends what was sent, the pieces add up to the output\<close>
  assumes "emit o1 new_text s = (piece, s')" "advance_status (out_finished_reason o1 \<noteq> None) new_text s = (pending, s1)"
    and "prefix sent (trim_stop_str (ds_decoded_text s1 @ pending) (out_finished_reason o1) (out_no_stop_trim o1))"
    and "length sent = ds_sent_offset s"
  shows "sent @ piece = trim_stop_str (ds_decoded_text s1 @ pending) (out_finished_reason o1) (out_no_stop_trim o1)"
proof -
  have "ds_sent_offset s1 = length sent" using advance_offset [of _ new_text s] assms(2,4) by (metis snd_conv)
  then show ?thesis using assms(1-3) by (auto simp: emit_def prefix_def)
qed

lemma until_last_space_prefix: "prefix (until_last_space t) t"
proof -
  have "t = rev (dropWhile (\<lambda>c. c \<noteq> 32) (rev t)) @ rev (takeWhile (\<lambda>c. c \<noteq> 32) (rev t))"
    by (simp flip: rev_append)
  then show ?thesis unfolding until_last_space_def prefix_def by blast
qed

lemma find_printable_prefix: "prefix (find_printable_text t) t"
  using until_last_space_prefix [of t] prefixeq_butlast [of t] by (auto simp: find_printable_text_def)

lemma trim_stop_str_prefix: "prefix (trim_stop_str t f b) t"
  by (auto simp: trim_stop_str_def take_is_prefix split: option.split matched.split)

definition chunk_out :: "token_out" where
  \<comment> \<open>a request in the middle of its stream\<close>
  "chunk_out = \<lparr>out_rid = str ''r'', out_finished_reason = None, out_decoded_text = [], out_decode_ids = [],
     out_read_offset = 0, out_skip_special_tokens = True, out_spaces_between_special_tokens = True,
     out_no_stop_trim = False\<rparr>"

fun emit_all :: "token_out \<Rightarrow> text list \<Rightarrow> decode_status \<Rightarrow> text list" where
  "emit_all o1 [] s = []"
| "emit_all o1 (t # ts) s = (let (piece, s1) = emit o1 t s in piece # emit_all o1 ts s1)"

lemma sent_text_repeated:
  \<comment> \<open>an ideograph before half a character is sent; when another unfinished character follows, it is not part of
     the printable text any more, the offset goes back, and the ideograph is sent a second time\<close>
  "concat (emit_all chunk_out [[0x4E2D, 65533], [0x4E2D, 0x1F600, 65533], [0x4E2D, 0x1F600, 0x1F600]]
     \<lparr>ds_decoded_text = [], ds_decode_ids = [1, 2, 3], ds_surr_offset = 0, ds_read_offset = 0, ds_sent_offset = 0\<rparr>)
   = [0x4E2D, 0x4E2D, 0x1F600, 0x1F600]"
  by (simp add: emit_def chunk_out_def advance_status_def ends_with_def find_printable_text_def is_chinese_char_def
      until_last_space_def trim_stop_str_def truthy_matched_def)

lemma stop_token_zero_kept:
  \<comment> \<open>a matched stop token is cut off, except the token with id 0\<close>
  "trim_stop_ids False (ids @ [i]) (Some \<lparr>fin_matched = Some (Matched_Int i)\<rparr>) False
   = Inr (if i = 0 then ids @ [i] else ids)"
  by (simp add: trim_stop_ids_def truthy_matched_def)

section \<open>A batch\<close>

definition well_formed_out :: "token_out \<Rightarrow> bool" where
  \<comment> \<open>a request that matched a stop brings at least one token, and the read offset is inside the tokens\<close>
  "well_formed_out o1 \<longleftrightarrow>
     (out_decode_ids o1 \<noteq> [] \<or> truthy_matched (out_finished_reason o1) (out_no_stop_trim o1) = None)
     \<and> out_read_offset o1 \<le> length (out_decode_ids o1)"

definition status_ok :: "decode_status \<Rightarrow> bool" where
  "status_ok s \<longleftrightarrow> ds_surr_offset s \<le> ds_read_offset s \<and> ds_read_offset s \<le> length (ds_decode_ids s)"

definition dict_ok :: "status_dict \<Rightarrow> bool" where
  "dict_ok d \<longleftrightarrow> (\<forall>s \<in> snd ` set (dict_items d). status_ok s)"

definition dict_keys :: "status_dict \<Rightarrow> text set" where
  "dict_keys d = fst ` set (dict_items d)"

lemma set_update_subset: "set (AList.update k v al) \<subseteq> insert (k, v) (set al)"
  by (induction al) auto

lemma dict_ok_update:
  assumes "dict_ok d" "status_ok s"
  shows "dict_ok (d\<lparr>dict_items := AList.update k s (dict_items d)\<rparr>)"
  using assms set_update_subset [of k s "dict_items d"] by (fastforce simp: dict_ok_def)

lemma dict_keys_update: "dict_keys (d\<lparr>dict_items := AList.update k s (dict_items d)\<rparr>) = insert k (dict_keys d)"
  by (simp add: dict_keys_def dom_update)

lemma map_of_ok: "map_of (dict_items d) k = Some s \<Longrightarrow> dict_ok d \<Longrightarrow> status_ok s"
  by (fastforce simp: dict_ok_def dest: map_of_SomeD)

lemma init_status_ok:
  assumes "dict_ok d" "well_formed_out o1" "int (length (dict_items d)) < dict_capacity d"
  obtains s d1 where "init_status o1 d = Inr (s, d1)" "dict_ok d1" "dict_keys d1 = insert (out_rid o1) (dict_keys d)"
    "dict_capacity d1 = dict_capacity d" "length (dict_items d1) \<le> Suc (length (dict_items d))"
    "out_decode_ids o1 \<noteq> [] \<longrightarrow> drop (ds_surr_offset s) (ds_decode_ids s) \<noteq> []"
proof (cases "map_of (dict_items d) (out_rid o1)")
  case None
  define s where "s = \<lparr>ds_decoded_text = out_decoded_text o1, ds_decode_ids = out_decode_ids o1, ds_surr_offset = 0,
    ds_read_offset = out_read_offset o1, ds_sent_offset = 0\<rparr>"
  have "status_ok s" using assms(2) by (simp add: s_def status_ok_def well_formed_out_def)
  moreover have "init_status o1 d = Inr (s, d\<lparr>dict_items := AList.update (out_rid o1) s (dict_items d)\<rparr>)"
    using None assms(3) by (simp add: init_status_def s_def Let_def dict_setitem_def res_simps)
  ultimately show ?thesis
    using that dict_ok_update [OF assms(1)] by (simp add: dict_keys_update length_update s_def)
next
  case (Some s)
  define s1 where "s1 = s\<lparr>ds_decode_ids := ds_decode_ids s @ out_decode_ids o1\<rparr>"
  have "status_ok s" by (rule map_of_ok [OF Some assms(1)])
  then have "status_ok s1" "out_decode_ids o1 \<noteq> [] \<longrightarrow> drop (ds_surr_offset s1) (ds_decode_ids s1) \<noteq> []"
    by (auto simp: s1_def status_ok_def)
  moreover have "init_status o1 d = Inr (s1, d\<lparr>dict_items := AList.update (out_rid o1) s1 (dict_items d)\<rparr>)"
    using Some by (simp add: init_status_def s1_def Let_def)
  ultimately show ?thesis
    using that dict_ok_update [OF assms(1)] by (simp add: dict_keys_update length_update)
qed

lemma trim_stop_ids_ok:
  assumes "well_formed_out o1" "out_decode_ids o1 \<noteq> [] \<longrightarrow> ids \<noteq> []"
  obtains ids' where "trim_stop_ids g ids (out_finished_reason o1) (out_no_stop_trim o1) = Inr ids'"
proof -
  have "\<exists>ids'. trim_stop_ids g ids (out_finished_reason o1) (out_no_stop_trim o1) = Inr ids'"
    using assms by (auto simp: trim_stop_ids_def well_formed_out_def split: option.split matched.split)
  then show ?thesis using that by blast
qed

lemma read_loop_ok:
  assumes "dict_ok d" "list_all well_formed_out os" "int (length (dict_items d) + length os) \<le> dict_capacity d"
  shows "\<exists>ids d1. read_loop g os d = Inr (ids, d1) \<and> length ids = length os \<and> dict_ok d1
           \<and> dict_keys d1 = dict_keys d \<union> out_rid ` set os"
  using assms
proof (induction os arbitrary: d)
  case (Cons o1 os)
  then have "well_formed_out o1" "int (length (dict_items d)) < dict_capacity d" by auto
  from init_status_ok [OF Cons.prems(1) this] obtain s d1 where
    i: "init_status o1 d = Inr (s, d1)" "dict_ok d1" "dict_keys d1 = insert (out_rid o1) (dict_keys d)"
      "dict_capacity d1 = dict_capacity d" "length (dict_items d1) \<le> Suc (length (dict_items d))"
    and n: "out_decode_ids o1 \<noteq> [] \<longrightarrow> drop (ds_surr_offset s) (ds_decode_ids s) \<noteq> []" .
  obtain r where "trim_stop_ids g (drop (ds_surr_offset s) (ds_decode_ids s)) (out_finished_reason o1)
      (out_no_stop_trim o1) = Inr r"
    using trim_stop_ids_ok [OF \<open>well_formed_out o1\<close> n] .
  moreover obtain ids d2 where "read_loop g os d1 = Inr (ids, d2)" "length ids = length os" "dict_ok d2"
      "dict_keys d2 = dict_keys d1 \<union> out_rid ` set os"
    using Cons.IH [OF i(2)] Cons.prems(2,3) i(4,5) by fastforce
  ultimately show ?case using i(1,3) by (simp add: res_simps)
qed simp

lemma emit_ok: "status_ok s \<Longrightarrow> emit o1 t s = (out, s1) \<Longrightarrow> status_ok s1"
  by (auto simp: emit_def advance_status_def status_ok_def Let_def split: if_splits)

lemma emit_loop_ok:
  assumes "length ids = length os" "dict_ok d" "out_rid ` set os \<subseteq> dict_keys d"
  shows "\<exists>outs d1. emit_loop dec os ids d = Inr (outs, d1) \<and> length outs = length os \<and> dict_ok d1"
  using assms
proof (induction ids os arbitrary: d rule: list_induct2)
  case (Cons rs ids o1 os)
  obtain r t where rs: "rs = (r, t)" by fastforce
  obtain s where s: "map_of (dict_items d) (out_rid o1) = Some s"
    using Cons.prems(2) by (auto simp: dict_keys_def dest: weak_map_of_SomeI)
  obtain out s1 where e: "emit o1 (drop (length (dec t)) (dec r)) s = (out, s1)" by fastforce
  have "status_ok s1" by (rule emit_ok [OF map_of_ok [OF s Cons.prems(1)] e])
  then obtain outs d2 where "emit_loop dec os ids (d\<lparr>dict_items := AList.update (out_rid o1) s1 (dict_items d)\<rparr>)
      = Inr (outs, d2)" "length outs = length os" "dict_ok d2"
    using Cons.IH [OF dict_ok_update [OF Cons.prems(1)], of s1 "out_rid o1"] Cons.prems(2) by (auto simp: dict_keys_update)
  then show ?case using s e by (simp add: rs res_simps)
qed simp

theorem detokenizer_batch_succeeds:
  \<comment> \<open>as long as the states fit into the dictionary no request of a batch loses its state: every request gets its
     piece of text, and the offsets stay inside the tokens\<close>
  assumes "os \<noteq> []" "list_all well_formed_out os" "dict_ok d"
    and "int (length (dict_items d) + length os) \<le> dict_capacity d"
  shows "\<exists>outs d1. handle_batch_token_id_out g dec os d = Inr (outs, d1) \<and> length outs = length os \<and> dict_ok d1"
proof -
  obtain ids d1 where "read_loop g os d = Inr (ids, d1)" "length ids = length os" "dict_ok d1"
      "dict_keys d1 = dict_keys d \<union> out_rid ` set os"
    using read_loop_ok [OF assms(3,2,4)] by blast
  moreover from this have "\<exists>outs d2. emit_loop dec' os ids d1 = Inr (outs, d2) \<and> length outs = length os \<and> dict_ok d2"
    for dec' by (intro emit_loop_ok) auto
  moreover obtain o1 os' where "os = o1 # os'" using assms(1) by (cases os) auto
  ultimately show ?thesis by (simp add: handle_batch_token_id_out_def del: read_loop.simps)
qed

end
