(* ===== verification/Spec2Isabelle.thy ===== *)
theory Spec2Isabelle
  imports Intake_Correct Batch_Paged SWA_Match RW_Lock Input_Blocker Multimodal_Cache Reasoning_Parser Detokenizer
begin

text \<open>
  \<^bold>\<open>The memory management and scheduling of the SGLang runtime.\<close>

  SGLang serves large language models. A request is a prompt of tokens; the runtime computes its KV
  entries (prefill), then generates tokens one at a time for many requests at once (decode). The
  entries live in numbered slots of device memory. This library models the code of
  \<^verbatim>\<open>src/python/sglang/srt\<close> that decides which request runs when and which slot belongs to whom, and
  proves, within the bounds stated below, that slots and requests are neither lost nor shared. Paths
  below are relative to that directory.

  \<^bold>\<open>How the parts interact.\<close> A request enters the scheduler (\<^verbatim>\<open>managers/scheduler.py\<close>), is checked
  and put into the waiting queue. In every round the scheduler orders that queue and admits requests
  as long as memory lasts (\<^verbatim>\<open>managers/schedule_policy.py\<close>), looking up and locking the part of each prompt
  that the prefix cache (\<^verbatim>\<open>mem_cache/radix_cache.py\<close>) has; the admitted requests become a batch
  (\<^verbatim>\<open>managers/schedule_batch.py\<close>) that takes a row of the request pool (\<^verbatim>\<open>mem_cache/memory_pool.py\<close>) for each
  request and slots from a KV allocator (\<^verbatim>\<open>mem_cache/allocator.py\<close>), evicting from the prefix cache when
  slots are short. After prefill a batch is merged into the running batch. Before each decode step
  finished requests leave it, and requests are retracted to the waiting queue when memory is
  short. A request that finishes, or has a part of its prompt computed, hands its slots to the prefix
  cache.

  \<^bold>\<open>Conventions\<close> (\<open>Prelude\<close>, \<open>Py_Run\<close>, \<open>Py_Text\<close>). Objects are records, tensors are lists, a
  dictionary is an association list where its order matters. Objects that are shared and mutated (tree
  nodes) live in a store indexed by their number. An operation that may raise returns either
  \<open>py_error + 'a\<close>, where the error is of interest, or \<open>'a option\<close> with \<open>None\<close> for any exception. A
  loop that follows pointers is a \<open>partial_function (option)\<close>, so that not returning is \<open>None\<close> too;
  where the assertions are of interest as well, \<open>'a run\<close> separates not returning from raising. That
  the code returns is part of a property's conclusion, with one exception whose premise is the answer of an
  operation: the release of a lock of the hybrid cache that was granted (a separate property says exactly when it
  is). The finish check and the verification of sampling parameters are characterised by equivalences. Fuel occurs in one place, the recursive walks of the DFS-weight policy; fuel above the
  largest number of tokens on a path of the tree suffices, and the properties hold for all
  large enough fuel. Python's integers are \<open>int\<close> or, where they cannot be negative, \<open>nat\<close>; the
  slot numbers in \<open>int32\<close> tensors are below the size of the memory, so that no conversion changes them.
  The floating-point ratio that estimates new tokens is an exact rational. The clock, hashes,
  shuffles, the tokenizer, the content of fresh device memory and the tokens the model produces
  are parameters.

  \<^bold>\<open>Slot allocators.\<close> \<open>Allocator\<close> has the base class, the token allocator and the pair of
  allocators for sliding-window models; \<open>Paged_Kernels\<close> the Triton kernels \<^verbatim>\<open>alloc_extend_kernel\<close> and
  \<^verbatim>\<open>alloc_decode_kernel\<close>, one program per request as a list of stores; \<open>Paged_Allocator\<close> the paged
  allocator. The locale \<open>slot_allocator\<close> is what clients rely on (allocated slots leave the pool, freed
  slots return to it); it is interpreted by the token allocator (\<open>tok\<close>), the paged allocator
  (\<open>paged\<close>) and the choice between them that batches use (\<open>kv\<close>). Shown: no slot is handed
  out twice over any sequence of operations; the kernels compute the page table
  of their specification, and the slots of an extension are distinct and in no page that stays free.

  \<^bold>\<open>Prefix cache.\<close> \<open>Radix_Cache\<close> models \<^verbatim>\<open>RadixCache\<close> method by method. \<open>Radix_Tree\<close> and \<open>Radix_Ops\<close> give the
  tree invariant, \<open>Radix_Insert\<close> and \<open>Radix_Contract\<close> the contract of lookup and insertion as the
  locales \<open>prefix_cache\<close> and \<open>writable_prefix_cache\<close>, interpreted by the radix cache (\<open>radix\<close>) and, for lookup, by
  the cache that keeps nothing (\<open>chunk\<close>). \<open>Radix_Locks\<close> treats the reference counts, \<open>Radix_Evict\<close> the
  traversals and eviction over an arbitrary allocator. Shown: a lookup returns the longest
  cached prefix, an insertion adds exactly the prefixes of its key, locks undo, eviction terminates and
  frees exactly what it removes.

  \<^bold>\<open>Requests.\<close> \<open>Sampling_Params\<close> models \<^verbatim>\<open>sampling/sampling_params.py\<close>, \<open>Request\<close> the class \<^verbatim>\<open>Req\<close>, \<open>Memory_Pool\<close>
  the table of token locations, \<open>Request_Cache\<close> how the two caches take over the slots of a request
  (\<^verbatim>\<open>cache_finished_req\<close>, \<^verbatim>\<open>cache_unfinished_req\<close>). Shown: every slot of a request ends in the tree or with the
  allocator exactly once and its lock moves with it, no other changing (for the token allocator); exactly when the
  finish check leaves a request running; exactly which parameters are accepted.

  \<^bold>\<open>Batches.\<close> \<open>Batch_Kernels\<close> has the kernels of \<^verbatim>\<open>managers/schedule_batch.py\<close> and the torch code they
  replace, with their equivalence; \<open>Schedule_Batch\<close> the class \<^verbatim>\<open>ScheduleBatch\<close>; \<open>Batch_Correct\<close> and
  \<open>Batch_Paged\<close> its properties: alignment of the lists; rows filled with the right locations and memory checks that are
  exact, with the token allocator (page size 1) and with the paged allocator (there without eviction: the extension has
  the free pages of the code's estimate, the decode step is over the cache that keeps nothing); retraction that ends
  (page size 1, over the cache that keeps nothing), or fails for a single request without a free slot.

  \<^bold>\<open>Scheduling.\<close> \<open>Schedule_Policy\<close> models \<^verbatim>\<open>SchedulePolicy\<close> and \<^verbatim>\<open>PrefillAdder\<close>, \<open>Policy_Correct\<close> and \<open>Admission\<close>
  their properties; \<open>Scheduler_Intake\<close> how requests and sessions enter (with
  \<^verbatim>\<open>managers/session_controller.py\<close>), \<open>Scheduler\<close> how batches are formed and results processed (with
  \<^verbatim>\<open>managers/scheduler_output_processor_mixin.py\<close>). The properties that compose all of the above are in
  \<open>Scheduler_Correct\<close> (forming a prefill batch does not fail and keeps every request), \<open>Decode_Loop\<close> (the
  running batch gets to a decode step unless a single request is left without a free slot) and \<open>Intake_Correct\<close>
  (an accepted request fits; which grammar requests raise). The first is for page size 1, without mixing decode requests
  into prefill batches, with no request in the middle of a chunked prefill and none waiting for a
  grammar, and for waiting requests that have a limit of new tokens and fit; \<open>Intake_Correct\<close> shows that accepted
  requests do and that some rejected ones do not. The second is for page size 1 over the cache that keeps nothing,
  without speculative decoding.

  \<^bold>\<open>Hybrid prefix cache.\<close> \<open>Lru_List\<close> and \<open>SWA_Cache\<close> model \<^verbatim>\<open>mem_cache/swa_radix_cache.py\<close>, the cache for models
  that mix full and sliding-window attention: doubly linked recency lists threaded through the nodes
  of a radix tree whose inner nodes may have lost their sliding-window slots. \<open>Lru_Correct\<close> shows that
  the linked lists refine plain lists (locale \<open>op_refinement\<close>, interpreted as \<open>lru\<close>), \<open>SWA_Locks\<close> when a
  lock is granted and that releasing it undoes it, \<open>SWA_Match\<close> that a match may return a node that
  cannot be locked. Insertion and eviction of this cache are modelled without properties.

  \<^bold>\<open>Around the scheduler.\<close> \<open>RW_Lock\<close>: the readers-writer lock of \<^verbatim>\<open>aio_rwlock.py\<close> as a step relation over
  arbitrary interleavings, with cancellation. \<open>Input_Blocker\<close>: \<^verbatim>\<open>managers/scheduler_input_blocker.py\<close>,
  \<^verbatim>\<open>poll_based_barrier.py\<close> and \<^verbatim>\<open>managers/scheduler_recv_skipper.py\<close>. \<open>Multimodal_Cache\<close>:
  \<^verbatim>\<open>mem_cache/multimodal_cache.py\<close>. \<open>Reasoning_Parser\<close>: \<^verbatim>\<open>reasoning_parser.py\<close>. \<open>Detokenizer\<close>:
  \<^verbatim>\<open>managers/detokenizer_manager.py\<close> with \<^verbatim>\<open>find_printable_text\<close> of \<^verbatim>\<open>src/python/sglang/utils.py\<close>. Each has
  its own functional lemmas, and some show where the
  code departs from what it means to do.

  \<^bold>\<open>Not modelled.\<close> Of the modelled files: speculative decoding, disaggregated prefill and decode, data-parallel
  attention, LoRA, multimodal and encoder-decoder inputs, returned log probabilities, the hybrid
  memory inside batches and admission, and messages over sockets; each theory says what it leaves out.
  Not modelled at all: the hierarchical cache, whose host and storage copies run in threads and device
  streams; the model executor, layers, models, sampling on the device and the kernels outside memory
  management, which are floating-point tensor code; the distributed runtime and the process and socket
  plumbing of tokenizer, data-parallel controller and HTTP servers; the wrappers of third-party grammar
  compilers and the parsers of tool calls, which rest on regular expressions and partial JSON of other
  packages; server arguments; the frontend language, the router and the kernel package, which are
  separate programs.
\<close>

end
